(* ===== verification/Squid_Prelude.thy ===== *)
theory Squid_Prelude
  imports Main "HOL-Library.Word" "HOL-Library.List_Lexorder" "HOL-Library.Char_ord"
begin

text \<open>
  What every component of the SquidStorage model shares: the machine integer types of the C++
  sources, the conversion between \<open>std::string\<close> characters and bytes, the conversion between the
  C++ \<open>int\<close> and the 32-bit integers of the wire, the collections of rewrite rules the component
  proofs draw on, and a few facts about lists.
\<close>

unbundle bit_operations_syntax

named_theorems squid_defs \<open>definitions that the symbolic evaluation of concrete runs unfolds\<close>
named_theorems wire_simps \<open>reading back what the frame builder wrote\<close>

section \<open>Machine integers\<close>

type_synonym u8 = "8 word"
type_synonym u16 = "16 word"
type_synonym u32 = "32 word"
type_synonym u64 = "64 word"

type_synonym bytes = "u8 list"

text \<open>
  The C++ \<open>int\<close> is a HOL \<open>int\<close>; \<open>int_range\<close> is the range of the 32-bit type. The two casts
  \<open>static_cast<uint32_t>\<close> and \<open>static_cast<int>\<close> go through the two's complement representation.
\<close>

definition int_range :: "int \<Rightarrow> bool" where
  "int_range v \<longleftrightarrow> - (2 ^ 31) \<le> v \<and> v < 2 ^ 31"

definition u32_of_int :: "int \<Rightarrow> u32" where
  "u32_of_int v = word_of_int v"

definition int_of_u32 :: "u32 \<Rightarrow> int" where
  "int_of_u32 w = sint w"

lemma int_of_u32_of_int [simp]: "int_range v \<Longrightarrow> int_of_u32 (u32_of_int v) = v"
  by (simp add: int_range_def int_of_u32_def u32_of_int_def sint_sbintrunc' signed_take_bit_int_eq_self)

lemma u32_of_int_of_u32 [simp]: "u32_of_int (int_of_u32 w) = w"
  by (simp add: int_of_u32_def u32_of_int_def)

lemma int_range_int_of_u32 [simp]: "int_range (int_of_u32 w)"
  using sint_ge [of w] sint_lt [of w] by (simp add: int_range_def int_of_u32_def)

lemma unat_of_nat_small: "n < 2 ^ LENGTH('a) \<Longrightarrow> unat (of_nat n :: 'a::len word) = n"
  by (simp add: unat_of_nat)

lemma take_bit_64 [simp]: "take_bit 64 (v :: u64) = v"
  by (rule bit_word_eqI) (simp add: bit_simps)

section \<open>Characters and bytes\<close>

definition byte_of_char :: "char \<Rightarrow> u8" where
  "byte_of_char c = of_char c"

definition char_of_byte :: "u8 \<Rightarrow> char" where
  "char_of_byte b = char_of (unat b)"

lemma unat_byte_of_char [simp]: "unat (byte_of_char c) = of_char c"
proof -
  have "unat (of_char c :: u8) = unat (of_nat (of_char c) :: u8)"
    by (simp add: of_nat_of_char)
  also have "\<dots> = of_char c"
    by (simp add: unat_of_nat)
  finally show ?thesis
    by (simp add: byte_of_char_def)
qed

lemma char_of_byte_of_char [simp]: "char_of_byte (byte_of_char c) = c"
  by (simp add: char_of_byte_def)

lemma byte_of_char_of_byte [simp]: "byte_of_char (char_of_byte b) = b"
proof -
  have "unat b < 256"
    using unsigned_less [of b, where ?'a = nat] by simp
  then have "unat (byte_of_char (char_of_byte b)) = unat b"
    by (simp add: char_of_byte_def)
  then show ?thesis
    by (rule word_unat_eq_iff [THEN iffD2])
qed

definition bytes_of_string :: "string \<Rightarrow> bytes" where
  "bytes_of_string s = map byte_of_char s"

definition string_of_bytes :: "bytes \<Rightarrow> string" where
  "string_of_bytes bs = map char_of_byte bs"

lemma string_of_bytes_of_string [simp]: "string_of_bytes (bytes_of_string s) = s"
  by (simp add: string_of_bytes_def bytes_of_string_def comp_def)

lemma bytes_of_string_of_bytes [simp]: "bytes_of_string (string_of_bytes bs) = bs"
  by (simp add: string_of_bytes_def bytes_of_string_def comp_def)

lemma length_bytes_of_string [simp]: "length (bytes_of_string s) = length s"
  by (simp add: bytes_of_string_def)

lemma length_string_of_bytes [simp]: "length (string_of_bytes bs) = length bs"
  by (simp add: string_of_bytes_def)

end
