(* ===== verification/Ordered_Map.thy ===== *)
theory Ordered_Map
  imports Squid_Prelude
begin

text \<open>
  The associative containers of the sources. \<open>std::map\<close> keeps its entries ordered by key and the
  code iterates over them in that order, so the model is the list of entries with strictly
  increasing keys; \<open>std::set\<close> is the list of its elements in strictly increasing order. The locale
  \<open>dictionary\<close> states what the components rely on when they call \<open>find\<close>, \<open>operator[]\<close> and
  \<open>erase\<close>, and holds the lemmas about the loops that copy one map into another.
\<close>

section \<open>std::map\<close>

type_synonym ('k, 'v) omap = "('k \<times> 'v) list"

definition om_ok :: "('k::linorder, 'v) omap \<Rightarrow> bool" where
  "om_ok m \<longleftrightarrow> sorted_wrt (<) (map fst m)"

definition om_find :: "('k, 'v) omap \<Rightarrow> 'k \<Rightarrow> 'v option" where
  "om_find m k = map_of m k"

definition om_has :: "('k, 'v) omap \<Rightarrow> 'k \<Rightarrow> bool" where
  "om_has m k = (om_find m k \<noteq> None)"

fun om_put :: "'k::linorder \<Rightarrow> 'v \<Rightarrow> ('k, 'v) omap \<Rightarrow> ('k, 'v) omap" where
  "om_put k v [] = [(k, v)]"
| "om_put k v (e # m) =
     (if fst e < k then e # om_put k v m
      else if fst e = k then (k, v) # m
      else (k, v) # e # m)"

fun om_erase :: "'k::linorder \<Rightarrow> ('k, 'v) omap \<Rightarrow> ('k, 'v) omap" where
  "om_erase k [] = []"
| "om_erase k (e # m) = (if fst e = k then m else e # om_erase k m)"

definition om_insert :: "'k::linorder \<Rightarrow> 'v \<Rightarrow> ('k, 'v) omap \<Rightarrow> ('k, 'v) omap" where
  \<comment> \<open>\<open>map::insert\<close>, which keeps an entry that is already there\<close>
  "om_insert k v m = (if om_has m k then m else om_put k v m)"

definition om_keys :: "('k, 'v) omap \<Rightarrow> 'k list" where
  "om_keys m = map fst m"

lemma om_find_Nil [simp]: "om_find [] k = None"
  by (simp add: om_find_def)

lemma om_find_Cons: "om_find (e # m) k = (if fst e = k then Some (snd e) else om_find m k)"
  by (cases e) (simp add: om_find_def)

lemma om_ok_Nil [simp]: "om_ok []"
  by (simp add: om_ok_def)

lemma om_ok_Cons: "om_ok (e # m) \<longleftrightarrow> (\<forall>x\<in>set m. fst e < fst x) \<and> om_ok m"
  by (auto simp: om_ok_def)

lemma om_find_put [simp]: "om_find (om_put k v m) k' = (if k' = k then Some v else om_find m k')"
  by (induction m) (auto simp: om_find_Cons)

lemma fst_set_om_put: "fst ` set (om_put k v m) = insert k (fst ` set m)"
  by (induction m) auto

lemma om_find_None_iff: "om_find m k = None \<longleftrightarrow> k \<notin> fst ` set m"
  by (auto simp: om_find_def map_of_eq_None_iff)

lemma om_ok_put [simp]: "om_ok m \<Longrightarrow> om_ok (om_put k v m)"
proof (induction m)
  case (Cons e m)
  show ?case
  proof (cases "fst e < k")
    case True
    have "\<forall>x\<in>set (om_put k v m). fst e < fst x"
    proof
      fix x assume "x \<in> set (om_put k v m)"
      then have "fst x \<in> insert k (fst ` set m)"
        by (metis fst_set_om_put imageI)
      with True Cons.prems show "fst e < fst x"
        by (auto simp: om_ok_Cons)
    qed
    with True Cons show ?thesis
      by (simp add: om_ok_Cons)
  next
    case False
    with Cons.prems show ?thesis
      by (auto simp: om_ok_Cons not_less)
  qed
qed (simp add: om_ok_Cons)

lemma om_ok_find_Cons_hd: "om_ok (e # m) \<Longrightarrow> om_find m (fst e) = None"
  by (auto simp: om_ok_Cons om_find_None_iff)

lemma om_find_erase [simp]:
  "om_ok m \<Longrightarrow> om_find (om_erase k m) k' = (if k' = k then None else om_find m k')"
proof (induction m)
  case (Cons e m)
  then show ?case
    using om_ok_find_Cons_hd [of e m] by (auto simp: om_find_Cons om_ok_Cons)
qed simp

lemma set_om_erase: "set (om_erase k m) \<subseteq> set m"
  by (induction m) auto

lemma om_ok_erase [simp]: "om_ok m \<Longrightarrow> om_ok (om_erase k m)"
proof (induction m)
  case (Cons e m)
  then show ?case
    using set_om_erase [of k m] by (auto simp: om_ok_Cons)
qed simp

lemma om_ok_insert [simp]: "om_ok m \<Longrightarrow> om_ok (om_insert k v m)"
  by (simp add: om_insert_def)

lemma om_find_insert:
  "om_find (om_insert k v m) k' =
     (if k' = k \<and> om_find m k = None then Some v else om_find m k')"
  by (auto simp: om_insert_def om_has_def)

lemma om_keys_find: "k \<in> set (om_keys m) \<longleftrightarrow> om_find m k \<noteq> None"
  by (simp add: om_keys_def om_find_None_iff)

lemma om_ok_distinct: "om_ok m \<Longrightarrow> distinct (map fst m)"
  by (simp add: om_ok_def strict_sorted_iff)

lemma om_find_in_set: "om_ok m \<Longrightarrow> (k, v) \<in> set m \<longleftrightarrow> om_find m k = Some v"
  by (simp add: om_find_def om_ok_distinct)

text \<open>Two ordered maps with the same entries are the same list: the representation is canonical.\<close>

lemma om_eqI:
  assumes "om_ok m" and "om_ok m'" and "\<And>k. om_find m k = om_find m' k"
  shows "m = m'"
proof -
  have "set m = set m'"
    using assms by (auto simp: om_find_in_set)
  moreover have "sorted (map fst m)" "distinct (map fst m)" "sorted (map fst m')" "distinct (map fst m')"
    using assms(1,2) by (simp_all add: om_ok_def strict_sorted_iff)
  ultimately show ?thesis
    by (intro map_sorted_distinct_set_unique [of fst]) (simp_all add: distinct_map)
qed

section \<open>std::set\<close>

type_synonym 'a oset = "'a list"

fun os_insert :: "'a::linorder \<Rightarrow> 'a oset \<Rightarrow> 'a oset" where
  "os_insert x [] = [x]"
| "os_insert x (y # ys) =
     (if y < x then y # os_insert x ys else if y = x then y # ys else x # y # ys)"

definition os_ok :: "'a::linorder oset \<Rightarrow> bool" where
  "os_ok s \<longleftrightarrow> sorted_wrt (<) s"

definition os_of_list :: "'a::linorder list \<Rightarrow> 'a oset" where
  "os_of_list xs = fold os_insert xs []"

lemma set_os_insert [simp]: "set (os_insert x s) = insert x (set s)"
  by (induction s) auto

lemma os_ok_insert [simp]: "os_ok s \<Longrightarrow> os_ok (os_insert x s)"
  by (induction s) (auto simp: os_ok_def not_less)

lemma set_fold_os_insert: "set (fold os_insert xs s) = set xs \<union> set s"
  by (induction xs arbitrary: s) auto

lemma os_ok_fold: "os_ok s \<Longrightarrow> os_ok (fold os_insert xs s)"
  by (induction xs arbitrary: s) auto

lemma set_os_of_list [simp]: "set (os_of_list xs) = set xs"
  by (simp add: os_of_list_def set_fold_os_insert)

lemma os_ok_os_of_list [simp]: "os_ok (os_of_list xs)"
  unfolding os_of_list_def by (rule os_ok_fold) (simp add: os_ok_def)

lemma os_eqI: "os_ok s \<Longrightarrow> os_ok t \<Longrightarrow> set s = set t \<Longrightarrow> s = t"
  by (simp add: os_ok_def strict_sorted_equal)

lemma os_of_list_id: "os_ok s \<Longrightarrow> os_of_list s = s"
  by (rule os_eqI) simp_all

section \<open>The contract of a map\<close>

locale dictionary =
  fixes dput :: "'k \<Rightarrow> 'v \<Rightarrow> 'm \<Rightarrow> 'm"
    and derase :: "'k \<Rightarrow> 'm \<Rightarrow> 'm"
    and dfind :: "'m \<Rightarrow> 'k \<Rightarrow> 'v option"
    and wf :: "'m \<Rightarrow> bool"
  assumes find_put: "wf m \<Longrightarrow> dfind (dput k v m) k' = (if k' = k then Some v else dfind m k')"
    and find_erase: "wf m \<Longrightarrow> dfind (derase k m) k' = (if k' = k then None else dfind m k')"
    and wf_put: "wf m \<Longrightarrow> wf (dput k v m)"
    and wf_erase: "wf m \<Longrightarrow> wf (derase k m)"
begin

text \<open>A loop that stores a list of entries: the last entry for a key wins.\<close>

lemma wf_put_all: "wf m \<Longrightarrow> wf (fold (\<lambda>(k, v). dput k v) kvs m)"
  by (induction kvs arbitrary: m) (auto simp: wf_put)

lemma find_put_all:
  "wf m \<Longrightarrow> dfind (fold (\<lambda>(k, v). dput k v) kvs m) k =
     (case map_of (rev kvs) k of None \<Rightarrow> dfind m k | Some v \<Rightarrow> Some v)"
proof (induction kvs rule: rev_induct)
  case (snoc e kvs)
  then show ?case
    by (cases e) (simp add: find_put wf_put_all)
qed simp

text \<open>A loop that erases a list of keys.\<close>

lemma wf_erase_all: "wf m \<Longrightarrow> wf (fold derase ks m)"
  by (induction ks arbitrary: m) (auto simp: wf_erase)

lemma find_erase_all:
  "wf m \<Longrightarrow> dfind (fold derase ks m) k = (if k \<in> set ks then None else dfind m k)"
  by (induction ks arbitrary: m) (auto simp: find_erase wf_erase)

end

interpretation om: dictionary om_put om_erase om_find om_ok
  by unfold_locales simp_all

text \<open>Storing the entries of an ordered map one by one into the empty map copies it.\<close>

lemma om_find_map_of_rev: "om_ok m \<Longrightarrow> map_of (rev m) k = om_find m k"
proof -
  assume "om_ok m"
  then have "distinct (map fst m)" and "distinct (map fst (rev m))"
    by (simp_all add: om_ok_distinct rev_map [symmetric])
  then have "map_of (rev m) k = Some v \<longleftrightarrow> map_of m k = Some v" for v
    by simp
  then show ?thesis
    unfolding om_find_def by (metis option.exhaust)
qed

lemma om_rebuild: "om_ok m \<Longrightarrow> fold (\<lambda>(k, v). om_put k v) m [] = m"
  by (rule om_eqI) (auto simp: om.wf_put_all om.find_put_all om_find_map_of_rev split: option.splits)

end
