(* ===== verification/Sync_Planner.thy ===== *)
theory Sync_Planner
  imports Ordered_Map
begin

text \<open>
  The comparison of two version maps of \<open>common/src/filesystem/syncplanner.hpp\<close>: which files to upload,
  download or create remotely so that both sides have the newest version of every file. The plan is
  compared with a reference that decides each path on its own, and carrying it out is shown to make
  both sides equal.
\<close>

datatype SyncAction = UPLOAD | DOWNLOAD | CREATE_REMOTE

record SyncOp =
  opAction :: SyncAction
  opPath :: string
  opVersion :: int

definition SyncOp_of :: "SyncAction \<Rightarrow> string \<Rightarrow> int \<Rightarrow> SyncOp" where
  "SyncOp_of a p v = \<lparr>opAction = a, opPath = p, opVersion = v\<rparr>"

fun planLocal :: "(string, int) omap \<Rightarrow> (string, int) omap \<Rightarrow> SyncOp list \<times> (string, int) omap" where
  \<comment> \<open>the loop over the local files; the second result is what is left of \<open>remote\<close>\<close>
  "planLocal [] remote = ([], remote)"
| "planLocal ((p, v) # locals) remote =
     (case om_find remote p of
        Some r \<Rightarrow>
          (let (ops, rest) = planLocal locals (om_erase p remote)
           in ((if v > r then [SyncOp_of UPLOAD p v] else if v < r then [SyncOp_of DOWNLOAD p r] else []) @ ops, rest))
      | None \<Rightarrow>
          (let (ops, rest) = planLocal locals remote in (SyncOp_of CREATE_REMOTE p v # ops, rest)))"

definition planSync :: "(string, int) omap \<Rightarrow> (string, int) omap \<Rightarrow> SyncOp list" where
  "planSync localMap remoteMap =
     (let (ops, remote) = planLocal localMap remoteMap
      in ops @ map (\<lambda>(p, v). SyncOp_of DOWNLOAD p v) remote)"

section \<open>The reference: one decision per path\<close>

definition decide :: "int option \<Rightarrow> int option \<Rightarrow> string \<Rightarrow> SyncOp option" where
  "decide l r p =
     (case (l, r) of
        (Some a, Some b) \<Rightarrow>
          if a > b then Some (SyncOp_of UPLOAD p a) else if a < b then Some (SyncOp_of DOWNLOAD p b) else None
      | (Some a, None) \<Rightarrow> Some (SyncOp_of CREATE_REMOTE p a)
      | (None, Some b) \<Rightarrow> Some (SyncOp_of DOWNLOAD p b)
      | (None, None) \<Rightarrow> None)"

definition planReference :: "(string, int) omap \<Rightarrow> (string, int) omap \<Rightarrow> SyncOp list" where
  "planReference l r =
     List.map_filter (\<lambda>p. decide (om_find l p) (om_find r p) p)
       (om_keys l @ filter (\<lambda>p. \<not> om_has l p) (om_keys r))"

lemma om_erase_filter: "om_ok m \<Longrightarrow> om_erase k m = filter (\<lambda>e. fst e \<noteq> k) m"
proof (induction m)
  case (Cons e m)
  have "filter (\<lambda>x. fst x \<noteq> k) m = m" if "fst e = k"
    using that Cons.prems by (intro filter_True) (auto simp: om_ok_Cons)
  with Cons show ?case
    by (simp add: om_ok_Cons)
qed simp

lemma map_filter_cong: "(\<And>x. x \<in> set xs \<Longrightarrow> f x = g x) \<Longrightarrow> List.map_filter f xs = List.map_filter g xs"
  by (induction xs) (simp_all add: List.map_filter_def)

lemma planLocal_reference:
  assumes "om_ok l" and "om_ok r"
  shows "planLocal l r =
    (List.map_filter (\<lambda>p. decide (om_find l p) (om_find r p) p) (om_keys l), filter (\<lambda>e. \<not> om_has l (fst e)) r)"
  using assms
proof (induction l arbitrary: r)
  case Nil
  then show ?case
    by (simp add: om_keys_def om_has_def List.map_filter_def)
next
  case (Cons e l)
  obtain p v where e: "e = (p, v)"
    by (cases e)
  let ?r = "if om_has r p then om_erase p r else r"
  have l: "om_ok l" "om_find l p = None" and r: "om_ok ?r"
    using Cons.prems om_ok_find_Cons_hd [of e l] by (auto simp: om_ok_Cons e)
  have same: "List.map_filter (\<lambda>q. decide (om_find l q) (om_find ?r q) q) (om_keys l) =
      List.map_filter (\<lambda>q. decide (om_find (e # l) q) (om_find r q) q) (om_keys l)"
  proof (rule map_filter_cong)
    fix q assume "q \<in> set (om_keys l)"
    with l(2) have "q \<noteq> p"
      by (auto simp: om_keys_find)
    with Cons.prems(2) show "decide (om_find l q) (om_find ?r q) q = decide (om_find (e # l) q) (om_find r q) q"
      by (simp add: om_find_Cons e)
  qed
  have rest: "filter (\<lambda>x. \<not> om_has l (fst x)) ?r = filter (\<lambda>x. \<not> om_has (e # l) (fst x)) r"
  proof (cases "om_has r p")
    case True
    then show ?thesis
      using Cons.prems(2) by (auto simp: om_erase_filter om_has_def om_find_Cons e intro!: filter_cong)
  next
    case False
    then have "\<forall>x\<in>set r. fst x \<noteq> p"
      by (auto simp: om_has_def om_find_None_iff)
    then have "filter (\<lambda>x. \<not> om_has (e # l) (fst x)) r = filter (\<lambda>x. \<not> om_has l (fst x)) r"
      by (intro filter_cong) (auto simp: om_has_def om_find_Cons e)
    with False show ?thesis
      by simp
  qed
  have IH: "planLocal l ?r =
      (List.map_filter (\<lambda>q. decide (om_find (e # l) q) (om_find r q) q) (om_keys l),
       filter (\<lambda>x. \<not> om_has (e # l) (fst x)) r)"
    using Cons.IH [OF l(1) r] unfolding same rest .
  have keys: "om_keys (e # l) = p # om_keys l"
    by (simp add: om_keys_def e)
  show ?case
  proof (cases "om_find r p")
    case None
    have "decide (om_find (e # l) p) (om_find r p) p = Some (SyncOp_of CREATE_REMOTE p v)"
      by (simp add: decide_def om_find_Cons e None)
    with IH None show ?thesis
      unfolding keys by (simp add: e om_has_def map_filter_simps)
  next
    case (Some x)
    have "decide (om_find (e # l) p) (om_find r p) p =
        (if v > x then Some (SyncOp_of UPLOAD p v) else if v < x then Some (SyncOp_of DOWNLOAD p x) else None)"
      by (simp add: decide_def om_find_Cons e Some)
    with IH Some show ?thesis
      unfolding keys by (simp add: e om_has_def map_filter_simps)
  qed
qed

lemma planSync_reference:
  assumes "om_ok l" and "om_ok r"
  shows "planSync l r = planReference l r"
proof -
  have "map (\<lambda>(p, v). SyncOp_of DOWNLOAD p v) (filter (\<lambda>e. \<not> om_has l (fst e)) r) =
      List.map_filter (\<lambda>p. decide (om_find l p) (om_find r p) p) (filter (\<lambda>p. \<not> om_has l p) (om_keys r))"
  proof -
    have "SyncOp_of DOWNLOAD p v = the (decide (om_find l p) (om_find r p) p)"
      "\<exists>y. decide (om_find l p) (om_find r p) p = Some y" if "(p, v) \<in> set r" "\<not> om_has l p" for p v
      using that assms(2) by (simp_all add: om_find_in_set om_has_def decide_def)
    then show ?thesis
      by (auto simp: List.map_filter_def om_keys_def filter_map comp_def filter_empty_conv
          intro!: map_cong filter_cong)
  qed
  with assms show ?thesis
    by (simp add: planSync_def planReference_def planLocal_reference List.map_filter_def)
qed

text \<open>
  C39: the plan is the reference plan: the local files in order, then the files only the remote has, each
  decided by comparing the two versions of that file alone.
\<close>

theorem plan_is_reference:
  assumes "om_ok l" and "om_ok r"
  shows "planSync l r = planReference l r"
  by (rule planSync_reference [OF assms])

theorem plan_is_reference_witness:
  "planSync [(''a'', 2), (''b'', 1)] [(''b'', 4), (''c'', 0)] =
     planReference [(''a'', 2), (''b'', 1)] [(''b'', 4), (''c'', 0)]"
  by (rule plan_is_reference) code_simp+

section \<open>Carrying out the plan\<close>

type_synonym versions = "string \<Rightarrow> int option"

definition carryOut :: "SyncOp \<Rightarrow> versions \<times> versions \<Rightarrow> versions \<times> versions" where
  \<comment> \<open>an upload or a remote creation stores the version at the remote, a download stores it locally\<close>
  "carryOut op = (\<lambda>(l, r).
     if opAction op = DOWNLOAD then (l(opPath op \<mapsto> opVersion op), r) else (l, r(opPath op \<mapsto> opVersion op)))"

definition newest :: "int option \<Rightarrow> int option \<Rightarrow> int option" where
  "newest l r = (case (l, r) of (Some a, Some b) \<Rightarrow> Some (max a b) | (Some a, None) \<Rightarrow> Some a | (None, x) \<Rightarrow> x)"

lemma decide_path: "decide l r p = Some op \<Longrightarrow> opPath op = p"
  by (auto simp: decide_def SyncOp_of_def split: option.splits if_splits)

lemma carryOut_other:
  assumes "\<forall>op\<in>set ops. opPath op \<noteq> q" and "fold carryOut ops (l, r) = (l', r')"
  shows "l' q = l q \<and> r' q = r q"
  using assms by (induction ops arbitrary: l r) (auto simp: carryOut_def split: if_splits)

lemma carryOut_decide:
  assumes "decide (l p) (r p) p = Some op" and "carryOut op (l, r) = (l', r')"
  shows "l' p = newest (l p) (r p) \<and> r' p = newest (l p) (r p)"
  using assms by (auto simp: decide_def carryOut_def newest_def SyncOp_of_def split: option.splits if_splits)

lemma decide_None: "decide l r p = None \<Longrightarrow> newest l r = l \<and> newest l r = r"
  by (auto simp: decide_def newest_def split: option.splits if_splits)

lemma carryOut_plan:
  assumes "distinct ps" and "fold carryOut (List.map_filter (\<lambda>p. decide (l p) (r p) p) ps) (l, r) = (l', r')"
  shows "l' q = (if q \<in> set ps then newest (l q) (r q) else l q) \<and>
    r' q = (if q \<in> set ps then newest (l q) (r q) else r q)"
  using assms
proof (induction ps arbitrary: l r)
  case Nil
  then show ?case
    by (simp add: List.map_filter_def)
next
  case (Cons p ps)
  obtain l1 r1 where step: "(case decide (l p) (r p) p of None \<Rightarrow> (l, r) | Some op \<Rightarrow> carryOut op (l, r)) = (l1, r1)"
    by (rule prod.exhaust)
  have at: "l1 p = newest (l p) (r p) \<and> r1 p = newest (l p) (r p)"
    and other: "\<forall>x. x \<noteq> p \<longrightarrow> l1 x = l x \<and> r1 x = r x"
  proof -
    show "l1 p = newest (l p) (r p) \<and> r1 p = newest (l p) (r p)"
    proof (cases "decide (l p) (r p) p")
      case None
      then have "l1 = l" "r1 = r"
        using step by simp_all
      with decide_None [OF None] show ?thesis
        by metis
    next
      case (Some op)
      show ?thesis
        by (rule carryOut_decide [where op = op]) (use step Some in simp_all)
    qed
    show "\<forall>x. x \<noteq> p \<longrightarrow> l1 x = l x \<and> r1 x = r x"
    proof (cases "decide (l p) (r p) p")
      case None
      then show ?thesis
        using step by simp
    next
      case (Some op)
      with step decide_path [OF Some] carryOut_other [of "[op]" _ l r l1 r1] show ?thesis
        by auto
    qed
  qed
  have "List.map_filter (\<lambda>x. decide (l x) (r x) x) ps = List.map_filter (\<lambda>x. decide (l1 x) (r1 x) x) ps"
    using Cons.prems(1) other by (intro map_filter_cong) auto
  then have "fold carryOut (List.map_filter (\<lambda>x. decide (l1 x) (r1 x) x) ps) (l1, r1) = (l', r')"
    using Cons.prems(2) step by (cases "decide (l p) (r p) p") (simp_all add: map_filter_simps)
  from Cons.IH [OF _ this] Cons.prems(1) at other show ?case
    by auto
qed

text \<open>
  Carrying out the plan makes the two sides agree: afterwards each side has, for every file either of
  them knew, the newer of the two versions.
\<close>

theorem plan_converges:
  assumes "om_ok l" and "om_ok r"
  shows "fold carryOut (planSync l r) (om_find l, om_find r) =
    ((\<lambda>p. newest (om_find l p) (om_find r p)), (\<lambda>p. newest (om_find l p) (om_find r p)))"
proof -
  let ?ps = "om_keys l @ filter (\<lambda>p. \<not> om_has l p) (om_keys r)"
  obtain l' r' where run: "fold carryOut (planSync l r) (om_find l, om_find r) = (l', r')"
    by (rule prod.exhaust)
  have "distinct ?ps"
    using assms by (auto simp: om_ok_distinct om_keys_def om_has_def om_find_None_iff)
  moreover have "q \<in> set ?ps \<longleftrightarrow> om_find l q \<noteq> None \<or> om_find r q \<noteq> None" for q
    by (auto simp: om_keys_find om_has_def)
  ultimately have "l' q = newest (om_find l q) (om_find r q)" "r' q = newest (om_find l q) (om_find r q)" for q
    using carryOut_plan [of ?ps "om_find l" "om_find r" l' r' q] run
    by (auto simp: planSync_reference [OF assms] planReference_def newest_def split: if_splits)
  with run show ?thesis
    by (simp add: fun_eq_iff)
qed

theorem plan_converges_witness:
  "fst (fold carryOut (planSync [(''a'', 2), (''b'', 1)] [(''b'', 4), (''c'', 0)])
     (om_find [(''a'', 2), (''b'', 1)], om_find [(''b'', 4), (''c'', 0)])) ''b'' = Some 4"
proof -
  have "om_ok [(''a'', 2 :: int), (''b'', 1)]" "om_ok [(''b'', 4 :: int), (''c'', 0)]"
    by code_simp+
  from plan_converges [OF this] show ?thesis
    by (simp add: om_find_def newest_def)
qed

end
