(* ===== verification/Net_Channel.thy ===== *)
theory Net_Channel
  imports Squid_Prelude
begin

text \<open>
  A connected socket: \<open>common/src/networking/TCPSquidChannel\<close>. What the operating system will do is
  part of the state: a script of the results of the coming \<open>recv\<close> calls (bytes in pieces of any
  size, errors, and the end of the stream) and one of the coming \<open>send\<close> calls (how much of a buffer
  is taken, or an error). The theorems quantify over the scripts, so they hold for every way the
  network can cut the stream into pieces. The two locales are the contracts of the loops that read
  an exact number of bytes and that write a whole buffer.
\<close>

section \<open>The channel\<close>

datatype recv_event =
    RecvBytes bytes   \<comment> \<open>bytes that have arrived; none at all is the end of the stream\<close>
  | RecvError         \<comment> \<open>an error or a timeout\<close>

datatype send_event =
    SendUpTo nat      \<comment> \<open>at most so many bytes are taken\<close>
  | SendError

record channel =
  sock_open :: bool
  rx :: "recv_event list"
  tx_script :: "send_event list"
  tx :: bytes

definition readBytes :: "channel \<Rightarrow> nat \<Rightarrow> int \<times> bytes \<times> channel" where
  \<comment> \<open>a script that has run out is a stream that has ended\<close>
  "readBytes c len =
     (if \<not> sock_open c then (-1, [], c)
      else case rx c of
             [] \<Rightarrow> (0, [], c)
           | RecvError # es \<Rightarrow> (-1, [], c\<lparr>rx := es\<rparr>)
           | RecvBytes bs # es \<Rightarrow>
               if bs = [] then (0, [], c)
               else (int (min len (length bs)), take len bs,
                     c\<lparr>rx := (if length bs \<le> len then es else RecvBytes (drop len bs) # es)\<rparr>))"

definition writeBytes :: "channel \<Rightarrow> bytes \<Rightarrow> int \<times> channel" where
  \<comment> \<open>a script that has run out takes everything\<close>
  "writeBytes c buf =
     (if \<not> sock_open c then (-1, c)
      else case tx_script c of
             [] \<Rightarrow> (int (length buf), c\<lparr>tx := tx c @ buf\<rparr>)
           | SendError # es \<Rightarrow> (-1, c\<lparr>tx_script := es\<rparr>)
           | SendUpTo n # es \<Rightarrow>
               (int (min n (length buf)), c\<lparr>tx := tx c @ take n buf, tx_script := es\<rparr>))"

definition closeChannel :: "channel \<Rightarrow> channel" where
  "closeChannel c = c\<lparr>sock_open := False\<rparr>"

section \<open>What can still be read\<close>

fun avail :: "recv_event list \<Rightarrow> bytes" where
  "avail [] = []"
| "avail (RecvError # es) = []"
| "avail (RecvBytes bs # es) = (if bs = [] then [] else bs @ avail es)"

definition rx_avail :: "channel \<Rightarrow> bytes" where
  \<comment> \<open>the bytes that arrive before the first error or the end of the stream\<close>
  "rx_avail c = (if sock_open c then avail (rx c) else [])"

definition tx_side :: "channel \<Rightarrow> bool \<times> send_event list \<times> bytes" where
  "tx_side c = (sock_open c, tx_script c, tx c)"

definition rx_side :: "channel \<Rightarrow> bool \<times> recv_event list" where
  "rx_side c = (sock_open c, rx c)"

lemma readBytes_some:
  assumes "rx_avail c \<noteq> []" and "0 < len"
  shows "\<exists>k c'. readBytes c len = (int k, take k (rx_avail c), c') \<and> 0 < k \<and> k \<le> len \<and>
           k \<le> length (rx_avail c) \<and> rx_avail c' = drop k (rx_avail c) \<and> tx_side c' = tx_side c"
proof -
  from assms(1) obtain bs es where c: "sock_open c" "rx c = RecvBytes bs # es" "bs \<noteq> []"
    by (cases "rx c" rule: avail.cases) (auto simp: rx_avail_def split: if_splits)
  let ?k = "min len (length bs)"
  let ?c = "c\<lparr>rx := (if length bs \<le> len then es else RecvBytes (drop len bs) # es)\<rparr>"
  have "readBytes c len = (int ?k, take len bs, ?c)"
    using c by (simp add: readBytes_def)
  moreover have "take len bs = take ?k (rx_avail c)" "rx_avail ?c = drop ?k (rx_avail c)"
    using c by (auto simp: rx_avail_def min_def)
  moreover have "0 < ?k" "?k \<le> len" "?k \<le> length (rx_avail c)" "tx_side ?c = tx_side c"
    using c assms(2) by (auto simp: rx_avail_def tx_side_def)
  ultimately show ?thesis
    by (intro exI [of _ ?k] exI [of _ ?c]) simp
qed

lemma readBytes_none:
  assumes "rx_avail c = []"
  shows "fst (readBytes c len) \<le> 0" "fst (snd (readBytes c len)) = []"
  using assms by (auto simp: readBytes_def rx_avail_def split: list.splits recv_event.splits if_splits)

lemma readBytes_progress:
  "readBytes c len = (n, bs, c') \<Longrightarrow> 0 < n \<Longrightarrow> bs \<noteq> [] \<and> n = int (length bs) \<and> length bs \<le> len"
  by (auto simp: readBytes_def min_def split: list.splits recv_event.splits if_splits)

lemma readBytes_shrinks: "(n, bs, c') = readBytes c len \<Longrightarrow> 0 < n \<Longrightarrow> 0 < length bs"
  using readBytes_progress [of c len n bs c'] by auto

lemma readBytes_tx: "readBytes c len = (n, bs, c') \<Longrightarrow> tx_side c' = tx_side c"
  by (auto simp: readBytes_def tx_side_def split: list.splits recv_event.splits if_splits)

lemma writeBytes_rx: "writeBytes c buf = (n, c') \<Longrightarrow> rx_side c' = rx_side c"
  by (auto simp: writeBytes_def rx_side_def split: list.splits send_event.splits if_splits)

lemma writeBytes_tx:
  "writeBytes c buf = (n, c') \<Longrightarrow>
   n \<le> int (length buf) \<and> tx c' = tx c @ take (nat n) buf \<and> sock_open c' = sock_open c"
  by (auto simp: writeBytes_def min_def split: list.splits send_event.splits if_splits)

definition tx_ready :: "channel \<Rightarrow> bool" where
  \<comment> \<open>the peer keeps taking bytes, in pieces of any size\<close>
  "tx_ready c \<longleftrightarrow> sock_open c \<and> (\<forall>e\<in>set (tx_script c). \<exists>n\<in>{0<..}. e = SendUpTo n)"

lemma writeBytes_ready:
  "tx_ready c \<Longrightarrow> buf \<noteq> [] \<Longrightarrow> writeBytes c buf = (n, c') \<Longrightarrow> 0 < n \<and> tx_ready c'"
  by (auto simp: writeBytes_def tx_ready_def split: list.splits send_event.splits if_splits)

section \<open>Reading exactly, writing completely\<close>

text \<open>
  A reader returns the next \<open>n\<close> bytes, however the network cut them up, or reports a failure when
  the stream ends first; the rest of its state is untouched when it succeeds.
\<close>

locale exact_reader =
  fixes reader :: "'s \<Rightarrow> nat \<Rightarrow> bool \<times> bytes \<times> 's"
    and available :: "'s \<Rightarrow> bytes"
    and kept :: "'s \<Rightarrow> 'k"
  assumes read_ok: "0 < n \<Longrightarrow> n \<le> length (available s) \<Longrightarrow>
      \<exists>s'. reader s n = (True, take n (available s), s') \<and> available s' = drop n (available s) \<and> kept s' = kept s"
    and read_short: "length (available s) < n \<Longrightarrow> \<exists>bs s'. reader s n = (False, bs, s')"
begin

lemma read_app:
  assumes "available s = bs @ rest" and "bs \<noteq> []"
  shows "\<exists>s'. reader s (length bs) = (True, bs, s') \<and> available s' = rest \<and> kept s' = kept s"
  using read_ok [of "length bs" s] assms by simp

lemma read_app_n:
  assumes "available s = bs @ rest" and "n = length bs" and "bs \<noteq> []"
  shows "\<exists>s'. reader s n = (True, bs, s') \<and> available s' = rest \<and> kept s' = kept s"
  using read_app [OF assms(1,3)] assms(2) by simp

text \<open>Only the available bytes decide: states with the same ones cannot be told apart.\<close>

lemma read_determined:
  assumes "available s = available t" and "0 < n"
  shows "fst (reader s n) = fst (reader t n) \<and>
    (fst (reader s n) \<longrightarrow> fst (snd (reader s n)) = fst (snd (reader t n)))"
proof (cases "n \<le> length (available s)")
  case True
  with read_ok [OF assms(2), of s] read_ok [OF assms(2), of t] assms(1) show ?thesis
    by auto
next
  case False
  with read_short [of s n] read_short [of t n] assms(1) show ?thesis
    by (auto simp: not_le)
qed

lemma read_success:
  assumes "reader s n = (True, bs, s')" and "0 < n"
  shows "available s = bs @ available s' \<and> length bs = n \<and> kept s' = kept s"
proof (cases "n \<le> length (available s)")
  case True
  with read_ok [OF assms(2), of s] assms(1) show ?thesis
    by auto
next
  case False
  with read_short [of s n] assms(1) show ?thesis
    by auto
qed

end

text \<open>
  A writer appends the whole buffer to what was sent or, when it fails, a prefix of it; it cannot
  fail while the peer keeps taking bytes.
\<close>

locale complete_writer =
  fixes writer :: "'s \<Rightarrow> bytes \<Rightarrow> bool \<times> 's"
    and sent :: "'s \<Rightarrow> bytes"
    and ready :: "'s \<Rightarrow> bool"
    and kept :: "'s \<Rightarrow> 'k"
  assumes write_prefix: "writer s bs = (ok, s') \<Longrightarrow> \<exists>k. sent s' = sent s @ take k bs \<and> kept s' = kept s"
    and write_ok: "bs \<noteq> [] \<Longrightarrow> writer s bs = (True, s') \<Longrightarrow> sent s' = sent s @ bs"
    and write_ready: "bs \<noteq> [] \<Longrightarrow> ready s \<Longrightarrow> \<exists>s'. writer s bs = (True, s') \<and> ready s'"
begin

lemma write_all:
  assumes "ready s" and "bs \<noteq> []"
  shows "\<exists>s'. writer s bs = (True, s') \<and> sent s' = sent s @ bs \<and> ready s' \<and> kept s' = kept s"
  using write_ready [OF assms(2,1)] write_ok [OF assms(2)] write_prefix by blast

end

end
