(* ===== verification/Text_IO.thy ===== *)
theory Text_IO
  imports Squid_Prelude
begin

text \<open>
  The text side of the C++ standard library, as far as the sources use it: \<open>std::getline\<close>,
  formatted extraction of words and integers with \<open>operator>>\<close>, \<open>std::stoi\<close>, \<open>std::to_string\<close>,
  \<open>string::find\<close> and \<open>string::rfind\<close>. An extraction returns the value and the rest of the input,
  or \<open>None\<close> where the stream would set its fail bit (or \<open>stoi\<close> would throw).
\<close>

section \<open>Character classes\<close>

definition is_space :: "char \<Rightarrow> bool" where
  "is_space c \<longleftrightarrow> c = CHR '' '' \<or> (9 \<le> (of_char c :: nat) \<and> (of_char c :: nat) \<le> 13)"

definition is_digit :: "char \<Rightarrow> bool" where
  "is_digit c \<longleftrightarrow> 48 \<le> (of_char c :: nat) \<and> (of_char c :: nat) \<le> 57"

definition digit_val :: "char \<Rightarrow> nat" where
  "digit_val c = of_char c - 48"

definition digit_char :: "nat \<Rightarrow> char" where
  "digit_char d = char_of (48 + d)"

lemma of_char_digit_char: "d < 10 \<Longrightarrow> (of_char (digit_char d) :: nat) = 48 + d"
  by (simp add: digit_char_def)

lemma is_digit_digit_char [simp]: "d < 10 \<Longrightarrow> is_digit (digit_char d)"
  by (simp add: is_digit_def of_char_digit_char)

lemma digit_val_digit_char [simp]: "d < 10 \<Longrightarrow> digit_val (digit_char d) = d"
  by (simp add: digit_val_def of_char_digit_char)

lemma digit_not_space: "is_digit c \<Longrightarrow> \<not> is_space c"
  by (auto simp: is_digit_def is_space_def)

lemma minus_not_space [simp]: "\<not> is_space (CHR ''-'')"
  by (simp add: is_space_def)

lemma minus_not_digit [simp]: "\<not> is_digit (CHR ''-'')"
  by (simp add: is_digit_def)

lemma space_not_digit: "is_space c \<Longrightarrow> \<not> is_digit c"
  by (auto simp: is_digit_def is_space_def)

section \<open>Printing integers\<close>

fun show_nat :: "nat \<Rightarrow> string" where
  "show_nat n = (if n < 10 then [digit_char n] else show_nat (n div 10) @ [digit_char (n mod 10)])"

declare show_nat.simps [simp del]

definition show_int :: "int \<Rightarrow> string" where
  "show_int v = (if v < 0 then CHR ''-'' # show_nat (nat (- v)) else show_nat (nat v))"

definition digits_val :: "string \<Rightarrow> nat" where
  "digits_val ds = fold (\<lambda>c n. 10 * n + digit_val c) ds 0"

lemma digits_val_snoc [simp]: "digits_val (ds @ [c]) = 10 * digits_val ds + digit_val c"
  by (simp add: digits_val_def)

lemma show_nat_props: "digits_val (show_nat n) = n \<and> (\<forall>c\<in>set (show_nat n). is_digit c) \<and> show_nat n \<noteq> []"
proof (induction n rule: show_nat.induct)
  case (1 n)
  show ?case
  proof (cases "n < 10")
    case True
    then show ?thesis
      by (simp add: show_nat.simps [of n] digits_val_def)
  next
    case False
    with 1 show ?thesis
      by (simp add: show_nat.simps [of n])
  qed
qed

lemma digits_val_show_nat [simp]: "digits_val (show_nat n) = n"
  and show_nat_digits: "c \<in> set (show_nat n) \<Longrightarrow> is_digit c"
  and show_nat_nonempty [simp]: "show_nat n \<noteq> []"
  using show_nat_props [of n] by auto

lemma show_int_nonempty [simp]: "show_int v \<noteq> []"
  by (simp add: show_int_def)

lemma show_int_not_space: "c \<in> set (show_int v) \<Longrightarrow> \<not> is_space c"
  by (auto simp: show_int_def digit_not_space dest: show_nat_digits split: if_splits)

section \<open>Formatted extraction\<close>

definition skip_ws :: "string \<Rightarrow> string" where
  "skip_ws s = dropWhile is_space s"

definition read_word :: "string \<Rightarrow> (string \<times> string) option" where
  \<comment> \<open>\<open>stream >> std::string\<close>\<close>
  "read_word s =
     (let s' = skip_ws s; w = takeWhile (\<lambda>c. \<not> is_space c) s'
      in if w = [] then None else Some (w, dropWhile (\<lambda>c. \<not> is_space c) s'))"

definition read_sign :: "string \<Rightarrow> bool \<times> string" where
  "read_sign s =
     (case s of c # r \<Rightarrow> if c = CHR ''-'' then (True, r) else if c = CHR ''+'' then (False, r) else (False, s)
      | [] \<Rightarrow> (False, s))"

definition read_int :: "string \<Rightarrow> (int \<times> string) option" where
  \<comment> \<open>\<open>stream >> int\<close>, and \<open>std::stoi\<close>: fails on no digits and on a value out of range\<close>
  "read_int s =
     (let (neg, s') = read_sign (skip_ws s);
          ds = takeWhile is_digit s';
          v = (if neg then - int (digits_val ds) else int (digits_val ds))
      in if ds = [] \<or> \<not> int_range v then None else Some (v, dropWhile is_digit s'))"

definition stoi :: "string \<Rightarrow> int option" where
  "stoi s = map_option fst (read_int s)"

lemma skip_ws_word [simp]: "w \<noteq> [] \<Longrightarrow> \<not> is_space (hd w) \<Longrightarrow> skip_ws (w @ s) = w @ s"
  by (cases w) (simp_all add: skip_ws_def)

lemma skip_ws_space [simp]: "is_space c \<Longrightarrow> skip_ws (c # s) = skip_ws s"
  by (simp add: skip_ws_def)

lemma space_is_space [simp]: "is_space (CHR '' '')"
  by (simp add: is_space_def)

lemma hd_in_set_app: "w \<noteq> [] \<Longrightarrow> (\<forall>c\<in>set w. P c) \<Longrightarrow> P (hd w)"
  by simp

definition starts_with :: "(char \<Rightarrow> bool) \<Rightarrow> string \<Rightarrow> bool" where
  "starts_with P s = (case s of [] \<Rightarrow> False | c # _ \<Rightarrow> P c)"

lemma starts_with_simps [simp]: "\<not> starts_with P []" "starts_with P (c # s) \<longleftrightarrow> P c"
  by (simp_all add: starts_with_def)

lemma takeWhile_app: "\<forall>c\<in>set w. P c \<Longrightarrow> \<not> starts_with P s \<Longrightarrow> takeWhile P (w @ s) = w"
  by (induction w) (auto simp: starts_with_def split: list.splits)

lemma dropWhile_app: "\<forall>c\<in>set w. P c \<Longrightarrow> \<not> starts_with P s \<Longrightarrow> dropWhile P (w @ s) = s"
  by (induction w) (auto simp: starts_with_def split: list.splits)

text \<open>A word is read back when it is nonempty and free of white space.\<close>

lemma read_word_app:
  assumes "w \<noteq> []" and "\<forall>c\<in>set w. \<not> is_space c" and "s = [] \<or> is_space (hd s)"
  shows "read_word (w @ s) = Some (w, s)"
proof -
  have "\<not> starts_with (\<lambda>c. \<not> is_space c) s"
    using assms(3) by (cases s) auto
  then have "takeWhile (\<lambda>c. \<not> is_space c) (w @ s) = w" "dropWhile (\<lambda>c. \<not> is_space c) (w @ s) = s"
    using assms(2) by (blast intro: takeWhile_app dropWhile_app)+
  moreover have "skip_ws (w @ s) = w @ s"
    using assms(1,2) by simp
  ultimately show ?thesis
    using assms(1) by (simp only: read_word_def Let_def if_False)
qed

lemma read_word_Cons_space: "is_space c \<Longrightarrow> read_word (c # s) = read_word s"
  by (simp add: read_word_def)

lemma read_int_Cons_space: "is_space c \<Longrightarrow> read_int (c # s) = read_int s"
  by (simp add: read_int_def)

lemma read_sign_digit: "w \<noteq> [] \<Longrightarrow> is_digit (hd w) \<Longrightarrow> read_sign (w @ s) = (False, w @ s)"
  by (cases w) (auto simp: read_sign_def is_digit_def)

text \<open>A printed integer is read back, whatever follows it, provided no digit does.\<close>

lemma read_int_show_int:
  assumes "int_range v" and "\<not> starts_with is_digit s"
  shows "read_int (show_int v @ s) = Some (v, s)"
proof (cases "v < 0")
  case True
  then have eq: "read_sign (skip_ws (show_int v @ s)) = (True, show_nat (nat (- v)) @ s)"
    by (simp add: show_int_def skip_ws_def read_sign_def)
  have t: "takeWhile is_digit (show_nat (nat (- v)) @ s) = show_nat (nat (- v))"
    and d: "dropWhile is_digit (show_nat (nat (- v)) @ s) = s"
    using assms(2) by (auto intro!: takeWhile_app dropWhile_app dest: show_nat_digits)
  show ?thesis
    using True assms(1) by (simp add: read_int_def eq t d)
next
  case False
  have hd: "is_digit (hd (show_nat (nat v)))"
    using show_nat_digits [OF hd_in_set, OF show_nat_nonempty] .
  have eq: "read_sign (skip_ws (show_int v @ s)) = (False, show_nat (nat v) @ s)"
    using False hd by (simp add: show_int_def read_sign_digit digit_not_space)
  have t: "takeWhile is_digit (show_nat (nat v) @ s) = show_nat (nat v)"
    and d: "dropWhile is_digit (show_nat (nat v) @ s) = s"
    using assms(2) by (auto intro!: takeWhile_app dropWhile_app dest: show_nat_digits)
  show ?thesis
    using False assms(1) by (simp add: read_int_def eq t d)
qed

lemma stoi_show_int [simp]: "int_range v \<Longrightarrow> stoi (show_int v) = Some v"
  using read_int_show_int [of v "[]"] by (simp add: stoi_def)

section \<open>Lines and separators\<close>

fun getlines :: "string \<Rightarrow> string list" where
  \<comment> \<open>the lines a \<open>while (std::getline(in, line))\<close> loop sees\<close>
  "getlines [] = []"
| "getlines (c # s) =
     (if c = CHR 0x0A then [] # getlines s
      else (case getlines s of
              [] \<Rightarrow> [[c]]
            | l # ls \<Rightarrow> (c # l) # ls))"

definition endl :: string where
  "endl = [CHR 0x0A]"

definition unlines :: "string list \<Rightarrow> string" where
  \<comment> \<open>writing each line followed by a newline\<close>
  "unlines ls = concat (map (\<lambda>l. l @ endl) ls)"

fun split_on :: "char \<Rightarrow> string \<Rightarrow> string list" where
  \<comment> \<open>the pieces between separators, as a \<open>getline(in, piece, sep)\<close> loop or a scan for \<open>sep\<close> sees
     them (a trailing empty piece is kept here; the callers drop empty pieces)\<close>
  "split_on sep [] = [[]]"
| "split_on sep (c # s) =
     (if c = sep then [] # split_on sep s
      else (case split_on sep s of [] \<Rightarrow> [[c]] | p # ps \<Rightarrow> (c # p) # ps))"

fun join_with :: "char \<Rightarrow> string list \<Rightarrow> string" where
  "join_with sep [] = []"
| "join_with sep [p] = p"
| "join_with sep (p # ps) = p @ sep # join_with sep ps"

definition find_char :: "char \<Rightarrow> string \<Rightarrow> nat option" where
  \<comment> \<open>\<open>string::find\<close>\<close>
  "find_char c s = (if c \<in> set s then Some (length (takeWhile (\<lambda>x. x \<noteq> c) s)) else None)"

definition rfind_char :: "char \<Rightarrow> string \<Rightarrow> nat option" where
  \<comment> \<open>\<open>string::rfind\<close>\<close>
  "rfind_char c s =
     (if c \<in> set s then Some (length s - 1 - length (takeWhile (\<lambda>x. x \<noteq> c) (rev s))) else None)"

lemma getlines_line: "CHR 0x0A \<notin> set l \<Longrightarrow> getlines (l @ CHR 0x0A # s) = l # getlines s"
proof (induction l)
  case (Cons c l)
  then show ?case
    by (cases l) auto
qed simp

text \<open>What is written line by line is read back line by line.\<close>

lemma getlines_unlines: "\<forall>l\<in>set ls. CHR 0x0A \<notin> set l \<Longrightarrow> getlines (unlines ls) = ls"
  by (induction ls) (simp_all add: unlines_def endl_def getlines_line)

lemma split_on_nonempty [simp]: "split_on sep s \<noteq> []"
  by (cases s) (auto split: list.splits)

lemma split_on_piece: "sep \<notin> set p \<Longrightarrow> split_on sep (p @ sep # s) = p # split_on sep s"
  by (induction p) auto

lemma split_on_single: "sep \<notin> set p \<Longrightarrow> split_on sep p = [p]"
  by (induction p) auto

lemma split_on_join:
  "ps \<noteq> [] \<Longrightarrow> \<forall>p\<in>set ps. sep \<notin> set p \<Longrightarrow> split_on sep (join_with sep ps) = ps"
  by (induction sep ps rule: join_with.induct) (simp_all add: split_on_piece split_on_single)

lemma set_join_with: "set (join_with sep ps) \<subseteq> insert sep (\<Union>p\<in>set ps. set p)"
  by (induction sep ps rule: join_with.induct) auto

text \<open>The last separator splits a string into the part before it and a part free of it.\<close>

lemma rfind_char_app: "c \<notin> set t \<Longrightarrow> rfind_char c (s @ c # t) = Some (length s)"
  using takeWhile_app [of "rev t" "\<lambda>x. x \<noteq> c" "c # rev s"] by (force simp: rfind_char_def)

lemma split_on_app: "split_on sep (s @ sep # t) = split_on sep s @ split_on sep t"
  by (induction s) (auto split: list.splits)

lemma join_with_Cons: "ps \<noteq> [] \<Longrightarrow> join_with sep (p # ps) = p @ sep # join_with sep ps"
  by (cases ps) simp_all

lemma join_split_on [simp]: "join_with sep (split_on sep s) = s"
proof (induction s)
  case (Cons c s)
  show ?case
  proof (cases "split_on sep s")
    case Nil
    then show ?thesis by simp
  next
    case (Cons p ps)
    with \<open>join_with sep (split_on sep s) = s\<close> show ?thesis
      by (cases ps) (auto simp: join_with_Cons)
  qed
qed simp

lemma getlines_no_newline: "l \<in> set (getlines s) \<Longrightarrow> CHR 0x0A \<notin> set l"
proof (induction s arbitrary: l)
  case (Cons c s)
  then show ?case
    by (auto split: if_splits list.splits)
qed simp

text \<open>A name that survives white-space separated text: nonempty and free of white space.\<close>

definition plain_name :: "string \<Rightarrow> bool" where
  "plain_name s \<longleftrightarrow> s \<noteq> [] \<and> (\<forall>c\<in>set s. \<not> is_space c)"

lemma is_space_newline: "is_space (CHR 0x0A)"
  by (simp add: is_space_def)

lemma plain_no_newline: "plain_name s \<Longrightarrow> CHR 0x0A \<notin> set s"
  unfolding plain_name_def using is_space_newline by blast

lemma show_int_no_newline: "CHR 0x0A \<notin> set (show_int v)"
  using show_int_not_space [of "CHR 0x0A" v] is_space_newline by blast

end
