(* ===== verification/File_Manager.thy ===== *)
theory File_Manager
  imports Ordered_Map Text_IO
begin

text \<open>
  The local storage of a node: \<open>common/src/filesystem/filemanager\<close>. The disk is the part of the file
  system the sources touch, a map from resolved paths to contents, with the storage root and the
  paths the operating system refuses to open. The version file \<open>.squid/fileVersions.txt\<close> is one of
  its files, read and rewritten as text exactly as the C++ code does. The mutex of the class makes
  every operation atomic, so each operation is one function from a disk to a disk.
\<close>

section \<open>The disk and paths\<close>

record disk =
  root :: string
  files :: "(string, bytes) omap"
  unopenable :: "string list"

definition disk_ok :: "disk \<Rightarrow> bool" where
  "disk_ok d \<longleftrightarrow> om_ok (files d)"

definition is_absolute :: "string \<Rightarrow> bool" where
  "is_absolute p \<longleftrightarrow> starts_with (\<lambda>c. c = CHR ''/'') p"

text \<open>
  \<open>fs::path::lexically_normal\<close> on POSIX paths: empty and dot components disappear, a dot-dot removes
  the component before it (or itself right below the root), and a path that ended in a separator, a
  dot or a removed dot-dot keeps a trailing separator.
\<close>

fun norm_push :: "bool \<Rightarrow> string list \<Rightarrow> string \<Rightarrow> string list" where
  "norm_push isabs st c =
     (if c = '''' \<or> c = ''.'' then st
      else if c = ''..'' then
        (if st \<noteq> [] \<and> last st \<noteq> ''..'' then butlast st
         else if isabs then st
         else st @ [''..''])
      else st @ [c])"

definition lexically_normal :: "string \<Rightarrow> string" where
  "lexically_normal p =
     (if p = [] then []
      else let cs = split_on (CHR ''/'') p;
               st = foldl (norm_push (is_absolute p)) [] cs;
               pre = (if is_absolute p then ''/'' else '''');
               post = (if last cs \<in> {'''', ''.'', ''..''} \<and> st \<noteq> [] \<and> last st \<noteq> ''..'' then ''/'' else '''')
           in if st = [] then (if is_absolute p then ''/'' else ''.'')
              else pre @ join_with (CHR ''/'') st @ post)"

definition path_append :: "string \<Rightarrow> string \<Rightarrow> string" where
  \<comment> \<open>\<open>a / b\<close> for a relative \<open>b\<close>\<close>
  "path_append a b = (if a = [] \<or> last a = CHR ''/'' then a @ b else a @ ''/'' @ b)"

definition resolvePath :: "string \<Rightarrow> string \<Rightarrow> string" where
  "resolvePath rt path =
     (if is_absolute path then lexically_normal path else lexically_normal (path_append rt path))"

definition versionFilePath :: "string \<Rightarrow> string" where
  "versionFilePath rt = path_append (path_append rt ''.squid'') ''fileVersions.txt''"

definition readDisk :: "disk \<Rightarrow> string \<Rightarrow> bytes option" where
  "readDisk d p = om_find (files d) p"

definition writeDisk :: "disk \<Rightarrow> string \<Rightarrow> bytes \<Rightarrow> disk" where
  \<comment> \<open>\<open>std::ofstream\<close>: a path that cannot be opened is left alone\<close>
  "writeDisk d p content =
     (if p \<in> set (unopenable d) then d else d\<lparr>files := om_put p content (files d)\<rparr>)"

definition removeDisk :: "disk \<Rightarrow> string \<Rightarrow> bool \<times> disk" where
  \<comment> \<open>\<open>fs::remove\<close>: whether there was something to remove\<close>
  "removeDisk d p = (om_has (files d) p, d\<lparr>files := om_erase p (files d)\<rparr>)"

section \<open>The version file\<close>

definition versionLines :: "disk \<Rightarrow> string list" where
  "versionLines d =
     (case readDisk d (versionFilePath (root d)) of
        None \<Rightarrow> [] | Some content \<Rightarrow> getlines (string_of_bytes content))"

definition writeVersionLines :: "disk \<Rightarrow> string list \<Rightarrow> disk" where
  "writeVersionLines d ls = writeDisk d (versionFilePath (root d)) (bytes_of_string (unlines ls))"

definition parseVersionLine :: "string \<Rightarrow> (string \<times> int) option" where
  \<comment> \<open>\<open>iss >> filePath >> version\<close>\<close>
  "parseVersionLine line =
     (case read_word line of None \<Rightarrow> None
      | Some (filePath, s) \<Rightarrow> (case read_int s of None \<Rightarrow> None | Some (v, _) \<Rightarrow> Some (filePath, v)))"

fun findVersion :: "string list \<Rightarrow> string \<Rightarrow> int" where
  "findVersion [] path = -1"
| "findVersion (line # ls) path =
     (case parseVersionLine line of
        Some (filePath, version) \<Rightarrow> if filePath = path then version else findVersion ls path
      | None \<Rightarrow> findVersion ls path)"

definition getFileVersion :: "disk \<Rightarrow> string \<Rightarrow> int" where
  "getFileVersion d path = findVersion (versionLines d) path"

fun replaceVersion :: "string list \<Rightarrow> string \<Rightarrow> int \<Rightarrow> bool \<times> string list" where
  "replaceVersion [] path version = (False, [])"
| "replaceVersion (line # ls) path version =
     (let (found, out) = replaceVersion ls path version
      in case parseVersionLine line of
           Some (filePath, _) \<Rightarrow>
             if filePath = path then (True, (filePath @ '' '' @ show_int version) # out)
             else (found, line # out)
         | None \<Rightarrow> (found, out))"

definition setFileVersion :: "disk \<Rightarrow> string \<Rightarrow> int \<Rightarrow> disk" where
  "setFileVersion d path version =
     (let (found, ls) = replaceVersion (versionLines d) path version
      in writeVersionLines d (if found then ls else ls @ [path @ '' '' @ show_int version]))"

fun dropVersion :: "string list \<Rightarrow> string \<Rightarrow> string list" where
  "dropVersion [] path = []"
| "dropVersion (line # ls) path =
     (case parseVersionLine line of
        Some (filePath, _) \<Rightarrow> if filePath \<noteq> path then line # dropVersion ls path else dropVersion ls path
      | None \<Rightarrow> dropVersion ls path)"

definition deleteFile :: "disk \<Rightarrow> string \<Rightarrow> bool \<times> disk" where
  "deleteFile d path = removeDisk d (resolvePath (root d) path)"

definition deleteFileAndVersion :: "disk \<Rightarrow> string \<Rightarrow> bool \<times> disk" where
  "deleteFileAndVersion d path =
     (let (ok, d') = deleteFile d path
      in if ok then (True, writeVersionLines d' (dropVersion (versionLines d') path))
         else (False, d'))"

section \<open>Listing the storage root\<close>

definition isRuntimeFile :: "string \<Rightarrow> bool" where
  \<comment> \<open>the name of the C++ function; it accepts every name but the metadata directory\<close>
  "isRuntimeFile name \<longleftrightarrow> name \<noteq> ''.squid''"

definition childName :: "string \<Rightarrow> string \<Rightarrow> string option" where
  \<comment> \<open>the name of a regular file directly inside the directory \<open>dir\<close>\<close>
  "childName dir p =
     (let pre = path_append dir ''''; n = length pre; name = drop n p
      in if take n p = pre \<and> name \<noteq> [] \<and> CHR ''/'' \<notin> set name then Some name else None)"

definition getFiles :: "disk \<Rightarrow> string list" where
  \<comment> \<open>\<open>getFiles(storageRoot())\<close>; \<open>relativePath\<close> of a direct child of the root is its name\<close>
  "getFiles d = filter isRuntimeFile (List.map_filter (\<lambda>(p, _). childName (root d) p) (files d))"

definition savedVersions :: "string list \<Rightarrow> (string, int) omap" where
  "savedVersions ls =
     fold (\<lambda>line m. case parseVersionLine line of Some (p, v) \<Rightarrow> om_put p v m | None \<Rightarrow> m) ls []"

definition getFileVersionMapDisk :: "disk \<Rightarrow> (string, int) omap" where
  "getFileVersionMapDisk d =
     (let saved = savedVersions (versionLines d)
      in fold (\<lambda>file m. om_put file (case om_find saved file of Some v \<Rightarrow> v | None \<Rightarrow> 0) m)
              (getFiles d) [])"

section \<open>Creating and updating files\<close>

definition createFile :: "disk \<Rightarrow> string \<Rightarrow> bool \<times> disk" where
  "createFile d path = (True, writeDisk d (resolvePath (root d) path) [])"

definition createFileVersion :: "disk \<Rightarrow> string \<Rightarrow> int \<Rightarrow> bool \<times> disk" where
  "createFileVersion d path version =
     (let (ok, d') = createFile d path in if ok then (True, setFileVersion d' path version) else (False, d'))"

definition updateFile :: "disk \<Rightarrow> string \<Rightarrow> string \<Rightarrow> bool \<times> disk" where
  "updateFile d path content =
     (let p = resolvePath (root d) path
      in if p \<in> set (unopenable d) then (False, d) else (True, writeDisk d p (bytes_of_string content)))"

definition updateFileVersion :: "disk \<Rightarrow> string \<Rightarrow> string \<Rightarrow> int \<Rightarrow> bool \<times> disk" where
  "updateFileVersion d path content version =
     (let (ok, d') = updateFile d path content
      in if ok then (True, setFileVersion d' path version) else (False, d'))"

definition updateFileAndVersion :: "disk \<Rightarrow> string \<Rightarrow> string \<Rightarrow> bool \<times> disk" where
  "updateFileAndVersion d path content =
     (let version = getFileVersion d path
      in if version = -1 then (False, d) else updateFileVersion d path content (version + 1))"

definition createFileVersionFile :: "disk \<Rightarrow> disk" where
  "createFileVersionFile d =
     (case readDisk d (versionFilePath (root d)) of
        None \<Rightarrow> writeDisk d (versionFilePath (root d)) [] | Some _ \<Rightarrow> d)"

definition newFileManager :: "string \<Rightarrow> disk" where
  \<comment> \<open>the constructor on a storage root that holds no file yet\<close>
  "newFileManager rt = createFileVersionFile \<lparr>root = rt, files = [], unopenable = []\<rparr>"

definition formatFileList :: "string list \<Rightarrow> string option" where
  \<comment> \<open>\<open>pop_back\<close> on an empty string is undefined: no value for the empty list\<close>
  "formatFileList fls =
     (let s = concat (map (\<lambda>f. f @ '';'') fls) in if s = [] then None else Some (butlast s))"

section \<open>The contract of a version store\<close>

text \<open>
  What the protocol, the lock manager and the replication manager rely on when they record a
  version: a later read returns it and reads of other paths are unaffected. \<open>name_ok\<close> are the paths
  that can be stored.
\<close>

locale version_store =
  fixes vget :: "'d \<Rightarrow> string \<Rightarrow> int"
    and vset :: "'d \<Rightarrow> string \<Rightarrow> int \<Rightarrow> 'd"
    and store_ok :: "'d \<Rightarrow> bool"
    and name_ok :: "string \<Rightarrow> bool"
    and value_ok :: "int \<Rightarrow> bool"
  assumes get_set: "store_ok d \<Longrightarrow> name_ok p \<Longrightarrow> value_ok v \<Longrightarrow>
      vget (vset d p v) q = (if q = p then v else vget d q)"
    and ok_set: "store_ok d \<Longrightarrow> store_ok (vset d p v)"
begin

text \<open>
  The loop that raises the stored version of each reported file: afterwards every path has the
  larger of its old version and the reported one.
\<close>

lemma ok_raise_all:
  "store_ok d \<Longrightarrow> store_ok (fold (\<lambda>(p, v) d. if vget d p < v then vset d p v else d) kvs d)"
  by (induction kvs arbitrary: d) (auto simp: ok_set)

lemma get_raise_all:
  assumes "store_ok d" and "\<forall>(p, v)\<in>set kvs. name_ok p \<and> value_ok v" and "distinct (map fst kvs)"
  shows "vget (fold (\<lambda>(p, v) d. if vget d p < v then vset d p v else d) kvs d) q =
           (case map_of kvs q of None \<Rightarrow> vget d q | Some v \<Rightarrow> max (vget d q) v)"
  using assms
proof (induction kvs arbitrary: d)
  case (Cons e kvs)
  obtain p v where e: "e = (p, v)"
    by (cases e)
  let ?d = "if vget d p < v then vset d p v else d"
  have "store_ok ?d"
    using Cons.prems(1) by (simp add: ok_set)
  then have "vget (fold (\<lambda>(p, v) d. if vget d p < v then vset d p v else d) kvs ?d) q =
      (case map_of kvs q of None \<Rightarrow> vget ?d q | Some v \<Rightarrow> max (vget ?d q) v)"
    using Cons.prems by (intro Cons.IH) (auto simp: e)
  moreover have "vget ?d q = (if q = p then max (vget d q) v else vget d q)"
    using Cons.prems(1,2) by (auto simp: e get_set)
  moreover have "map_of kvs p = None"
    using Cons.prems(3) by (simp add: e map_of_eq_None_iff)
  ultimately show ?case
    by (auto simp: e split: option.splits)
qed simp

end

section \<open>Reading the version file back\<close>

definition version_disk_ok :: "disk \<Rightarrow> bool" where
  \<comment> \<open>the version file can be written\<close>
  "version_disk_ok d \<longleftrightarrow> versionFilePath (root d) \<notin> set (unopenable d)"

lemma writeDisk_simps [simp]:
  "root (writeDisk d p c) = root d" "unopenable (writeDisk d p c) = unopenable d"
  by (simp_all add: writeDisk_def)

lemma readDisk_writeDisk:
  "readDisk (writeDisk d p c) q = (if q = p \<and> p \<notin> set (unopenable d) then Some c else readDisk d q)"
  by (auto simp: readDisk_def writeDisk_def)

lemma version_disk_ok_writeVersionLines [simp]:
  "version_disk_ok (writeVersionLines d ls) = version_disk_ok d"
  by (simp add: version_disk_ok_def writeVersionLines_def)

lemma versionLines_write:
  "version_disk_ok d \<Longrightarrow> \<forall>l\<in>set ls. CHR 0x0A \<notin> set l \<Longrightarrow> versionLines (writeVersionLines d ls) = ls"
  by (simp add: versionLines_def writeVersionLines_def readDisk_writeDisk version_disk_ok_def getlines_unlines)

lemma versionLines_no_newline: "l \<in> set (versionLines d) \<Longrightarrow> CHR 0x0A \<notin> set l"
  by (auto simp: versionLines_def dest: getlines_no_newline split: option.splits)

lemma parseVersionLine_written:
  assumes "plain_name p" and "int_range v"
  shows "parseVersionLine (p @ CHR '' '' # show_int v) = Some (p, v)"
proof -
  have "read_word (p @ '' '' @ show_int v) = Some (p, '' '' @ show_int v)"
    using assms(1) by (intro read_word_app) (auto simp: plain_name_def)
  moreover have "read_int ('' '' @ show_int v) = Some (v, [])"
    using read_int_show_int [OF assms(2), of "[]"] by (simp add: read_int_Cons_space)
  ultimately show ?thesis
    by (simp add: parseVersionLine_def)
qed

lemma findVersion_replace_other:
  "plain_name path \<Longrightarrow> int_range v \<Longrightarrow> q \<noteq> path \<Longrightarrow>
   findVersion (snd (replaceVersion ls path v)) q = findVersion ls q"
  by (induction ls) (auto simp: Let_def parseVersionLine_written split: prod.splits option.splits)

lemma findVersion_replace_same:
  "plain_name path \<Longrightarrow> int_range v \<Longrightarrow>
   findVersion (snd (replaceVersion ls path v)) path = (if fst (replaceVersion ls path v) then v else -1)"
  by (induction ls) (auto simp: Let_def parseVersionLine_written split: prod.splits option.splits)

lemma findVersion_snoc:
  "plain_name path \<Longrightarrow> int_range v \<Longrightarrow>
   findVersion (ls @ [path @ '' '' @ show_int v]) q =
     (if q = path \<and> path \<notin> fst ` set (List.map_filter parseVersionLine ls) then v else findVersion ls q)"
  by (induction ls) (auto simp: parseVersionLine_written List.map_filter_simps split: option.splits)

lemma replaceVersion_kept:
  "plain_name path \<Longrightarrow> int_range v \<Longrightarrow> \<not> fst (replaceVersion ls path v) \<Longrightarrow>
   path \<notin> fst ` set (List.map_filter parseVersionLine (snd (replaceVersion ls path v)))"
  by (induction ls) (auto simp: Let_def List.map_filter_simps split: prod.splits option.splits if_splits)

lemma replaceVersion_no_newline:
  "plain_name path \<Longrightarrow> \<forall>l\<in>set ls. CHR 0x0A \<notin> set l \<Longrightarrow> l \<in> set (snd (replaceVersion ls path v)) \<Longrightarrow>
   CHR 0x0A \<notin> set l"
  by (induction ls)
     (auto simp: Let_def plain_no_newline show_int_no_newline split: prod.splits option.splits if_splits)

lemma getFileVersion_setFileVersion:
  assumes "version_disk_ok d" and "plain_name path" and "int_range v"
  shows "getFileVersion (setFileVersion d path v) q = (if q = path then v else getFileVersion d q)"
proof -
  obtain found out where r: "replaceVersion (versionLines d) path v = (found, out)"
    by fastforce
  let ?ls = "if found then out else out @ [path @ '' '' @ show_int v]"
  have "\<forall>l\<in>set ?ls. CHR 0x0A \<notin> set l"
    using replaceVersion_no_newline [OF assms(2), of "versionLines d" _ v] versionLines_no_newline [of _ d]
    by (auto simp: r plain_no_newline [OF assms(2)] show_int_no_newline)
  then have "versionLines (setFileVersion d path v) = ?ls"
    using assms(1) by (simp add: setFileVersion_def r versionLines_write)
  moreover have "findVersion ?ls q = (if q = path then v else findVersion (versionLines d) q)"
    using findVersion_replace_other [OF assms(2,3), of q "versionLines d"]
      findVersion_replace_same [OF assms(2,3), of "versionLines d"]
      replaceVersion_kept [OF assms(2,3), of "versionLines d"] findVersion_snoc [OF assms(2,3), of out q]
    by (auto simp: r)
  ultimately show ?thesis
    by (simp add: getFileVersion_def)
qed

lemma setFileVersion_simps [simp]:
  "root (setFileVersion d p v) = root d" "unopenable (setFileVersion d p v) = unopenable d"
  by (simp_all add: setFileVersion_def writeVersionLines_def split: prod.splits)

lemma version_disk_ok_set [simp]: "version_disk_ok (setFileVersion d p v) = version_disk_ok d"
  by (simp add: version_disk_ok_def)

lemma readDisk_setFileVersion:
  "q \<noteq> versionFilePath (root d) \<Longrightarrow> readDisk (setFileVersion d p v) q = readDisk d q"
  by (simp add: setFileVersion_def writeVersionLines_def readDisk_writeDisk split: prod.splits)

interpretation disk_versions: version_store getFileVersion setFileVersion version_disk_ok plain_name int_range
  by unfold_locales (simp_all add: getFileVersion_setFileVersion)

section \<open>Resolving paths\<close>

definition dot_component :: "string \<Rightarrow> bool" where
  "dot_component c \<longleftrightarrow> c = '''' \<or> c = ''.'' \<or> c = ''..''"

definition clean_components :: "string \<Rightarrow> bool" where
  "clean_components p \<longleftrightarrow> (\<forall>c\<in>set (split_on (CHR ''/'') p). \<not> dot_component c)"

lemma dot_component_Nil [simp]: "dot_component []"
  by (simp add: dot_component_def)

definition clean_root :: "string \<Rightarrow> bool" where
  \<comment> \<open>an absolute normalised directory other than the root directory itself\<close>
  "clean_root rt \<longleftrightarrow> is_absolute rt \<and> clean_components (tl rt)"

lemma foldl_norm_push_clean:
  "\<forall>c\<in>set cs. \<not> dot_component c \<Longrightarrow> foldl (norm_push isabs) st cs = st @ cs"
  by (induction cs arbitrary: st) (simp_all add: dot_component_def)

lemma lexically_normal_clean:
  assumes "clean_components p"
  shows "lexically_normal (CHR ''/'' # p) = CHR ''/'' # p"
proof -
  let ?cs = "split_on (CHR ''/'') p"
  have "foldl (norm_push True) [] ([] # ?cs) = ?cs"
    using assms by (simp add: clean_components_def foldl_norm_push_clean)
  moreover have "last ?cs \<in> set ?cs"
    by simp
  then have "\<not> dot_component (last ?cs)"
    using assms unfolding clean_components_def by blast
  ultimately show ?thesis
    by (simp add: dot_component_def lexically_normal_def is_absolute_def starts_with_def Let_def)
qed

lemma clean_not_absolute: "clean_components p \<Longrightarrow> \<not> is_absolute p"
proof
  assume "clean_components p" and "is_absolute p"
  then obtain q where "p = CHR ''/'' # q"
    by (cases p) (simp_all add: is_absolute_def starts_with_def)
  with \<open>clean_components p\<close> show False
    by (simp add: clean_components_def)
qed

lemma clean_last: "clean_components p \<Longrightarrow> p \<noteq> [] \<and> last p \<noteq> CHR ''/''"
proof -
  assume a: "clean_components p"
  have "p \<noteq> []"
    using a by (auto simp: clean_components_def)
  moreover have "last p \<noteq> CHR ''/''"
  proof
    assume "last p = CHR ''/''"
    with \<open>p \<noteq> []\<close> obtain q where "p = q @ [CHR ''/'']"
      by (metis append_butlast_last_id)
    with a show False
      using split_on_app [of "CHR ''/''" q "[]"] by (simp add: clean_components_def)
  qed
  ultimately show ?thesis by simp
qed

lemma clean_components_app:
  "clean_components p \<Longrightarrow> clean_components q \<Longrightarrow> clean_components (p @ CHR ''/'' # q)"
  by (auto simp: clean_components_def split_on_app)

lemma clean_root_append:
  assumes "clean_root rt"
  shows "path_append rt p = rt @ CHR ''/'' # p"
proof -
  obtain r where r: "rt = CHR ''/'' # r" "clean_components r"
    using assms by (cases rt) (auto simp: clean_root_def is_absolute_def starts_with_def)
  with clean_last [OF r(2)] show ?thesis
    by (simp add: path_append_def)
qed

lemma resolvePath_clean:
  assumes "clean_root rt" and "clean_components p"
  shows "resolvePath rt p = rt @ CHR ''/'' # p"
proof -
  obtain r where r: "rt = CHR ''/'' # r" "clean_components r"
    using assms by (cases rt) (auto simp: clean_root_def is_absolute_def starts_with_def)
  have "lexically_normal (rt @ CHR ''/'' # p) = rt @ CHR ''/'' # p"
    using lexically_normal_clean [OF clean_components_app [OF r(2) assms(2)]] by (simp add: r)
  then show ?thesis
    by (simp add: resolvePath_def clean_not_absolute [OF assms(2)] clean_root_append [OF assms(1)])
qed

definition metadata_path :: string where
  "metadata_path = ''.squid/fileVersions.txt''"

lemma versionFilePath_clean:
  "clean_root rt \<Longrightarrow> versionFilePath rt = rt @ CHR ''/'' # metadata_path"
  using clean_root_append [of rt "''.squid''"]
  by (simp add: versionFilePath_def path_append_def metadata_path_def)

section \<open>Storing and deleting\<close>

lemma writeDisk_ok [simp]: "disk_ok d \<Longrightarrow> disk_ok (writeDisk d p c)"
  by (simp add: disk_ok_def writeDisk_def)

lemma setFileVersion_ok [simp]: "disk_ok d \<Longrightarrow> disk_ok (setFileVersion d p v)"
  by (simp add: setFileVersion_def writeVersionLines_def split: prod.splits)

lemma getFileVersion_writeDisk:
  "p \<noteq> versionFilePath (root d) \<Longrightarrow> getFileVersion (writeDisk d p c) = getFileVersion d"
  by (rule ext) (simp add: getFileVersion_def versionLines_def readDisk_writeDisk)

lemma version_disk_ok_writeDisk [simp]: "version_disk_ok (writeDisk d p c) = version_disk_ok d"
  by (simp add: version_disk_ok_def)

lemma readDisk_remove:
  "disk_ok d \<Longrightarrow> readDisk (snd (removeDisk d p)) q = (if q = p then None else readDisk d q)"
  by (simp add: readDisk_def removeDisk_def disk_ok_def)

lemma findVersion_drop: "findVersion (dropVersion ls p) q = (if q = p then -1 else findVersion ls q)"
  by (induction ls) (auto split: option.splits)

lemma set_dropVersion: "set (dropVersion ls p) \<subseteq> set ls"
  by (induction ls) (auto split: option.splits)

lemma deleteFileAndVersion_law:
  assumes "disk_ok d" and "version_disk_ok d" and "resolvePath (root d) p \<noteq> versionFilePath (root d)"
    and "readDisk d (resolvePath (root d) p) = Some c" and "deleteFileAndVersion d p = (ok, d')"
  shows "ok" "getFileVersion d' q = (if q = p then -1 else getFileVersion d q)"
    and "r \<noteq> versionFilePath (root d) \<Longrightarrow>
      readDisk d' r = (if r = resolvePath (root d) p then None else readDisk d r)"
proof -
  let ?d = "snd (removeDisk d (resolvePath (root d) p))"
  have rt: "root ?d = root d" "version_disk_ok ?d" "unopenable ?d = unopenable d"
    using assms(2) by (simp_all add: removeDisk_def version_disk_ok_def)
  have vl: "versionLines ?d = versionLines d"
    using assms(1,3) by (simp add: versionLines_def rt readDisk_remove)
  show ok: "ok"
    using assms(4,5) by (auto simp: deleteFileAndVersion_def deleteFile_def removeDisk_def Let_def
        readDisk_def om_has_def split: prod.splits if_splits)
  then have d': "d' = writeVersionLines ?d (dropVersion (versionLines d) p)"
    using assms(5) vl by (auto simp: deleteFileAndVersion_def deleteFile_def Let_def split: prod.splits if_splits)
  have "\<forall>l\<in>set (dropVersion (versionLines d) p). CHR 0x0A \<notin> set l"
    using set_dropVersion versionLines_no_newline by blast
  then show "getFileVersion d' q = (if q = p then -1 else getFileVersion d q)"
    by (simp add: getFileVersion_def d' versionLines_write rt findVersion_drop)
  show "readDisk d' r = (if r = resolvePath (root d) p then None else readDisk d r)"
    if "r \<noteq> versionFilePath (root d)"
    using that assms(1) by (simp add: d' writeVersionLines_def readDisk_writeDisk rt readDisk_remove)
qed

section \<open>The listing that \<open>SYNC_STATUS\<close> reports\<close>

definition version_lines_ok :: "disk \<Rightarrow> bool" where
  \<comment> \<open>no path has two entries in the version file\<close>
  "version_lines_ok d \<longleftrightarrow> distinct (map fst (List.map_filter parseVersionLine (versionLines d)))"

lemma map_filter_Cons:
  "List.map_filter f (x # xs) = (case f x of None \<Rightarrow> List.map_filter f xs | Some y \<Rightarrow> y # List.map_filter f xs)"
  by (simp add: List.map_filter_def split: option.splits)

lemma findVersion_map_of:
  "findVersion ls p = (case map_of (List.map_filter parseVersionLine ls) p of None \<Rightarrow> -1 | Some v \<Rightarrow> v)"
  by (induction ls) (auto simp: map_filter_Cons List.map_filter_def split: option.splits)

lemma savedVersions_fold:
  "savedVersions ls = fold (\<lambda>(k, v). om_put k v) (List.map_filter parseVersionLine ls) []"
proof -
  have "fold (\<lambda>line m. case parseVersionLine line of Some (p, v) \<Rightarrow> om_put p v m | None \<Rightarrow> m) ls m =
        fold (\<lambda>(k, v). om_put k v) (List.map_filter parseVersionLine ls) m" for m
    by (induction ls arbitrary: m) (auto simp: map_filter_Cons List.map_filter_def split: option.splits)
  then show ?thesis
    by (simp add: savedVersions_def)
qed

lemma map_of_rev_distinct_keys: "distinct (map fst kvs) \<Longrightarrow> map_of (rev kvs) = map_of kvs"
proof (induction kvs)
  case (Cons e kvs)
  then have "map_of kvs (fst e) = None"
    by (simp add: map_of_eq_None_iff)
  with Cons show ?case
    by (cases e) (auto simp: map_add_def fun_eq_iff split: option.splits)
qed simp

lemma om_find_savedVersions:
  assumes "version_lines_ok d"
  shows "om_find (savedVersions (versionLines d)) p =
           map_of (List.map_filter parseVersionLine (versionLines d)) p"
  using assms
  by (simp add: savedVersions_fold om.find_put_all version_lines_ok_def map_of_rev_distinct_keys split: option.splits)

lemma om_find_fold_put:
  "om_find (fold (\<lambda>x m. om_put x (g x) m) xs m) y = (if y \<in> set xs then Some (g y) else om_find m y)"
  by (induction xs arbitrary: m) auto

lemma om_ok_fold_put: "om_ok m \<Longrightarrow> om_ok (fold (\<lambda>x m. om_put x (g x) m) xs m)"
  by (induction xs arbitrary: m) auto

lemma om_ok_getFileVersionMapDisk: "om_ok (getFileVersionMapDisk d)"
  by (simp add: getFileVersionMapDisk_def Let_def om_ok_fold_put)

lemma in_set_map_filter: "y \<in> set (List.map_filter f xs) \<longleftrightarrow> (\<exists>x\<in>set xs. f x = Some y)"
  by (induction xs) (auto simp: map_filter_Cons List.map_filter_def split: option.splits)

lemma in_getFiles:
  assumes "clean_root (root d)" and "disk_ok d"
  shows "f \<in> set (getFiles d) \<longleftrightarrow>
    f \<noteq> [] \<and> CHR ''/'' \<notin> set f \<and> f \<noteq> ''.squid'' \<and> readDisk d (root d @ CHR ''/'' # f) \<noteq> None"
proof -
  let ?pre = "root d @ ''/''"
  have pre: "path_append (root d) [] = ?pre"
    using clean_root_append [OF assms(1)] by simp
  have child: "childName (root d) p = Some f \<longleftrightarrow> p = ?pre @ f \<and> f \<noteq> [] \<and> CHR ''/'' \<notin> set f" for p
  proof
    assume "childName (root d) p = Some f"
    then have "take (length ?pre) p = ?pre \<and> f = drop (length ?pre) p \<and> f \<noteq> [] \<and> CHR ''/'' \<notin> set f"
      unfolding childName_def pre Let_def by (metis option.distinct(1) option.inject)
    then show "p = ?pre @ f \<and> f \<noteq> [] \<and> CHR ''/'' \<notin> set f"
      by (metis append_take_drop_id)
  next
    assume "p = ?pre @ f \<and> f \<noteq> [] \<and> CHR ''/'' \<notin> set f"
    then show "childName (root d) p = Some f"
      unfolding childName_def pre Let_def by simp
  qed
  have rd: "(?pre @ f, c) \<in> set (files d) \<longleftrightarrow> readDisk d (?pre @ f) = Some c" for c
    using assms(2) by (simp add: om_find_in_set disk_ok_def readDisk_def)
  have ex: "(\<exists>x\<in>set (files d). (case x of (p, _) \<Rightarrow> childName (root d) p) = Some f) \<longleftrightarrow>
      (\<exists>p c. (p, c) \<in> set (files d) \<and> childName (root d) p = Some f)"
    by force
  have "f \<in> set (getFiles d) \<longleftrightarrow>
      (\<exists>p c. (p, c) \<in> set (files d) \<and> childName (root d) p = Some f) \<and> f \<noteq> ''.squid''"
    unfolding getFiles_def isRuntimeFile_def set_filter in_set_map_filter mem_Collect_eq ex by (rule refl)
  also have "\<dots> \<longleftrightarrow> f \<noteq> [] \<and> CHR ''/'' \<notin> set f \<and> f \<noteq> ''.squid'' \<and> (\<exists>c. readDisk d (?pre @ f) = Some c)"
    unfolding child using rd by blast
  finally show ?thesis
    by simp
qed

lemma om_find_getFileVersionMapDisk:
  "om_find (getFileVersionMapDisk d) f =
     (if f \<in> set (getFiles d)
      then Some (case om_find (savedVersions (versionLines d)) f of Some v \<Rightarrow> v | None \<Rightarrow> 0) else None)"
  unfolding getFileVersionMapDisk_def Let_def om_find_fold_put by simp

lemma saved_or_zero:
  assumes "version_lines_ok d"
  shows "(case om_find (savedVersions (versionLines d)) f of Some v \<Rightarrow> v | None \<Rightarrow> 0) =
    (if f \<in> set (om_keys (savedVersions (versionLines d))) then getFileVersion d f else 0)"
  using om_find_savedVersions [OF assms, of f]
  by (auto simp: om_keys_find getFileVersion_def findVersion_map_of split: option.splits)

section \<open>The storage invariant\<close>

definition storage_ok :: "disk \<Rightarrow> bool" where
  "storage_ok d \<longleftrightarrow> disk_ok d \<and> version_disk_ok d \<and> version_lines_ok d"

definition user_path :: "disk \<Rightarrow> string \<Rightarrow> bool" where
  \<comment> \<open>a storable name that does not denote the version file itself\<close>
  "user_path d p \<longleftrightarrow> plain_name p \<and> resolvePath (root d) p \<noteq> versionFilePath (root d)"

lemma keys_replaceVersion:
  "plain_name path \<Longrightarrow> int_range v \<Longrightarrow>
   map fst (List.map_filter parseVersionLine (snd (replaceVersion ls path v))) =
   map fst (List.map_filter parseVersionLine ls) \<and>
   (fst (replaceVersion ls path v) \<longleftrightarrow> path \<in> fst ` set (List.map_filter parseVersionLine ls))"
  by (induction ls)
     (auto simp: Let_def map_filter_Cons List.map_filter_def parseVersionLine_written
        split: prod.splits option.splits)

lemma map_filter_snoc: "List.map_filter f (xs @ [x]) = List.map_filter f xs @ (case f x of None \<Rightarrow> [] | Some y \<Rightarrow> [y])"
  by (simp add: List.map_filter_def split: option.splits)

lemma version_lines_ok_set:
  assumes "version_disk_ok d" and "version_lines_ok d" and "plain_name path" and "int_range v"
  shows "version_lines_ok (setFileVersion d path v)"
proof -
  obtain found out where r: "replaceVersion (versionLines d) path v = (found, out)"
    by fastforce
  let ?ls = "if found then out else out @ [path @ '' '' @ show_int v]"
  have "\<forall>l\<in>set ?ls. CHR 0x0A \<notin> set l"
    using replaceVersion_no_newline [OF assms(3), of "versionLines d" _ v] versionLines_no_newline [of _ d]
    by (auto simp: r plain_no_newline [OF assms(3)] show_int_no_newline)
  then have "versionLines (setFileVersion d path v) = ?ls"
    using assms(1) by (simp add: setFileVersion_def r versionLines_write)
  moreover have "distinct (map fst (List.map_filter parseVersionLine ?ls))"
  proof -
    have keys: "map fst (List.map_filter parseVersionLine out) = map fst (List.map_filter parseVersionLine (versionLines d))"
      "found \<longleftrightarrow> path \<in> set (map fst (List.map_filter parseVersionLine (versionLines d)))"
      using keys_replaceVersion [OF assms(3,4), of "versionLines d"] by (simp_all add: r)
    show ?thesis
      using assms(2) keys
      by (auto simp: version_lines_ok_def map_filter_snoc parseVersionLine_written [OF assms(3,4)])
  qed
  ultimately show ?thesis
    by (simp add: version_lines_ok_def)
qed

lemma map_filter_filter:
  "List.map_filter parseVersionLine (dropVersion ls p) = filter (\<lambda>e. fst e \<noteq> p) (List.map_filter parseVersionLine ls)"
  by (induction ls) (auto simp: map_filter_Cons List.map_filter_def split: option.splits)

lemma storage_ok_write:
  "storage_ok d \<Longrightarrow> p \<noteq> versionFilePath (root d) \<Longrightarrow> storage_ok (writeDisk d p c)"
  by (simp add: storage_ok_def version_lines_ok_def versionLines_def readDisk_writeDisk)

lemma storage_ok_set:
  "storage_ok d \<Longrightarrow> plain_name p \<Longrightarrow> int_range v \<Longrightarrow> storage_ok (setFileVersion d p v)"
  by (simp add: storage_ok_def version_lines_ok_set)

lemma storage_ok_remove:
  assumes "storage_ok d" and "p \<noteq> versionFilePath (root d)"
  shows "storage_ok (snd (removeDisk d p))"
proof -
  have "root (snd (removeDisk d p)) = root d" "unopenable (snd (removeDisk d p)) = unopenable d"
    "disk_ok (snd (removeDisk d p))"
    using assms(1) by (simp_all add: removeDisk_def storage_ok_def disk_ok_def)
  with assms show ?thesis
    by (simp add: storage_ok_def version_lines_ok_def version_disk_ok_def versionLines_def readDisk_remove)
qed

lemma storage_ok_delete:
  assumes "storage_ok d" and "user_path d p"
  shows "storage_ok (snd (deleteFileAndVersion d p))"
proof -
  let ?d = "snd (removeDisk d (resolvePath (root d) p))"
  have ok: "storage_ok ?d"
    using assms by (simp add: storage_ok_remove user_path_def)
  have "\<forall>l\<in>set (dropVersion (versionLines ?d) p). CHR 0x0A \<notin> set l"
    using set_dropVersion versionLines_no_newline by blast
  then have "versionLines (writeVersionLines ?d (dropVersion (versionLines ?d) p)) = dropVersion (versionLines ?d) p"
    using ok by (simp add: storage_ok_def versionLines_write)
  then have "storage_ok (writeVersionLines ?d (dropVersion (versionLines ?d) p))"
    using ok by (simp add: storage_ok_def version_lines_ok_def map_filter_filter distinct_map_filter)
       (simp add: writeVersionLines_def)
  with ok show ?thesis
    by (auto simp: deleteFileAndVersion_def deleteFile_def Let_def split: prod.splits)
qed

section \<open>Properties\<close>



text \<open>
  Deleting a stored file removes its content and its version entry (an unknown version reads as
  -1), leaves every other file and version alone and keeps the storage invariant.
\<close>

theorem delete_forgets:
  assumes "storage_ok d" and "user_path d p" and "readDisk d (resolvePath (root d) p) = Some c"
    and "deleteFileAndVersion d p = (ok, d')"
  shows "ok \<and> storage_ok d' \<and> readDisk d' (resolvePath (root d) p) = None \<and>
    (\<forall>q. getFileVersion d' q = (if q = p then -1 else getFileVersion d q)) \<and>
    (\<forall>r. r \<noteq> resolvePath (root d) p \<and> r \<noteq> versionFilePath (root d) \<longrightarrow> readDisk d' r = readDisk d r)"
proof -
  have "disk_ok d" "version_disk_ok d" "resolvePath (root d) p \<noteq> versionFilePath (root d)"
    using assms(1,2) by (simp_all add: storage_ok_def user_path_def)
  note law = deleteFileAndVersion_law [OF this assms(3,4)]
  moreover have "storage_ok d'"
    using storage_ok_delete [OF assms(1,2)] assms(4) by simp
  ultimately show ?thesis
    using assms(2) by (simp add: user_path_def)
qed

theorem delete_forgets_witness:
  "fst (deleteFileAndVersion (snd (updateFileVersion (newFileManager ''/srv'') ''a.txt'' ''hello'' 3)) ''a.txt'')"
proof -
  let ?d = "snd (updateFileVersion (newFileManager ''/srv'') ''a.txt'' ''hello'' 3)"
  have "storage_ok ?d" "user_path ?d ''a.txt''"
    "readDisk ?d (resolvePath (root ?d) ''a.txt'') = Some (bytes_of_string ''hello'')"
    by code_simp+
  from delete_forgets [OF this prod.collapse [symmetric]] show ?thesis
    by blast
qed

text \<open>
  The listing a data node reports has exactly the files directly inside the storage root, the
  metadata directory name excluded, each with its recorded version, or 0 when none is recorded. In
  particular a file stored under a path with a directory part is never listed.
\<close>

theorem listing_exact:
  assumes "storage_ok d" and "clean_root (root d)"
  shows "om_find (getFileVersionMapDisk d) f =
    (if f \<noteq> [] \<and> CHR ''/'' \<notin> set f \<and> f \<noteq> ''.squid'' \<and> readDisk d (root d @ CHR ''/'' # f) \<noteq> None
     then Some (if f \<in> set (om_keys (savedVersions (versionLines d))) then getFileVersion d f else 0)
     else None)"
  using assms
  by (simp only: om_find_getFileVersionMapDisk in_getFiles saved_or_zero storage_ok_def)

theorem listing_exact_witness:
  "om_find (getFileVersionMapDisk (snd (updateFileVersion (newFileManager ''/srv'') ''dir/b'' ''x'' 1))) ''dir/b'' = None"
proof -
  let ?d = "snd (updateFileVersion (newFileManager ''/srv'') ''dir/b'' ''x'' 1)"
  have "storage_ok ?d" "clean_root (root ?d)"
    by code_simp+
  from listing_exact [OF this, of "''dir/b''"] show ?thesis
    by simp
qed

text \<open>
  A relative path without empty, dot or dot-dot components resolves to that very path below the
  storage root, so distinct names are distinct files and none leaves the root.
\<close>

theorem resolvePath_confined:
  assumes "clean_root rt" and "clean_components p"
  shows "resolvePath rt p = rt @ ''/'' @ p \<and> (clean_components q \<longrightarrow> resolvePath rt q = resolvePath rt p \<longrightarrow> q = p)"
  using assms by (simp add: resolvePath_clean)

theorem resolvePath_confined_witness:
  "resolvePath ''/srv/squid'' ''dir/a.txt'' = ''/srv/squid/dir/a.txt''"
proof -
  have "clean_root ''/srv/squid''" "clean_components ''dir/a.txt''"
    by code_simp+
  from resolvePath_confined [OF this] show ?thesis
    by simp
qed

text \<open>Nothing confines other paths: an absolute path or a dot-dot path reaches outside the root.\<close>

lemma resolvePath_escapes:
  "resolvePath ''/srv/squid'' ''/etc/passwd'' = ''/etc/passwd'' \<and>
   resolvePath ''/srv/squid'' ''../../etc/passwd'' = ''/etc/passwd''"
  by code_simp

end
