(* ===== verification/Wire_Format.thy ===== *)
theory Wire_Format
  imports Ordered_Map Text_IO
begin

text \<open>
  The binary wire format of \<open>common/src/squidprotocol/squidProtocolFormatter\<close>: opcodes and field
  identifiers, the frame builder, the frame parser, the typed accessors of a message and one
  builder per request, response, push and replication frame. Exceptions of the C++ code are values
  of \<open>frame_error\<close>.
\<close>

section \<open>Opcodes, fields and messages\<close>

definition SQUID_MAGIC :: u16 where
  "SQUID_MAGIC = 0x5351"

definition FLAG_RESPONSE :: u8 where
  "FLAG_RESPONSE = 0x01"

definition FRAME_HEADER_SIZE :: nat where
  "FRAME_HEADER_SIZE = 13"

text \<open>
  An \<open>enum class\<close> with the underlying type \<open>uint8_t\<close> holds any byte: the last constructor of each
  datatype is a byte without an enumerator.
\<close>

datatype Opcode =
    CONNECT_SERVER | IDENTIFY | CLOSE | HEARTBEAT | SYNC_STATUS
  | CREATE_FILE | READ_FILE | UPDATE_FILE | DELETE_FILE
  | ACQUIRE_LOCK | RELEASE_LOCK
  | PUSH_CREATE_FILE | PUSH_UPDATE_FILE | PUSH_DELETE_FILE
  | STATE_SNAP | STATE_DELTA | LEADER_HB | NACK_STALE_EPOCH
  | RESPONSE
  | OpcodeByte u8

datatype FieldID =
    FILE_PATH | FILE_VERSION | NODE_TYPE | PROCESS_NAME | PORT | ACK | IS_LOCKED | TIMESTAMP
  | FILE_ENTRY | VER_ENTRY
  | EPOCH | DELTA_OP | DATANODE_NAME | SNAP_ENTRY
  | FieldByte u8

fun opcode_byte :: "Opcode \<Rightarrow> u8" where
  "opcode_byte CONNECT_SERVER = 0x01"
| "opcode_byte IDENTIFY = 0x02"
| "opcode_byte CLOSE = 0x03"
| "opcode_byte HEARTBEAT = 0x04"
| "opcode_byte SYNC_STATUS = 0x05"
| "opcode_byte CREATE_FILE = 0x10"
| "opcode_byte READ_FILE = 0x12"
| "opcode_byte UPDATE_FILE = 0x13"
| "opcode_byte DELETE_FILE = 0x14"
| "opcode_byte ACQUIRE_LOCK = 0x20"
| "opcode_byte RELEASE_LOCK = 0x21"
| "opcode_byte PUSH_CREATE_FILE = 0x30"
| "opcode_byte PUSH_UPDATE_FILE = 0x31"
| "opcode_byte PUSH_DELETE_FILE = 0x32"
| "opcode_byte STATE_SNAP = 0x40"
| "opcode_byte STATE_DELTA = 0x41"
| "opcode_byte LEADER_HB = 0x42"
| "opcode_byte NACK_STALE_EPOCH = 0x43"
| "opcode_byte RESPONSE = 0xFF"
| "opcode_byte (OpcodeByte b) = b"

definition named_opcodes :: "Opcode list" where
  "named_opcodes =
     [CONNECT_SERVER, IDENTIFY, CLOSE, HEARTBEAT, SYNC_STATUS, CREATE_FILE, READ_FILE, UPDATE_FILE,
      DELETE_FILE, ACQUIRE_LOCK, RELEASE_LOCK, PUSH_CREATE_FILE, PUSH_UPDATE_FILE, PUSH_DELETE_FILE,
      STATE_SNAP, STATE_DELTA, LEADER_HB, NACK_STALE_EPOCH, RESPONSE]"

definition opcode_of_byte :: "u8 \<Rightarrow> Opcode" where
  "opcode_of_byte b =
     (case find (\<lambda>op. opcode_byte op = b) named_opcodes of Some op \<Rightarrow> op | None \<Rightarrow> OpcodeByte b)"

fun field_byte :: "FieldID \<Rightarrow> u8" where
  "field_byte FILE_PATH = 0x01"
| "field_byte FILE_VERSION = 0x02"
| "field_byte NODE_TYPE = 0x03"
| "field_byte PROCESS_NAME = 0x04"
| "field_byte PORT = 0x05"
| "field_byte ACK = 0x06"
| "field_byte IS_LOCKED = 0x07"
| "field_byte TIMESTAMP = 0x08"
| "field_byte FILE_ENTRY = 0x10"
| "field_byte VER_ENTRY = 0x11"
| "field_byte EPOCH = 0x20"
| "field_byte DELTA_OP = 0x21"
| "field_byte DATANODE_NAME = 0x22"
| "field_byte SNAP_ENTRY = 0x23"
| "field_byte (FieldByte b) = b"

definition named_fields :: "FieldID list" where
  "named_fields =
     [FILE_PATH, FILE_VERSION, NODE_TYPE, PROCESS_NAME, PORT, ACK, IS_LOCKED, TIMESTAMP,
      FILE_ENTRY, VER_ENTRY, EPOCH, DELTA_OP, DATANODE_NAME, SNAP_ENTRY]"

definition field_of_byte :: "u8 \<Rightarrow> FieldID" where
  "field_of_byte b =
     (case find (\<lambda>f. field_byte f = b) named_fields of Some f \<Rightarrow> f | None \<Rightarrow> FieldByte b)"

record BinaryField =
  fid :: FieldID
  fvalue :: bytes

record Message =
  opcode :: Opcode
  flags :: u8
  seq :: u32
  payloadLen :: u32
  mfields :: "BinaryField list"

text \<open>The \<open>Message\<close> of its default member initialisers, and the two the formatter makes itself.\<close>

definition emptyMessage :: Message where
  "emptyMessage = \<lparr>opcode = RESPONSE, flags = 0, seq = 0, payloadLen = 0, mfields = []\<rparr>"

datatype frame_error =
    TooManyFields | FieldValueTooLong
  | FrameTooShort | BadMagic | TruncatedFieldHeader | TruncatedFieldValue

fun opcodeToString :: "Opcode \<Rightarrow> string" where
  "opcodeToString CONNECT_SERVER = ''CONNECT_SERVER''"
| "opcodeToString IDENTIFY = ''IDENTIFY''"
| "opcodeToString CLOSE = ''CLOSE''"
| "opcodeToString HEARTBEAT = ''HEARTBEAT''"
| "opcodeToString SYNC_STATUS = ''SYNC_STATUS''"
| "opcodeToString CREATE_FILE = ''CREATE_FILE''"
| "opcodeToString READ_FILE = ''READ_FILE''"
| "opcodeToString UPDATE_FILE = ''UPDATE_FILE''"
| "opcodeToString DELETE_FILE = ''DELETE_FILE''"
| "opcodeToString ACQUIRE_LOCK = ''ACQUIRE_LOCK''"
| "opcodeToString RELEASE_LOCK = ''RELEASE_LOCK''"
| "opcodeToString PUSH_CREATE_FILE = ''PUSH_CREATE_FILE''"
| "opcodeToString PUSH_UPDATE_FILE = ''PUSH_UPDATE_FILE''"
| "opcodeToString PUSH_DELETE_FILE = ''PUSH_DELETE_FILE''"
| "opcodeToString STATE_SNAP = ''STATE_SNAP''"
| "opcodeToString STATE_DELTA = ''STATE_DELTA''"
| "opcodeToString LEADER_HB = ''LEADER_HB''"
| "opcodeToString NACK_STALE_EPOCH = ''NACK_STALE_EPOCH''"
| "opcodeToString RESPONSE = ''RESPONSE''"
| "opcodeToString (OpcodeByte b) = ''UNKNOWN''"

section \<open>Big-endian integers\<close>

definition pushU16 :: "bytes \<Rightarrow> u16 \<Rightarrow> bytes" where
  "pushU16 buf v = buf @ [ucast (drop_bit 8 v), ucast (v AND 0xFF)]"

definition pushU32 :: "bytes \<Rightarrow> u32 \<Rightarrow> bytes" where
  "pushU32 buf v =
     buf @ [ucast (drop_bit 24 v AND 0xFF), ucast (drop_bit 16 v AND 0xFF),
            ucast (drop_bit 8 v AND 0xFF), ucast (v AND 0xFF)]"

definition pushU64 :: "bytes \<Rightarrow> u64 \<Rightarrow> bytes" where
  "pushU64 buf v = buf @ map (\<lambda>i. ucast (drop_bit (8 * i) v AND 0xFF)) [7, 6, 5, 4, 3, 2, 1, 0]"

definition readU16 :: "bytes \<Rightarrow> u16" where
  "readU16 p = push_bit 8 (ucast (p ! 0)) OR ucast (p ! 1)"

definition readU32 :: "bytes \<Rightarrow> u32" where
  "readU32 p =
     push_bit 24 (ucast (p ! 0)) OR push_bit 16 (ucast (p ! 1)) OR push_bit 8 (ucast (p ! 2)) OR
     ucast (p ! 3)"

definition readU64 :: "bytes \<Rightarrow> u64" where
  "readU64 p = foldl (\<lambda>v b. push_bit 8 v OR ucast b) 0 (take 8 p)"

text \<open>The loop that fills a buffer from its last byte, shifting the value right each time.\<close>

fun be_bytes :: "nat \<Rightarrow> u64 \<Rightarrow> bytes" where
  "be_bytes 0 v = []"
| "be_bytes (Suc n) v = be_bytes n (drop_bit 8 v) @ [ucast (v AND 0xFF)]"

section \<open>Building frames\<close>

definition fieldString :: "FieldID \<Rightarrow> string \<Rightarrow> BinaryField" where
  "fieldString i s = \<lparr>fid = i, fvalue = bytes_of_string s\<rparr>"

definition fieldUint32 :: "FieldID \<Rightarrow> u32 \<Rightarrow> BinaryField" where
  "fieldUint32 i v =
     \<lparr>fid = i, fvalue = [ucast (drop_bit 24 v AND 0xFF), ucast (drop_bit 16 v AND 0xFF),
                         ucast (drop_bit 8 v AND 0xFF), ucast (v AND 0xFF)]\<rparr>"

definition fieldUint64 :: "FieldID \<Rightarrow> u64 \<Rightarrow> BinaryField" where
  "fieldUint64 i v = \<lparr>fid = i, fvalue = be_bytes 8 v\<rparr>"

definition fieldBool :: "FieldID \<Rightarrow> bool \<Rightarrow> BinaryField" where
  "fieldBool i v = \<lparr>fid = i, fvalue = [if v then 0x01 else 0x00]\<rparr>"

fun pushFields :: "bytes \<Rightarrow> BinaryField list \<Rightarrow> frame_error + bytes" where
  "pushFields frame [] = Inr frame"
| "pushFields frame (f # fs) =
     (if length (fvalue f) > 65535 then Inl FieldValueTooLong
      else pushFields (pushU16 (frame @ [field_byte (fid f)]) (of_nat (length (fvalue f))) @ fvalue f) fs)"

definition buildFrame :: "Opcode \<Rightarrow> u8 \<Rightarrow> BinaryField list \<Rightarrow> u32 \<Rightarrow> frame_error + bytes" where
  "buildFrame op fl fs plen =
     (if length fs > 255 then Inl TooManyFields
      else pushFields
             (pushU32 (pushU32 (pushU16 [] SQUID_MAGIC @ [opcode_byte op, fl, of_nat (length fs)]) 0) plen)
             fs)"

definition stampSeq :: "bytes \<Rightarrow> u32 \<Rightarrow> bytes" where
  "stampSeq frame s =
     (if length frame < FRAME_HEADER_SIZE then frame
      else frame[5 := ucast (drop_bit 24 s AND 0xFF), 6 := ucast (drop_bit 16 s AND 0xFF),
                 7 := ucast (drop_bit 8 s AND 0xFF), 8 := ucast (s AND 0xFF)])"

section \<open>Parsing frames\<close>

fun parseFields :: "nat \<Rightarrow> bytes \<Rightarrow> frame_error + BinaryField list" where
  "parseFields 0 p = Inr []"
| "parseFields (Suc n) p =
     (if length p < 3 then Inl TruncatedFieldHeader
      else let i = field_of_byte (p ! 0);
               vlen = unat (readU16 (drop 1 p));
               q = drop 3 p
           in if length q < vlen then Inl TruncatedFieldValue
              else (case parseFields n (drop vlen q) of
                      Inl e \<Rightarrow> Inl e
                    | Inr fs \<Rightarrow> Inr (\<lparr>fid = i, fvalue = take vlen q\<rparr> # fs)))"

definition parseMessage :: "bytes \<Rightarrow> frame_error + Message" where
  "parseMessage frame =
     (if length frame < FRAME_HEADER_SIZE then Inl FrameTooShort
      else if readU16 frame \<noteq> SQUID_MAGIC then Inl BadMagic
      else (case parseFields (unat (frame ! 4)) (drop FRAME_HEADER_SIZE frame) of
              Inl e \<Rightarrow> Inl e
            | Inr fs \<Rightarrow>
                Inr \<lparr>opcode = opcode_of_byte (frame ! 2), flags = frame ! 3,
                     seq = readU32 (drop 5 frame), payloadLen = readU32 (drop 9 frame),
                     mfields = fs\<rparr>))"

definition makeNack :: Message where
  "makeNack = emptyMessage\<lparr>opcode := RESPONSE, flags := FLAG_RESPONSE, mfields := [fieldBool ACK False]\<rparr>"

definition makeAck :: Message where
  "makeAck = emptyMessage\<lparr>opcode := RESPONSE, flags := FLAG_RESPONSE, mfields := [fieldBool ACK True]\<rparr>"

section \<open>Message accessors\<close>

definition findField :: "Message \<Rightarrow> FieldID \<Rightarrow> BinaryField option" where
  "findField m i = find (\<lambda>f. fid f = i) (mfields m)"

definition getString :: "Message \<Rightarrow> FieldID \<Rightarrow> string \<Rightarrow> string" where
  "getString m i d = (case findField m i of None \<Rightarrow> d | Some f \<Rightarrow> string_of_bytes (fvalue f))"

definition getUint32 :: "Message \<Rightarrow> FieldID \<Rightarrow> u32 \<Rightarrow> u32" where
  "getUint32 m i d =
     (case findField m i of None \<Rightarrow> d
      | Some f \<Rightarrow> if length (fvalue f) < 4 then d else readU32 (fvalue f))"

definition getUint64 :: "Message \<Rightarrow> FieldID \<Rightarrow> u64 \<Rightarrow> u64" where
  "getUint64 m i d =
     (case findField m i of None \<Rightarrow> d
      | Some f \<Rightarrow> if length (fvalue f) < 8 then d else readU64 (fvalue f))"

definition getBool :: "Message \<Rightarrow> FieldID \<Rightarrow> bool \<Rightarrow> bool" where
  "getBool m i d =
     (case findField m i of None \<Rightarrow> d | Some f \<Rightarrow> if fvalue f = [] then d else hd (fvalue f) \<noteq> 0)"

definition isResponse :: "Message \<Rightarrow> bool" where
  "isResponse m \<longleftrightarrow> flags m AND FLAG_RESPONSE \<noteq> 0"

definition isAck :: "Message \<Rightarrow> bool" where
  "isAck m \<longleftrightarrow> isResponse m \<and> getBool m ACK False"

fun collectEntries :: "BinaryField list \<Rightarrow> string list \<times> u32 list \<Rightarrow> string list \<times> u32 list" where
  "collectEntries [] acc = acc"
| "collectEntries (f # fs) (fls, vs) =
     (if fid f = FILE_ENTRY then collectEntries fs (fls @ [string_of_bytes (fvalue f)], vs)
      else if fid f = VER_ENTRY \<and> length (fvalue f) \<ge> 4
      then collectEntries fs (fls, vs @ [readU32 (fvalue f)])
      else collectEntries fs (fls, vs))"

definition getFileVersionMap :: "Message \<Rightarrow> (string, int) omap" where
  "getFileVersionMap m =
     (let (fls, vs) = collectEntries (mfields m) ([], [])
      in fold (\<lambda>(f, v). om_put f (int_of_u32 v)) (zip fls vs) [])"

definition messageToString :: "Message \<Rightarrow> string" where
  "messageToString m =
     ''Message{opcode='' @ opcodeToString (opcode m) @ '',flags='' @ show_nat (unat (flags m)) @
     '',seq='' @ show_nat (unat (seq m)) @ '',payloadLen='' @ show_nat (unat (payloadLen m)) @
     '',fields=['' @
     concat (map (\<lambda>f. show_nat (unat (field_byte (fid f))) @ ''('' @
                        show_nat (length (fvalue f)) @ ''B),'') (mfields m)) @ '']}''"

section \<open>The frames of the protocol\<close>

type_synonym frame = "frame_error + bytes"

definition identifyFormat :: frame where
  "identifyFormat = buildFrame IDENTIFY 0 [] 0"

definition closeFormat :: frame where
  "closeFormat = buildFrame CLOSE 0 [] 0"

definition connectServerFormat :: frame where
  "connectServerFormat = buildFrame CONNECT_SERVER 0 [] 0"

definition heartbeatFormat :: frame where
  "heartbeatFormat = buildFrame HEARTBEAT 0 [] 0"

definition syncStatusFormat :: frame where
  "syncStatusFormat = buildFrame SYNC_STATUS 0 [] 0"

definition createFileFormat :: "string \<Rightarrow> frame" where
  "createFileFormat path = buildFrame CREATE_FILE 0 [fieldString FILE_PATH path] 0"

definition createFileVersionFormat :: "string \<Rightarrow> int \<Rightarrow> frame" where
  "createFileVersionFormat path version =
     buildFrame CREATE_FILE 0
       [fieldString FILE_PATH path, fieldUint32 FILE_VERSION (u32_of_int version)] 0"

definition readFileFormat :: "string \<Rightarrow> frame" where
  "readFileFormat path = buildFrame READ_FILE 0 [fieldString FILE_PATH path] 0"

definition updateFileFormat :: "string \<Rightarrow> frame" where
  "updateFileFormat path = buildFrame UPDATE_FILE 0 [fieldString FILE_PATH path] 0"

definition updateFileVersionFormat :: "string \<Rightarrow> int \<Rightarrow> frame" where
  "updateFileVersionFormat path version =
     buildFrame UPDATE_FILE 0
       [fieldString FILE_PATH path, fieldUint32 FILE_VERSION (u32_of_int version)] 0"

definition deleteFileFormat :: "string \<Rightarrow> frame" where
  "deleteFileFormat path = buildFrame DELETE_FILE 0 [fieldString FILE_PATH path] 0"

definition acquireLockFormat :: "string \<Rightarrow> frame" where
  "acquireLockFormat path = buildFrame ACQUIRE_LOCK 0 [fieldString FILE_PATH path] 0"

definition releaseLockFormat :: "string \<Rightarrow> frame" where
  "releaseLockFormat path = buildFrame RELEASE_LOCK 0 [fieldString FILE_PATH path] 0"

definition pushCreateFileFormat :: "string \<Rightarrow> int \<Rightarrow> frame" where
  "pushCreateFileFormat path version =
     buildFrame PUSH_CREATE_FILE 0
       [fieldString FILE_PATH path, fieldUint32 FILE_VERSION (u32_of_int version)] 0"

definition pushUpdateFileFormat :: "string \<Rightarrow> int \<Rightarrow> frame" where
  "pushUpdateFileFormat path version =
     buildFrame PUSH_UPDATE_FILE 0
       [fieldString FILE_PATH path, fieldUint32 FILE_VERSION (u32_of_int version)] 0"

definition pushDeleteFileFormat :: "string \<Rightarrow> frame" where
  "pushDeleteFileFormat path = buildFrame PUSH_DELETE_FILE 0 [fieldString FILE_PATH path] 0"

definition snapEntry :: "(string, string oset) omap \<Rightarrow> string \<times> int \<Rightarrow> string" where
  "snapEntry repMap e =
     fst e @ '' '' @ show_int (snd e) @
     (case om_find repMap (fst e) of
        None \<Rightarrow> ''''
      | Some dns \<Rightarrow> if dns = [] then '''' else '' '' @ join_with (CHR '','') dns)"

definition stateSnapFormat :: "(string, int) omap \<Rightarrow> (string, string oset) omap \<Rightarrow> u32 \<Rightarrow> frame" where
  "stateSnapFormat versionMap repMap epoch =
     buildFrame STATE_SNAP 0
       (fieldUint32 EPOCH epoch # map (\<lambda>e. fieldString SNAP_ENTRY (snapEntry repMap e)) versionMap) 0"

definition stateDeltaFormat :: "u8 \<Rightarrow> string \<Rightarrow> int \<Rightarrow> string list \<Rightarrow> u32 \<Rightarrow> frame" where
  "stateDeltaFormat op path version datanodes epoch =
     buildFrame STATE_DELTA 0
       ([fieldUint32 EPOCH epoch, \<lparr>fid = DELTA_OP, fvalue = [op]\<rparr>, fieldString FILE_PATH path,
         fieldUint32 FILE_VERSION (u32_of_int version)] @
        map (fieldString DATANODE_NAME) datanodes) 0"

definition leaderHbFormat :: "u32 \<Rightarrow> frame" where
  "leaderHbFormat epoch = buildFrame LEADER_HB 0 [fieldUint32 EPOCH epoch] 0"

definition nackStaleEpochFormat :: "u32 \<Rightarrow> frame" where
  "nackStaleEpochFormat myEpoch = buildFrame NACK_STALE_EPOCH 0 [fieldUint32 EPOCH myEpoch] 0"

definition parseSnapEntry :: "string \<Rightarrow> (string \<times> int \<times> string oset) option" where
  "parseSnapEntry entry =
     (case read_word entry of None \<Rightarrow> None
      | Some (path, s) \<Rightarrow>
          (case read_int s of None \<Rightarrow> None
           | Some (version, s') \<Rightarrow>
               (case read_word s' of
                  None \<Rightarrow> Some (path, version, [])
                | Some (dnList, _) \<Rightarrow>
                    Some (path, version,
                          fold os_insert (filter (\<lambda>dn. dn \<noteq> []) (split_on (CHR '','') dnList)) []))))"

definition responseAck :: "bool \<Rightarrow> frame" where
  "responseAck isack = buildFrame RESPONSE FLAG_RESPONSE [fieldBool ACK isack] 0"

definition responseAckWithVersion :: "bool \<Rightarrow> int \<Rightarrow> frame" where
  "responseAckWithVersion isack version =
     buildFrame RESPONSE FLAG_RESPONSE
       [fieldBool ACK isack, fieldUint32 FILE_VERSION (u32_of_int version)] 0"

definition responseAckString :: "string \<Rightarrow> frame" where
  "responseAckString ack = responseAck (ack = ''ACK'')"

definition responsePort :: "int \<Rightarrow> frame" where
  "responsePort port = buildFrame RESPONSE FLAG_RESPONSE [fieldUint32 PORT (u32_of_int port)] 0"

definition responseIdentity :: "string \<Rightarrow> string \<Rightarrow> frame" where
  "responseIdentity nodeType processName =
     buildFrame RESPONSE FLAG_RESPONSE
       [fieldString NODE_TYPE nodeType, fieldString PROCESS_NAME processName] 0"

definition versionMapFields :: "(string, int) omap \<Rightarrow> BinaryField list" where
  "versionMapFields m =
     concat (map (\<lambda>(f, v). [fieldString FILE_ENTRY f, fieldUint32 VER_ENTRY (u32_of_int v)]) m)"

definition responseFileVersionMap :: "(string, int) omap \<Rightarrow> frame" where
  "responseFileVersionMap m = buildFrame RESPONSE FLAG_RESPONSE (versionMapFields m) 0"

definition responseFileTimes :: "(string, 't) omap \<Rightarrow> frame" where
  \<comment> \<open>the two overloads on file times: every version is sent as 0\<close>
  "responseFileTimes m =
     responseFileVersionMap (fold (\<lambda>(f, _). om_put f 0) m [])"

section \<open>Reading back what was written\<close>

lemma opcode_byte_of_byte [simp]: "opcode_byte (opcode_of_byte b) = b"
  by (auto simp: opcode_of_byte_def find_Some_iff split: option.splits)

lemma field_byte_of_byte [simp]: "field_byte (field_of_byte b) = b"
  by (auto simp: field_of_byte_def find_Some_iff split: option.splits)

text \<open>A value of the two enumerations as the parser makes them: the last constructor is kept for bytes without a name.\<close>

definition wf_opcode :: "Opcode \<Rightarrow> bool" where
  "wf_opcode op \<longleftrightarrow> opcode_of_byte (opcode_byte op) = op"

definition wf_fieldid :: "FieldID \<Rightarrow> bool" where
  "wf_fieldid i \<longleftrightarrow> field_of_byte (field_byte i) = i"

lemma wf_opcode_named [simp]: "op \<in> set named_opcodes \<Longrightarrow> wf_opcode op"
  by (auto simp: wf_opcode_def opcode_of_byte_def named_opcodes_def)

lemma wf_fieldid_named [simp]: "i \<in> set named_fields \<Longrightarrow> wf_fieldid i"
  by (auto simp: wf_fieldid_def field_of_byte_def named_fields_def)

lemma wf_opcode_of_byte [simp]: "wf_opcode (opcode_of_byte b)"
  by (simp add: wf_opcode_def)

lemma wf_fieldid_of_byte [simp]: "wf_fieldid (field_of_byte b)"
  by (simp add: wf_fieldid_def)

lemma pushU16_app: "pushU16 buf v = buf @ pushU16 [] v"
  by (simp add: pushU16_def)

lemma pushU32_app: "pushU32 buf v = buf @ pushU32 [] v"
  by (simp add: pushU32_def)

lemma length_pushU16 [simp]: "length (pushU16 [] v) = 2"
  by (simp add: pushU16_def)

lemma length_pushU32 [simp]: "length (pushU32 [] v) = 4"
  by (simp add: pushU32_def)

text \<open>Masking with \<open>0xFF\<close> before the cast to a byte changes nothing.\<close>

lemma ucast_and_FF [simp]: "(ucast (v AND 0xFF) :: u8) = ucast v"
proof -
  have "v AND 0xFF = take_bit 8 v"
    by (simp add: take_bit_eq_mask mask_eq_exp_minus_1)
  then show ?thesis
    by (intro bit_word_eqI) (auto simp: bit_simps)
qed

lemma byte_bit_high [simp]: "8 \<le> n \<Longrightarrow> \<not> bit (b :: u8) n"
  by (auto dest: bit_imp_le_length)

lemma readU16_pushU16 [simp, wire_simps]: "readU16 (pushU16 [] v @ r) = v"
  unfolding readU16_def pushU16_def
  by (rule bit_word_eqI) (auto simp: bit_simps not_less)

lemma readU32_pushU32 [simp, wire_simps]: "readU32 (pushU32 [] v @ r) = v"
proof (rule bit_word_eqI)
  fix n assume "n < LENGTH(32)"
  then consider "n < 8" | "8 \<le> n" "n < 16" | "16 \<le> n" "n < 24" | "24 \<le> n" "n < 32"
    using not_less by fastforce
  then show "bit (readU32 (pushU32 [] v @ r)) n = bit v n"
    by cases (auto simp: readU32_def pushU32_def bit_simps)
qed

lemma readU32_pushU32_Nil [simp]: "readU32 (pushU32 [] v) = v"
  using readU32_pushU32 [of v "[]"] by simp

lemma pushU16_readU16 [simp]: "2 \<le> length p \<Longrightarrow> pushU16 [] (readU16 p) = take 2 p"
  unfolding readU16_def pushU16_def
  by (cases p; cases "tl p") (auto simp: bit_simps intro!: bit_word_eqI)

lemma pushU32_readU32 [simp]: "4 \<le> length p \<Longrightarrow> pushU32 [] (readU32 p) = take 4 p"
  unfolding readU32_def pushU32_def
  by (cases p; cases "tl p"; cases "tl (tl p)"; cases "tl (tl (tl p))")
     (auto simp: bit_simps intro!: bit_word_eqI)

text \<open>The two loops for 64-bit values agree with each other and with the reader.\<close>

lemma be_bytes_pushU64: "be_bytes 8 v = pushU64 [] v"
  by (simp add: pushU64_def numeral_eq_Suc drop_bit_drop_bit)

lemma length_be_bytes [simp]: "length (be_bytes n v) = n"
  by (induction n arbitrary: v) auto

lemma foldl_be_bytes:
  "foldl (\<lambda>w b. push_bit 8 w OR ucast b) 0 (be_bytes n v) = take_bit (8 * n) v"
proof (induction n arbitrary: v)
  case (Suc n)
  show ?case
    by (rule bit_word_eqI) (auto simp: Suc bit_simps)
qed simp

lemma readU64_be_bytes [simp, wire_simps]: "readU64 (be_bytes 8 v @ r) = v"
  by (simp add: readU64_def foldl_be_bytes del: be_bytes.simps)

lemma readU64_bound: "readU64 (be_bytes 8 v) = v"
  using readU64_be_bytes [of v "[]"] by simp

section \<open>Frames round trip\<close>

definition encodeField :: "BinaryField \<Rightarrow> bytes" where
  "encodeField f = field_byte (fid f) # pushU16 [] (of_nat (length (fvalue f))) @ fvalue f"

definition wf_field :: "BinaryField \<Rightarrow> bool" where
  "wf_field f \<longleftrightarrow> wf_fieldid (fid f) \<and> length (fvalue f) \<le> 65535"

definition frameHeader :: "Opcode \<Rightarrow> u8 \<Rightarrow> nat \<Rightarrow> u32 \<Rightarrow> u32 \<Rightarrow> bytes" where
  "frameHeader op fl n s plen =
     pushU16 [] SQUID_MAGIC @ [opcode_byte op, fl, of_nat n] @ pushU32 [] s @ pushU32 [] plen"

lemma length_frameHeader [simp]: "length (frameHeader op fl n s plen) = FRAME_HEADER_SIZE"
  by (simp add: frameHeader_def FRAME_HEADER_SIZE_def)

lemma pushFields_ok:
  "\<forall>f\<in>set fs. length (fvalue f) \<le> 65535 \<Longrightarrow>
   pushFields frame fs = Inr (frame @ concat (map encodeField fs))"
proof (induction fs arbitrary: frame)
  case (Cons f fs)
  then show ?case
    by (simp add: encodeField_def pushU16_app [of "frame @ _"])
qed simp

lemma pushFields_too_long:
  "f \<in> set fs \<Longrightarrow> length (fvalue f) > 65535 \<Longrightarrow> pushFields frame fs = Inl FieldValueTooLong"
  by (induction fs arbitrary: frame) auto

lemma buildFrame_ok:
  assumes "length fs \<le> 255" and "\<forall>f\<in>set fs. length (fvalue f) \<le> 65535"
  shows "buildFrame op fl fs plen =
           Inr (frameHeader op fl (length fs) 0 plen @ concat (map encodeField fs))"
proof -
  have "pushU32 (pushU32 (pushU16 [] SQUID_MAGIC @ [opcode_byte op, fl, of_nat (length fs)]) 0) plen =
        frameHeader op fl (length fs) 0 plen"
    by (simp add: frameHeader_def pushU32_app [of "_ @ _"] pushU32_app [of "pushU32 _ _"])
  with assms show ?thesis
    by (simp add: buildFrame_def pushFields_ok)
qed

text \<open>The builder succeeds exactly within the limits of the header fields.\<close>

lemma buildFrame_Inr_iff:
  "(\<exists>frame. buildFrame op fl fs plen = Inr frame) \<longleftrightarrow>
     length fs \<le> 255 \<and> (\<forall>f\<in>set fs. length (fvalue f) \<le> 65535)"
proof (cases "length fs \<le> 255 \<and> (\<forall>f\<in>set fs. length (fvalue f) \<le> 65535)")
  case True
  then show ?thesis
    by (simp add: buildFrame_ok)
next
  case False
  then have "\<exists>e. buildFrame op fl fs plen = Inl e"
    by (auto simp: buildFrame_def not_le pushFields_too_long)
  with False show ?thesis
    by auto
qed

lemma stampSeq_header:
  "stampSeq (frameHeader op fl n s plen @ body) s' = frameHeader op fl n s' plen @ body"
  by (simp add: stampSeq_def frameHeader_def FRAME_HEADER_SIZE_def pushU16_def pushU32_def
      numeral_eq_Suc)

lemma parseFields_encode:
  "\<forall>f\<in>set fs. wf_field f \<Longrightarrow> parseFields (length fs) (concat (map encodeField fs) @ r) = Inr fs"
proof (induction fs)
  case (Cons f fs)
  let ?tail = "fvalue f @ concat (map encodeField fs) @ r"
  have eq: "concat (map encodeField (f # fs)) @ r =
      field_byte (fid f) # pushU16 [] (of_nat (length (fvalue f))) @ ?tail"
    by (simp add: encodeField_def)
  have "length (fvalue f) < 2 ^ LENGTH(16)"
    using Cons.prems by (simp add: wf_field_def)
  then have vlen: "unat (of_nat (length (fvalue f)) :: u16) = length (fvalue f)"
    by (rule unat_of_nat_small)
  have "drop 3 (field_byte (fid f) # pushU16 [] (of_nat (length (fvalue f))) @ ?tail) = ?tail"
    by (simp add: pushU16_def)
  moreover have "field_of_byte (field_byte (fid f)) = fid f"
    using Cons.prems by (simp add: wf_field_def wf_fieldid_def)
  ultimately show ?case
    using Cons unfolding eq by (simp add: vlen Let_def)
qed simp

text \<open>
  A frame built and stamped is parsed to exactly the message it was built from, whatever payload
  bytes follow the fields.
\<close>

lemma parse_frame:
  assumes "wf_opcode op" and "length fs \<le> 255" and "\<forall>f\<in>set fs. wf_field f"
  shows "parseMessage (frameHeader op fl (length fs) s plen @ concat (map encodeField fs) @ r) =
           Inr \<lparr>opcode = op, flags = fl, seq = s, payloadLen = plen, mfields = fs\<rparr>"
proof -
  let ?f = "frameHeader op fl (length fs) s plen @ concat (map encodeField fs) @ r"
  have len: "\<not> length ?f < FRAME_HEADER_SIZE"
    by simp
  have magic: "readU16 ?f = SQUID_MAGIC"
    by (simp add: frameHeader_def)
  have ix: "?f ! 2 = opcode_byte op" "?f ! 3 = fl" "?f ! 4 = of_nat (length fs)"
    by (simp_all add: frameHeader_def pushU16_def numeral_eq_Suc)
  have dr: "drop 5 ?f = pushU32 [] s @ pushU32 [] plen @ concat (map encodeField fs) @ r"
      "drop 9 ?f = pushU32 [] plen @ concat (map encodeField fs) @ r"
      "drop FRAME_HEADER_SIZE ?f = concat (map encodeField fs) @ r"
    by (simp_all add: frameHeader_def FRAME_HEADER_SIZE_def)
  have nf: "unat (of_nat (length fs) :: u8) = length fs"
    using assms(2) by (intro unat_of_nat_small) simp
  from len magic assms show ?thesis
    unfolding parseMessage_def ix dr nf
    by (simp add: parseFields_encode wf_opcode_def)
qed

text \<open>
  Conversely, whatever the parser accepts is the encoding of the message it returns, followed by
  the bytes it did not look at: the encoding is canonical and no accepted frame is read past its end.
\<close>

lemma parseFields_canonical:
  "parseFields n p = Inr fs \<Longrightarrow>
     length fs = n \<and> (\<forall>f\<in>set fs. wf_field f) \<and> (\<exists>r. p = concat (map encodeField fs) @ r)"
proof (induction n arbitrary: p fs)
  case (Suc n)
  let ?vlen = "unat (readU16 (drop 1 p))"
  let ?q = "drop 3 p"
  from Suc.prems obtain fs' where len: "3 \<le> length p" "?vlen \<le> length ?q"
    and rec: "parseFields n (drop ?vlen ?q) = Inr fs'"
    and fs: "fs = \<lparr>fid = field_of_byte (p ! 0), fvalue = take ?vlen ?q\<rparr> # fs'"
    by (auto simp: Let_def not_less split: if_splits sum.splits)
  from Suc.IH [OF rec] obtain r where IH: "length fs' = n" "\<forall>f\<in>set fs'. wf_field f"
      "drop ?vlen ?q = concat (map encodeField fs') @ r"
    by blast
  have small: "?vlen \<le> 65535"
    using unsigned_less [of "readU16 (drop 1 p)", where ?'a = nat] by simp
  have "encodeField (hd fs) = take 3 p @ take ?vlen ?q"
  proof -
    have "pushU16 [] (of_nat ?vlen) = take 2 (drop 1 p)"
      using len by simp
    moreover have "take 3 p = p ! 0 # take 2 (drop 1 p)"
      using len by (cases p) simp_all
    ultimately show ?thesis
      using len small by (simp add: fs encodeField_def min_absorb2)
  qed
  then have "\<exists>r. p = concat (map encodeField fs) @ r"
    using IH(3) by (metis append.assoc append_take_drop_id concat.simps(2) fs list.sel(1) list.simps(9))
  moreover have "length fs = Suc n" "\<forall>f\<in>set fs. wf_field f"
    using IH(1,2) small by (auto simp: fs wf_field_def)
  ultimately show ?case
    by blast
qed simp

lemma parse_canonical:
  assumes "parseMessage frame = Inr m"
  shows "\<exists>r. frame = frameHeader (opcode m) (flags m) (length (mfields m)) (seq m) (payloadLen m) @
                     concat (map encodeField (mfields m)) @ r"
proof -
  from assms have len: "FRAME_HEADER_SIZE \<le> length frame" and magic: "readU16 frame = SQUID_MAGIC"
    and pf: "parseFields (unat (frame ! 4)) (drop FRAME_HEADER_SIZE frame) = Inr (mfields m)"
    and m: "opcode m = opcode_of_byte (frame ! 2)" "flags m = frame ! 3"
      "seq m = readU32 (drop 5 frame)" "payloadLen m = readU32 (drop 9 frame)"
    by (auto simp: parseMessage_def not_less split: if_splits sum.splits)
  from parseFields_canonical [OF pf] obtain r where n: "length (mfields m) = unat (frame ! 4)"
    and r: "drop FRAME_HEADER_SIZE frame = concat (map encodeField (mfields m)) @ r"
    by blast
  have "take 13 frame = take 2 frame @ [frame ! 2, frame ! 3, frame ! 4] @
          take 4 (drop 5 frame) @ take 4 (drop 9 frame)"
  proof (rule nth_equalityI)
    fix i assume "i < length (take 13 frame)"
    then have "i \<in> set [0..<13]" and "i < length frame"
      by auto
    then show "take 13 frame ! i = (take 2 frame @ [frame ! 2, frame ! 3, frame ! 4] @
          take 4 (drop 5 frame) @ take 4 (drop 9 frame)) ! i"
      using len by (auto simp: upt_rec numeral_eq_Suc nth_append FRAME_HEADER_SIZE_def nth_Cons')
  qed (use len in \<open>simp add: FRAME_HEADER_SIZE_def\<close>)
  moreover have "frameHeader (opcode m) (flags m) (length (mfields m)) (seq m) (payloadLen m) =
      take 2 frame @ [frame ! 2, frame ! 3, frame ! 4] @ take 4 (drop 5 frame) @ take 4 (drop 9 frame)"
    using len magic by (simp add: frameHeader_def m n FRAME_HEADER_SIZE_def flip: magic)
  ultimately have "take FRAME_HEADER_SIZE frame =
      frameHeader (opcode m) (flags m) (length (mfields m)) (seq m) (payloadLen m)"
    by (simp add: FRAME_HEADER_SIZE_def)
  then show ?thesis
    using r by (metis append_take_drop_id)
qed

section \<open>Accessors on the messages of the protocol\<close>

lemma field_simps_wire [simp]:
  "fid (fieldString i s) = i" "fvalue (fieldString i s) = bytes_of_string s"
  "fid (fieldUint32 i v) = i" "fvalue (fieldUint32 i v) = pushU32 [] v"
  "fid (fieldUint64 i w) = i" "fvalue (fieldUint64 i w) = be_bytes 8 w"
  "fid (fieldBool i b) = i" "fvalue (fieldBool i b) = [if b then 1 else 0]"
  by (simp_all add: fieldString_def fieldUint32_def fieldUint64_def fieldBool_def pushU32_def)

lemma wf_field_simps [simp]:
  "wf_field (fieldString i s) \<longleftrightarrow> wf_fieldid i \<and> length s \<le> 65535"
  "wf_field (fieldUint32 i v) \<longleftrightarrow> wf_fieldid i"
  "wf_field (fieldUint64 i w) \<longleftrightarrow> wf_fieldid i"
  "wf_field (fieldBool i b) \<longleftrightarrow> wf_fieldid i"
  by (auto simp: wf_field_def simp del: be_bytes.simps)

lemma wf_named [simp]:
  "wf_fieldid FILE_PATH" "wf_fieldid FILE_VERSION" "wf_fieldid NODE_TYPE" "wf_fieldid PROCESS_NAME"
  "wf_fieldid PORT" "wf_fieldid ACK" "wf_fieldid FILE_ENTRY" "wf_fieldid VER_ENTRY"
  "wf_fieldid EPOCH" "wf_fieldid DELTA_OP" "wf_fieldid DATANODE_NAME" "wf_fieldid SNAP_ENTRY"
  by (simp_all add: named_fields_def)

lemma wf_opcodes [simp]:
  "wf_opcode CONNECT_SERVER" "wf_opcode IDENTIFY" "wf_opcode CLOSE" "wf_opcode HEARTBEAT"
  "wf_opcode SYNC_STATUS" "wf_opcode CREATE_FILE" "wf_opcode READ_FILE" "wf_opcode UPDATE_FILE"
  "wf_opcode DELETE_FILE" "wf_opcode ACQUIRE_LOCK" "wf_opcode RELEASE_LOCK"
  "wf_opcode PUSH_CREATE_FILE" "wf_opcode PUSH_UPDATE_FILE" "wf_opcode PUSH_DELETE_FILE"
  "wf_opcode STATE_SNAP" "wf_opcode STATE_DELTA" "wf_opcode LEADER_HB" "wf_opcode NACK_STALE_EPOCH"
  "wf_opcode RESPONSE"
  by (simp_all add: named_opcodes_def)

lemmas accessor_defs = findField_def getString_def getUint32_def getUint64_def getBool_def
  isResponse_def isAck_def FLAG_RESPONSE_def

lemma makeNack_simps [simp]: "\<not> isAck makeNack" "isResponse makeNack" "opcode makeNack = RESPONSE"
  "mfields makeNack = [fieldBool ACK False]"
  by (simp_all add: makeNack_def accessor_defs)

lemma makeAck_simps [simp]: "isAck makeAck" "isResponse makeAck" "mfields makeAck = [fieldBool ACK True]"
  by (simp_all add: makeAck_def accessor_defs)

subsection \<open>The version map\<close>

lemma collectEntries_versionMap:
  "collectEntries (versionMapFields m) (fls, vs) =
     (fls @ map fst m, vs @ map (\<lambda>e. u32_of_int (snd e)) m)"
  by (induction m arbitrary: fls vs) (auto simp: versionMapFields_def)

lemma getFileVersionMap_versionMap:
  assumes "om_ok m" and "\<forall>e\<in>set m. int_range (snd e)" and "mfields msg = versionMapFields m"
  shows "getFileVersionMap msg = m"
proof -
  have "fold (\<lambda>(f, v). om_put f (int_of_u32 v)) (zip (map fst m) (map (\<lambda>e. u32_of_int (snd e)) m)) acc =
        fold (\<lambda>(k, v). om_put k v) m acc" for acc
    using assms(2) by (induction m arbitrary: acc) auto
  with assms show ?thesis
    by (simp add: getFileVersionMap_def collectEntries_versionMap om_rebuild)
qed

lemma length_versionMapFields: "length (versionMapFields m) = 2 * length m"
  by (induction m) (auto simp: versionMapFields_def)

lemma wf_versionMapFields:
  "\<forall>e\<in>set m. length (fst e) \<le> 65535 \<Longrightarrow> \<forall>f\<in>set (versionMapFields m). wf_field f"
  by (auto simp: versionMapFields_def)

subsection \<open>Snapshot entries\<close>

definition plain_datanode :: "string \<Rightarrow> bool" where
  "plain_datanode s \<longleftrightarrow> plain_name s \<and> CHR '','' \<notin> set s"

lemma join_with_plain:
  "\<forall>d\<in>set dns. plain_datanode d \<Longrightarrow> c \<in> set (join_with (CHR '','') dns) \<Longrightarrow> \<not> is_space c"
  using set_join_with [of "CHR '',''" dns]
  by (fastforce simp: plain_datanode_def plain_name_def is_space_def)

lemma join_with_nonempty:
  "dns \<noteq> [] \<Longrightarrow> \<forall>d\<in>set dns. plain_datanode d \<Longrightarrow> join_with (CHR '','') dns \<noteq> []"
  by (cases dns; cases "tl dns") (auto simp: plain_datanode_def plain_name_def)

lemma parseSnapEntry_snapEntry:
  assumes "plain_name path" and "int_range v" and "om_find repMap path = Some dns"
    and "os_ok dns" and "\<forall>d\<in>set dns. plain_datanode d"
  shows "parseSnapEntry (snapEntry repMap (path, v)) = Some (path, v, dns)"
proof -
  let ?tail = "if dns = [] then '''' else '' '' @ join_with (CHR '','') dns"
  have 1: "read_word (path @ '' '' @ show_int v @ ?tail) = Some (path, '' '' @ show_int v @ ?tail)"
    using assms(1) by (intro read_word_app) (auto simp: plain_name_def)
  have "\<not> starts_with is_digit ?tail"
    by (auto simp: is_digit_def)
  then have "read_int (show_int v @ ?tail) = Some (v, ?tail)"
    using assms(2) by (rule read_int_show_int [rotated])
  then have 2: "read_int ('' '' @ show_int v @ ?tail) = Some (v, ?tail)"
    by (simp add: read_int_Cons_space)
  have 3: "parseSnapEntry (path @ '' '' @ show_int v @ ?tail) =
      (case read_word ?tail of None \<Rightarrow> Some (path, v, [])
       | Some (dnList, _) \<Rightarrow>
           Some (path, v, fold os_insert (filter (\<lambda>dn. dn \<noteq> []) (split_on (CHR '','') dnList)) []))"
    by (simp only: parseSnapEntry_def 1 2 option.case prod.case)
  show ?thesis
  proof (cases "dns = []")
    case True
    have "read_word '''' = None"
      by (simp add: read_word_def skip_ws_def)
    with True 3 assms(3) show ?thesis
      by (simp add: snapEntry_def)
  next
    case False
    let ?j = "join_with (CHR '','') dns"
    have "read_word (?j @ []) = Some (?j, [])"
      using False assms(5) by (intro read_word_app) (auto simp: join_with_nonempty join_with_plain)
    then have rw: "read_word ('' '' @ ?j) = Some (?j, [])"
      by (simp add: read_word_Cons_space)
    have "split_on (CHR '','') ?j = dns"
      using False assms(5) by (intro split_on_join) (auto simp: plain_datanode_def)
    moreover have "filter (\<lambda>dn. dn \<noteq> []) dns = dns"
      using assms(5) by (auto simp: plain_datanode_def plain_name_def intro!: filter_True)
    ultimately show ?thesis
      using False 3 rw assms(3) os_of_list_id [OF assms(4)]
      by (simp add: snapEntry_def os_of_list_def)
  qed
qed

section \<open>Properties\<close>

text \<open>
  C22: a frame that the builder returns, once stamped with a sequence number, is parsed back to the
  message it was built from: opcode, flags, the stamped sequence number, the payload length and
  every field in order, whatever payload bytes follow on the wire.
\<close>

theorem frame_roundtrip:
  assumes "buildFrame op fl fs plen = Inr frame"
    and "wf_opcode op" and "\<forall>f\<in>set fs. wf_fieldid (fid f)"
  shows "parseMessage (stampSeq frame s @ payload) =
           Inr \<lparr>opcode = op, flags = fl, seq = s, payloadLen = plen, mfields = fs\<rparr>"
proof -
  from assms(1) have lim: "length fs \<le> 255" "\<forall>f\<in>set fs. length (fvalue f) \<le> 65535"
    using buildFrame_Inr_iff [of op fl fs plen] by blast+
  then have "stampSeq frame s = frameHeader op fl (length fs) s plen @ concat (map encodeField fs)"
    using assms(1) by (auto simp: buildFrame_ok stampSeq_header)
  then show ?thesis
    using assms(2,3) lim by (simp add: parse_frame wf_field_def)
qed

theorem frame_roundtrip_witness:
  "\<exists>frame. buildFrame UPDATE_FILE 0 [fieldString FILE_PATH ''a.txt'', fieldUint32 FILE_VERSION 7] 0 = Inr frame
     \<and> parseMessage (stampSeq frame 9 @ [1, 2]) =
         Inr \<lparr>opcode = UPDATE_FILE, flags = 0, seq = 9, payloadLen = 0,
              mfields = [fieldString FILE_PATH ''a.txt'', fieldUint32 FILE_VERSION 7]\<rparr>"
proof -
  obtain frame where
    "buildFrame UPDATE_FILE 0 [fieldString FILE_PATH ''a.txt'', fieldUint32 FILE_VERSION 7] 0 = Inr frame"
    by (simp add: buildFrame_ok)
  with frame_roundtrip [OF this, of 9 "[1, 2]"] show ?thesis
    by simp
qed

text \<open>
  The encoding is canonical. Every frame the parser accepts is the stamped output of the frame
  builder for the message it returns, followed by payload bytes; so no two messages share a frame,
  and everything outside the builder's image (short frames, wrong magic, fields cut short) is
  rejected.
\<close>

theorem parse_accepts_canonical:
  assumes "parseMessage frame = Inr m"
  shows "\<exists>f0 payload. buildFrame (opcode m) (flags m) (mfields m) (payloadLen m) = Inr f0 \<and>
           frame = stampSeq f0 (seq m) @ payload"
proof -
  from assms have pf: "parseFields (unat (frame ! 4)) (drop FRAME_HEADER_SIZE frame) = Inr (mfields m)"
    by (auto simp: parseMessage_def split: if_splits sum.splits)
  have "unat (frame ! 4) \<le> 255"
    using unsigned_less [of "frame ! 4", where ?'a = nat] by simp
  with parseFields_canonical [OF pf]
  have "length (mfields m) \<le> 255" "\<forall>f\<in>set (mfields m). length (fvalue f) \<le> 65535"
    by (auto simp: wf_field_def)
  then show ?thesis
    using parse_canonical [OF assms] by (auto simp: buildFrame_ok stampSeq_header simp flip: append_assoc)
qed

theorem parse_accepts_canonical_witness:
  "parseMessage [0x53, 0x51, 0x04, 0, 0, 0, 0, 0, 5, 0, 0, 0, 0] =
     Inr \<lparr>opcode = HEARTBEAT, flags = 0, seq = 5, payloadLen = 0, mfields = []\<rparr> \<and>
   (\<exists>f0 payload. buildFrame HEARTBEAT 0 [] 0 = Inr f0 \<and>
      [0x53, 0x51, 0x04, 0, 0, 0, 0, 0, 5, 0, 0, 0, 0] = stampSeq f0 5 @ payload)"
proof -
  have p: "parseMessage [0x53, 0x51, 0x04, 0, 0, 0, 0, 0, 5, 0, 0, 0, 0] =
     Inr \<lparr>opcode = HEARTBEAT, flags = 0, seq = 5, payloadLen = 0, mfields = []\<rparr>"
    by (simp add: parseMessage_def FRAME_HEADER_SIZE_def readU16_def readU32_def SQUID_MAGIC_def
        opcode_of_byte_def named_opcodes_def)
  show ?thesis
    using p parse_accepts_canonical [OF p] by simp
qed

text \<open>
  C21: the version map survives the wire: the answer to \<open>SYNC_STATUS\<close>, built from any map of at most
  127 paths of at most 65535 bytes, is parsed by the receiver to a response whose
  \<open>getFileVersionMap\<close> is the map that was sent.
\<close>

theorem version_map_roundtrip:
  assumes "om_ok m" and "length m \<le> 127"
    and "\<forall>e\<in>set m. length (fst e) \<le> 65535 \<and> int_range (snd e)"
  shows "\<exists>frame msg. responseFileVersionMap m = Inr frame \<and>
           parseMessage (stampSeq frame s) = Inr msg \<and> isResponse msg \<and> getFileVersionMap msg = m"
proof -
  let ?fs = "versionMapFields m"
  let ?msg = "\<lparr>opcode = RESPONSE, flags = FLAG_RESPONSE, seq = s, payloadLen = 0, mfields = ?fs\<rparr>"
  have wf: "\<forall>f\<in>set ?fs. wf_field f"
    using assms(3) by (intro wf_versionMapFields) auto
  have len: "length ?fs \<le> 255"
    using assms(2) by (simp add: length_versionMapFields)
  have "responseFileVersionMap m =
      Inr (frameHeader RESPONSE FLAG_RESPONSE (length ?fs) 0 0 @ concat (map encodeField ?fs))"
    using wf len by (simp add: responseFileVersionMap_def buildFrame_ok wf_field_def)
  moreover have "parseMessage (stampSeq (frameHeader RESPONSE FLAG_RESPONSE (length ?fs) 0 0 @
      concat (map encodeField ?fs)) s) = Inr ?msg"
    using wf len parse_frame [of RESPONSE ?fs FLAG_RESPONSE s 0 "[]"] by (simp add: stampSeq_header)
  moreover have "isResponse ?msg"
    by (simp add: accessor_defs)
  moreover have "getFileVersionMap ?msg = m"
    using assms by (intro getFileVersionMap_versionMap) auto
  ultimately show ?thesis
    by blast
qed

theorem version_map_roundtrip_witness:
  "\<exists>frame msg. responseFileVersionMap [(''a'', 3), (''b'', -1)] = Inr frame \<and>
     parseMessage (stampSeq frame 0) = Inr msg \<and> isResponse msg \<and>
     getFileVersionMap msg = [(''a'', 3), (''b'', -1)]"
  by (rule version_map_roundtrip) (auto simp: om_ok_def int_range_def less_char_def)

text \<open>
  With more than 127 files there is no such answer: the frame builder throws, since every file
  takes two of the at most 255 fields of a frame. For the same reason no snapshot frame can be built
  for more than 254 files.
\<close>

theorem version_map_limit:
  "(127 < length m \<longrightarrow> responseFileVersionMap m = Inl TooManyFields) \<and>
   (254 < length m \<longrightarrow> stateSnapFormat m repMap epoch = Inl TooManyFields)"
  by (simp add: responseFileVersionMap_def stateSnapFormat_def buildFrame_def length_versionMapFields)

theorem version_map_limit_witness:
  "responseFileVersionMap (map (\<lambda>i. (replicate i (CHR ''x''), 0)) [0..<255]) = Inl TooManyFields \<and>
   stateSnapFormat (map (\<lambda>i. (replicate i (CHR ''x''), 0)) [0..<255]) [] 0 = Inl TooManyFields"
proof -
  have "254 < length (map (\<lambda>i. (replicate i (CHR ''x''), 0 :: int)) [0..<255])"
    by (simp only: length_map length_upt)
  then show ?thesis
    using version_map_limit [of "map (\<lambda>i. (replicate i (CHR ''x''), 0)) [0..<255]" "[]" 0] by linarith
qed

end
