(* ===== verification/File_Transfer.thy ===== *)
theory File_Transfer
  imports Net_Channel File_Manager Wire_Format
begin

text \<open>
  The raw transfer of file contents between two frames: \<open>common/src/filesystem/filetransfer\<close>. The
  sender writes the size as eight bytes, most significant first, and then the content in pieces of
  at most \<open>BUFFER_SIZE\<close>; the receiver reads them back, into memory or into a file. The main result is
  that whatever is sent is received, no matter how the network fragments the stream, and that a
  failed reception never leaves a partial file.
\<close>

section \<open>The send and receive loops\<close>

definition BUFFER_SIZE :: nat where
  "BUFFER_SIZE = 1024 * 1024"

definition FILETRANSFER_MAX_SIZE :: u64 where
  "FILETRANSFER_MAX_SIZE = push_bit 30 1"

function sendLoop :: "channel \<Rightarrow> bytes \<Rightarrow> int \<Rightarrow> int \<times> channel" where
  "sendLoop c rest sofar =
     (if rest = [] then (sofar, c)
      else let (n, c') = writeBytes c rest
           in if n > 0 then sendLoop c' (drop (nat n) rest) (sofar + n)
              else if n = 0 then (0, c')
              else (-1, c'))"
  by pat_completeness auto
termination
  by (relation "measure (\<lambda>(c, rest, sofar). length rest)") auto

definition sendAll :: "channel \<Rightarrow> bytes \<Rightarrow> int \<times> channel" where
  "sendAll c buf = sendLoop c buf 0"

function recvLoop :: "channel \<Rightarrow> nat \<Rightarrow> bytes \<Rightarrow> int \<times> bytes \<times> channel" where
  "recvLoop c len buf =
     (if length buf < len then
        let (n, bs, c') = readBytes c (len - length buf)
        in if n > 0 then recvLoop c' len (buf @ bs)
           else if n = 0 then (0, buf, c')
           else (-1, buf, c')
      else (int (length buf), buf, c))"
  by pat_completeness auto
termination
proof (relation "measure (\<lambda>(c, len, buf). len - length buf)", goal_cases)
  case (2 c len buf x n y bs c')
  then show ?case
    using readBytes_shrinks [of n bs c' c "len - length buf"] by (cases bs) auto
qed simp

definition recvAll :: "channel \<Rightarrow> nat \<Rightarrow> int \<times> bytes \<times> channel" where
  "recvAll c len = recvLoop c len []"

definition handleErrors :: "int \<Rightarrow> bool" where
  "handleErrors n \<longleftrightarrow> (if n = 0 then False else if n < 0 then False else True)"

section \<open>Sending\<close>

function sendChunks :: "channel \<Rightarrow> bytes \<Rightarrow> bool \<times> channel" where
  "sendChunks c rest =
     (if rest = [] then (True, c)
      else let chunk = min BUFFER_SIZE (length rest); (s, c') = sendAll c (take chunk rest)
           in if handleErrors s then sendChunks c' (drop chunk rest) else (False, c'))"
  by pat_completeness auto
termination
  by (relation "measure (\<lambda>(c, rest). length rest)") (auto simp: BUFFER_SIZE_def)

definition sendSized :: "channel \<Rightarrow> bytes \<Rightarrow> bool \<times> channel" where
  \<comment> \<open>the size, then the content\<close>
  "sendSized c content =
     (let (n, c') = sendAll c (be_bytes 8 (of_nat (length content)))
      in if handleErrors n then sendChunks c' content else (False, c'))"

definition sendFileVec :: "channel \<Rightarrow> bytes \<Rightarrow> bool \<times> channel" where
  "sendFileVec c content =
     (if length content > unat FILETRANSFER_MAX_SIZE then (False, c) else sendSized c content)"

definition sendFilePath :: "disk \<Rightarrow> channel \<Rightarrow> string \<Rightarrow> bool \<times> channel" where
  "sendFilePath d c path =
     (case readDisk d (resolvePath (root d) path) of
        None \<Rightarrow> (False, c)
      | Some content \<Rightarrow>
          if length content > unat FILETRANSFER_MAX_SIZE then (False, c) else sendSized c content)"

section \<open>Receiving\<close>

function recvChunks :: "channel \<Rightarrow> nat \<Rightarrow> bytes \<Rightarrow> bool \<times> bytes \<times> channel" where
  "recvChunks c remaining acc =
     (if remaining > 0 then
        let chunk = (if remaining > BUFFER_SIZE then BUFFER_SIZE else remaining);
            (r, bs, c') = recvAll c chunk
        in if handleErrors r then recvChunks c' (remaining - nat r) (acc @ bs) else (False, acc, c')
      else (True, acc, c))"
  by pat_completeness auto
termination
  by (relation "measure (\<lambda>(c, remaining, acc). remaining)") (auto simp: handleErrors_def split: if_splits)

definition receiveFileVec :: "channel \<Rightarrow> bytes \<Rightarrow> bool \<times> bytes \<times> channel" where
  \<comment> \<open>the second argument is what the output vector held before\<close>
  "receiveFileVec c old =
     (let (n, sizebuf, c1) = recvAll c 8
      in if \<not> handleErrors n then (False, old, c1)
         else let filesize = readU64 sizebuf
              in if filesize > FILETRANSFER_MAX_SIZE then (False, old, c1)
                 else let (ok, content, c2) = recvChunks c1 (unat filesize) []
                      in if ok then (True, content, c2) else (False, [], c2))"

definition receiveFilePath :: "disk \<Rightarrow> channel \<Rightarrow> string \<Rightarrow> bool \<times> disk \<times> channel" where
  \<comment> \<open>the file is truncated before the first byte arrives and removed on every failure\<close>
  "receiveFilePath d c path =
     (let fullPath = resolvePath (root d) path
      in if fullPath \<in> set (unopenable d) then (False, d, c)
         else let d0 = writeDisk d fullPath []; (n, sizebuf, c1) = recvAll c 8
              in if \<not> handleErrors n then (False, snd (removeDisk d0 fullPath), c1)
                 else let filesize = readU64 sizebuf
                      in if filesize > FILETRANSFER_MAX_SIZE then (False, snd (removeDisk d0 fullPath), c1)
                         else let (ok, content, c2) = recvChunks c1 (unat filesize) []
                              in if ok then (True, writeDisk d0 fullPath content, c2)
                                 else (False, snd (removeDisk d0 fullPath), c2))"

declare sendLoop.simps [simp del] recvLoop.simps [simp del] sendChunks.simps [simp del] recvChunks.simps [simp del]

section \<open>The loops meet the contracts of the channel\<close>

lemma handleErrors_iff [simp]: "handleErrors n \<longleftrightarrow> 0 < n"
  by (simp add: handleErrors_def)

definition recvChecked :: "channel \<Rightarrow> nat \<Rightarrow> bool \<times> bytes \<times> channel" where
  "recvChecked c n = (let (r, bs, c') = recvAll c n in (handleErrors r, bs, c'))"

definition sendChecked :: "channel \<Rightarrow> bytes \<Rightarrow> bool \<times> channel" where
  "sendChecked c bs = (let (r, c') = sendAll c bs in (handleErrors r, c'))"

lemma recvLoop_ok:
  assumes "length buf \<le> len" and "len - length buf \<le> length (rx_avail c)"
  shows "\<exists>c'. recvLoop c len buf = (int len, buf @ take (len - length buf) (rx_avail c), c') \<and>
    rx_avail c' = drop (len - length buf) (rx_avail c) \<and> tx_side c' = tx_side c"
  using assms
proof (induction c len buf rule: recvLoop.induct)
  case (1 c len buf)
  show ?case
  proof (cases "length buf < len")
    case True
    with "1.prems" have "rx_avail c \<noteq> []" "0 < len - length buf"
      by auto
    then obtain k c1 where rd: "readBytes c (len - length buf) = (int k, take k (rx_avail c), c1)"
      and k: "0 < k" "k \<le> len - length buf" "k \<le> length (rx_avail c)"
      and c1: "rx_avail c1 = drop k (rx_avail c)" "tx_side c1 = tx_side c"
      using readBytes_some by blast
    have "\<exists>c'. recvLoop c1 len (buf @ take k (rx_avail c)) =
        (int len, (buf @ take k (rx_avail c)) @ take (len - length (buf @ take k (rx_avail c))) (rx_avail c1), c') \<and>
        rx_avail c' = drop (len - length (buf @ take k (rx_avail c))) (rx_avail c1) \<and> tx_side c' = tx_side c1"
      using True k "1.prems" c1 by (intro "1.IH" [OF _ rd [symmetric] refl]) auto
    moreover have "take k (rx_avail c) @ take (len - length buf - k) (drop k (rx_avail c)) =
        take (len - length buf) (rx_avail c)"
      using k take_add [of k "len - length buf - k" "rx_avail c"] by simp
    ultimately show ?thesis
      using True k c1 by (subst recvLoop.simps) (auto simp: rd min_absorb2)
  next
    case False
    with "1.prems" show ?thesis
      by (subst recvLoop.simps) simp
  qed
qed

lemma recvLoop_short:
  assumes "length (rx_avail c) < len - length buf"
  shows "fst (recvLoop c len buf) \<le> 0"
  using assms
proof (induction c len buf rule: recvLoop.induct)
  case (1 c len buf)
  obtain n bs c1 where rd: "readBytes c (len - length buf) = (n, bs, c1)"
    by (cases "readBytes c (len - length buf)")
  have less: "length buf < len"
    using "1.prems" by simp
  show ?case
  proof (cases "0 < n")
    case True
    then have "rx_avail c \<noteq> []"
      using readBytes_none(1) [of c "len - length buf"] rd by auto
    moreover have "0 < len - length buf"
      using "1.prems" by simp
    ultimately obtain k where k: "bs = take k (rx_avail c)" "rx_avail c1 = drop k (rx_avail c)" "n = int k"
        "k \<le> length (rx_avail c)"
      using readBytes_some [of c "len - length buf"] rd by fastforce
    have "fst (recvLoop c1 len (buf @ bs)) \<le> 0"
      using "1.prems" k by (intro "1.IH" [OF _ refl rd [symmetric] refl True]) auto
    with True less show ?thesis
      by (subst recvLoop.simps) (simp add: rd)
  next
    case False
    with less show ?thesis
      by (subst recvLoop.simps) (simp add: rd)
  qed
qed

lemma sendLoop_law:
  "sendLoop c rest sofar = (r, c') \<Longrightarrow>
   rx_side c' = rx_side c \<and> (\<exists>k. tx c' = tx c @ take k rest) \<and>
   (r > 0 \<and> sofar \<ge> 0 \<longrightarrow> tx c' = tx c @ rest) \<and>
   (tx_ready c \<longrightarrow> tx_ready c' \<and> r = sofar + int (length rest))"
proof (induction c rest sofar arbitrary: r c' rule: sendLoop.induct)
  case (1 c rest sofar)
  show ?case
  proof (cases "rest = []")
    case True
    with "1.prems" show ?thesis
      by (simp add: sendLoop.simps)
  next
    case False
    obtain n c1 where w: "writeBytes c rest = (n, c1)"
      by fastforce
    note W = writeBytes_tx [OF w] writeBytes_rx [OF w] writeBytes_ready [OF _ False w]
    show ?thesis
    proof (cases "0 < n")
      case True
      from "1.prems" False True have "sendLoop c1 (drop (nat n) rest) (sofar + n) = (r, c')"
        by (subst (asm) sendLoop.simps) (simp add: w)
      from "1.IH" [OF False refl w [symmetric] True this] obtain k where IH: "rx_side c' = rx_side c1"
          "tx c' = tx c1 @ take k (drop (nat n) rest)"
          "r > 0 \<and> sofar + n \<ge> 0 \<longrightarrow> tx c' = tx c1 @ drop (nat n) rest"
          "tx_ready c1 \<longrightarrow> tx_ready c' \<and> r = sofar + n + int (length (drop (nat n) rest))"
        by blast
      moreover have "tx c' = tx c @ take (nat n + k) rest"
        using IH(2) W(1) by (simp add: take_add)
      ultimately show ?thesis
        using W True by (auto intro: exI [of _ "nat n + k"])
    next
      case neg: False
      with "1.prems" False have "c' = c1" "r \<le> 0"
        by (auto simp: sendLoop.simps [of c rest] w split: if_splits)
      with W neg show ?thesis
        by auto
    qed
  qed
qed

lemma be_bytes_8_nonempty [simp]: "be_bytes 8 v \<noteq> []"
  by (metis length_be_bytes list.size(3) zero_neq_numeral)

interpretation recv_all: exact_reader recvChecked rx_avail tx_side
proof
  fix n c
  assume "0 < n" "n \<le> length (rx_avail c)"
  with recvLoop_ok [of "[]" n c]
  show "\<exists>c'. recvChecked c n = (True, take n (rx_avail c), c') \<and> rx_avail c' = drop n (rx_avail c) \<and>
      tx_side c' = tx_side c"
    by (auto simp: recvChecked_def recvAll_def)
next
  fix n c
  assume "length (rx_avail c) < n"
  then show "\<exists>bs c'. recvChecked c n = (False, bs, c')"
    using recvLoop_short [of c n "[]"] by (auto simp: recvChecked_def recvAll_def split: prod.splits)
qed

interpretation send_all: complete_writer sendChecked tx tx_ready rx_side
proof
  fix c bs ok c'
  assume "sendChecked c bs = (ok, c')"
  then show "\<exists>k. tx c' = tx c @ take k bs \<and> rx_side c' = rx_side c"
    using sendLoop_law [of c bs 0] by (auto simp: sendChecked_def sendAll_def split: prod.splits)
next
  fix c bs c'
  assume "bs \<noteq> []" "sendChecked c bs = (True, c')"
  then show "tx c' = tx c @ bs"
    using sendLoop_law [of c bs 0] by (auto simp: sendChecked_def sendAll_def split: prod.splits)
next
  fix c :: channel and bs :: bytes
  assume "bs \<noteq> []" "tx_ready c"
  then show "\<exists>c'. sendChecked c bs = (True, c') \<and> tx_ready c'"
    using sendLoop_law [of c bs 0] by (cases "sendLoop c bs 0") (auto simp: sendChecked_def sendAll_def)
qed

section \<open>What a transfer looks like on the wire\<close>

definition wireFile :: "bytes \<Rightarrow> bytes" where
  "wireFile content = be_bytes 8 (of_nat (length content)) @ content"

definition parseTransfer :: "bytes \<Rightarrow> (bytes \<times> bytes) option" where
  \<comment> \<open>the specification of a receiver: the content and what follows it in the stream\<close>
  "parseTransfer s =
     (if length s < 8 \<or> readU64 (take 8 s) > FILETRANSFER_MAX_SIZE then None
      else let n = unat (readU64 (take 8 s))
           in if length s < 8 + n then None else Some (take n (drop 8 s), drop (8 + n) s))"

lemma max_size_val: "unat FILETRANSFER_MAX_SIZE = 1073741824"
  by (simp add: FILETRANSFER_MAX_SIZE_def)

lemma BUFFER_SIZE_pos [simp]: "0 < BUFFER_SIZE"
  by (simp add: BUFFER_SIZE_def)

lemma unat_length_small:
  assumes "length (content :: bytes) \<le> unat FILETRANSFER_MAX_SIZE"
  shows "unat (of_nat (length content) :: u64) = length content"
  using assms by (intro unat_of_nat_small) (simp add: max_size_val)

lemma parseTransfer_wireFile:
  assumes "length content \<le> unat FILETRANSFER_MAX_SIZE"
  shows "parseTransfer (wireFile content @ rest) = Some (content, rest)"
proof -
  have sz: "take 8 (wireFile content @ rest) = be_bytes 8 (of_nat (length content))"
    "drop 8 (wireFile content @ rest) = content @ rest" "length (wireFile content) = 8 + length content"
    by (simp_all add: wireFile_def)
  have "\<not> FILETRANSFER_MAX_SIZE < (of_nat (length content) :: u64)"
    using assms unat_length_small [OF assms] by (simp add: word_less_nat_alt)
  moreover have "drop (8 + length content) (wireFile content @ rest) = rest"
    using sz by simp
  ultimately show ?thesis
    unfolding parseTransfer_def sz(1,2) readU64_bound unat_length_small [OF assms] by (simp add: sz(3))
qed

lemma recvAll_checked: "recvAll c n = (r, bs, c') \<Longrightarrow> recvChecked c n = (0 < r, bs, c')"
  by (simp add: recvChecked_def)

lemma recvAll_count: "recvAll c n = (r, bs, c') \<Longrightarrow> 0 < r \<Longrightarrow> 0 < n \<Longrightarrow> r = int (length bs) \<and> length bs = n"
proof -
  assume r: "recvAll c n = (r, bs, c')" "0 < r" "0 < n"
  then have ok: "recvChecked c n = (True, bs, c')"
    by (simp add: recvChecked_def)
  note S = recv_all.read_success [OF ok r(3)]
  then have "n \<le> length (rx_avail c)"
    by (metis le_add1 length_append)
  with recvLoop_ok [of "[]" n c] r(1) S show ?thesis
    by (auto simp: recvAll_def)
qed

lemma recvChunks_ok:
  assumes "remaining \<le> length (rx_avail c)"
  shows "\<exists>c'. recvChunks c remaining acc = (True, acc @ take remaining (rx_avail c), c') \<and>
    rx_avail c' = drop remaining (rx_avail c) \<and> tx_side c' = tx_side c"
  using assms
proof (induction c remaining acc rule: recvChunks.induct)
  case (1 c remaining acc)
  show ?case
  proof (cases "remaining > 0")
    case True
    define chunk where "chunk = (if remaining > BUFFER_SIZE then BUFFER_SIZE else remaining)"
    then have chunk: "0 < chunk" "chunk \<le> remaining"
      using True by simp_all
    with "1.prems" obtain c1 where rd: "recvAll c chunk = (int chunk, take chunk (rx_avail c), c1)"
      and c1: "rx_avail c1 = drop chunk (rx_avail c)" "tx_side c1 = tx_side c"
      using recvLoop_ok [of "[]" chunk c] by (auto simp: recvAll_def)
    have "\<exists>c'. recvChunks c1 (remaining - nat (int chunk)) (acc @ take chunk (rx_avail c)) =
        (True, (acc @ take chunk (rx_avail c)) @ take (remaining - nat (int chunk)) (rx_avail c1), c') \<and>
        rx_avail c' = drop (remaining - nat (int chunk)) (rx_avail c1) \<and> tx_side c' = tx_side c1"
      using "1.prems" chunk c1 by (intro "1.IH" [OF True chunk_def rd [symmetric] refl refl]) simp_all
    moreover have "take chunk (rx_avail c) @ take (remaining - chunk) (drop chunk (rx_avail c)) =
        take remaining (rx_avail c)"
      using chunk take_add [of chunk "remaining - chunk" "rx_avail c"] by simp
    ultimately show ?thesis
      using True chunk c1 by (subst recvChunks.simps) (auto simp: rd Let_def simp flip: chunk_def)
  next
    case False
    then show ?thesis
      by (subst recvChunks.simps) simp
  qed
qed

lemma recvChunks_short:
  assumes "length (rx_avail c) < remaining"
  shows "\<not> fst (recvChunks c remaining acc)"
  using assms
proof (induction c remaining acc rule: recvChunks.induct)
  case (1 c remaining acc)
  then have pos: "remaining > 0"
    by simp
  define chunk where "chunk = (if remaining > BUFFER_SIZE then BUFFER_SIZE else remaining)"
  then have chunk: "0 < chunk" "chunk \<le> remaining"
    using pos by simp_all
  obtain r bs c1 where rd: "recvAll c chunk = (r, bs, c1)"
    by (cases "recvAll c chunk")
  show ?case
  proof (cases "0 < r")
    case True
    have ok: "recvChecked c chunk = (True, bs, c1)"
      using recvAll_checked [OF rd] True by simp
    have r: "r = int (length bs)"
      using recvAll_count [OF rd True chunk(1)] by simp
    have "length (rx_avail c1) < remaining - nat r"
      using recv_all.read_success [OF ok chunk(1)] "1.prems" r by auto
    then have "\<not> fst (recvChunks c1 (remaining - nat r) (acc @ bs))"
      using True by (intro "1.IH" [OF pos chunk_def rd [symmetric] refl refl]) simp_all
    with pos True show ?thesis
      by (subst recvChunks.simps) (simp add: rd Let_def flip: chunk_def)
  next
    case False
    with pos show ?thesis
      by (subst recvChunks.simps) (simp add: rd Let_def flip: chunk_def)
  qed
qed

text \<open>Both receivers read the size and then the pieces; this is what that yields.\<close>

lemma transfer_Some:
  assumes "parseTransfer (rx_avail c) = Some (content, rest)"
  shows "\<exists>sizebuf c1 c2. recvAll c 8 = (8, sizebuf, c1) \<and> \<not> readU64 sizebuf > FILETRANSFER_MAX_SIZE \<and>
    recvChunks c1 (unat (readU64 sizebuf)) [] = (True, content, c2) \<and> rx_avail c2 = rest \<and> tx_side c2 = tx_side c"
proof -
  let ?sz = "take 8 (rx_avail c)"
  let ?n = "unat (readU64 ?sz)"
  from assms have a: "8 \<le> length (rx_avail c)" "\<not> readU64 ?sz > FILETRANSFER_MAX_SIZE"
      "8 + ?n \<le> length (rx_avail c)" "content = take ?n (drop 8 (rx_avail c))" "rest = drop (8 + ?n) (rx_avail c)"
    by (simp_all add: parseTransfer_def Let_def not_less split: if_splits)
  obtain c1 where c1: "recvAll c 8 = (8, ?sz, c1)" "rx_avail c1 = drop 8 (rx_avail c)" "tx_side c1 = tx_side c"
    using recvLoop_ok [of "[]" 8 c] a(1) by (auto simp: recvAll_def)
  have "?n \<le> length (rx_avail c1)"
    using a(3) c1(2) by simp
  then obtain c2 where "recvChunks c1 ?n [] = (True, content, c2)" "rx_avail c2 = rest" "tx_side c2 = tx_side c"
    using recvChunks_ok [of ?n c1 "[]"] a c1 by (auto simp: add.commute)
  with a c1 show ?thesis
    by blast
qed

lemma transfer_None:
  assumes "parseTransfer (rx_avail c) = None" and "recvAll c 8 = (n, sizebuf, c1)"
  shows "n \<le> 0 \<or> readU64 sizebuf > FILETRANSFER_MAX_SIZE \<or> \<not> fst (recvChunks c1 (unat (readU64 sizebuf)) [])"
proof (rule ccontr)
  assume "\<not> ?thesis"
  then have n: "0 < n" and max: "\<not> readU64 sizebuf > FILETRANSFER_MAX_SIZE"
    and ok: "fst (recvChunks c1 (unat (readU64 sizebuf)) [])"
    by auto
  have "recvChecked c 8 = (True, sizebuf, c1)"
    using recvAll_checked [OF assms(2)] n by simp
  then have s: "rx_avail c = sizebuf @ rx_avail c1" "length sizebuf = 8"
    using recv_all.read_success by fastforce+
  have "unat (readU64 sizebuf) \<le> length (rx_avail c1)"
    using recvChunks_short [of c1 "unat (readU64 sizebuf)" "[]"] ok by (meson not_less)
  with s max show False
    using assms(1) by (auto simp: parseTransfer_def Let_def split: if_splits)
qed

lemma receiveFileVec_spec:
  "case parseTransfer (rx_avail c) of
     Some (content, rest) \<Rightarrow>
       (\<exists>c'. receiveFileVec c old = (True, content, c') \<and> rx_avail c' = rest \<and> tx_side c' = tx_side c)
   | None \<Rightarrow> (\<exists>x c'. receiveFileVec c old = (False, x, c') \<and> (x = old \<or> x = []))"
proof (cases "parseTransfer (rx_avail c)")
  case None
  obtain n sizebuf c1 where r: "recvAll c 8 = (n, sizebuf, c1)"
    by (cases "recvAll c 8")
  from transfer_None [OF None r] None show ?thesis
    by (auto simp: receiveFileVec_def r Let_def split: prod.splits)
next
  case (Some p)
  obtain content rest where p: "p = (content, rest)"
    by (cases p)
  from transfer_Some [of c content rest] Some p show ?thesis
    by (auto simp: receiveFileVec_def)
qed

lemma receiveFilePath_spec:
  assumes "disk_ok d" and "resolvePath (root d) path \<notin> set (unopenable d)"
  shows "case parseTransfer (rx_avail c) of
     Some (content, rest) \<Rightarrow>
       (\<exists>d' c'. receiveFilePath d c path = (True, d', c') \<and> rx_avail c' = rest \<and> tx_side c' = tx_side c \<and>
          readDisk d' = (readDisk d)(resolvePath (root d) path \<mapsto> content) \<and>
          d' = writeDisk d (resolvePath (root d) path) content)
   | None \<Rightarrow> (\<exists>d' c'. receiveFilePath d c path = (False, d', c') \<and>
          readDisk d' = (readDisk d)(resolvePath (root d) path := None))"
proof -
  let ?p = "resolvePath (root d) path"
  let ?d0 = "writeDisk d ?p []"
  have d0: "root ?d0 = root d" "disk_ok ?d0" "unopenable ?d0 = unopenable d"
    using assms(1) by simp_all
  have removed: "readDisk (snd (removeDisk ?d0 ?p)) = (readDisk d)(?p := None)"
    using d0 by (auto simp: readDisk_remove readDisk_writeDisk)
  have put2: "om_put k a (om_put k b m) = om_put k a m" if "om_ok m"
    for k :: string and a b :: bytes and m
    using that by (intro om_eqI) auto
  have written: "writeDisk ?d0 ?p content = writeDisk d ?p content"
    "readDisk (writeDisk d ?p content) = (readDisk d)(?p \<mapsto> content)" for content
    using assms by (auto simp: writeDisk_def disk_ok_def put2 readDisk_def)
  show ?thesis
  proof (cases "parseTransfer (rx_avail c)")
    case None
    obtain n sizebuf c1 where r: "recvAll c 8 = (n, sizebuf, c1)"
      by (cases "recvAll c 8")
    from transfer_None [OF None r] None assms(2) show ?thesis
      by (auto simp: receiveFilePath_def r Let_def removed split: prod.splits)
  next
    case (Some pr)
    obtain content rest where p: "pr = (content, rest)"
      by (cases pr)
    from transfer_Some [of c content rest] Some p assms(2) show ?thesis
      by (auto simp: receiveFilePath_def Let_def written)
  qed
qed

text \<open>Receiving never touches the sending side, not even when it fails.\<close>

lemma recvLoop_tx: "tx_side (snd (snd (recvLoop c len buf))) = tx_side c"
proof (induction c len buf rule: recvLoop.induct)
  case (1 c len buf)
  obtain n bs c1 where rd: "readBytes c (len - length buf) = (n, bs, c1)"
    by (cases "readBytes c (len - length buf)")
  show ?case
  proof (cases "length buf < len \<and> 0 < n")
    case True
    with "1.IH" [OF _ refl rd [symmetric] refl] readBytes_tx [OF rd] show ?thesis
      by (subst recvLoop.simps) (simp add: rd)
  next
    case False
    with readBytes_tx [OF rd] show ?thesis
      by (subst recvLoop.simps) (auto simp: rd)
  qed
qed

lemma recvAll_tx: "recvAll c n = (r, bs, c') \<Longrightarrow> tx_side c' = tx_side c"
  using recvLoop_tx [of c n "[]"] by (simp add: recvAll_def)

lemma recvChunks_tx: "tx_side (snd (snd (recvChunks c remaining acc))) = tx_side c"
proof (induction c remaining acc rule: recvChunks.induct)
  case (1 c remaining acc)
  define chunk where "chunk = (if remaining > BUFFER_SIZE then BUFFER_SIZE else remaining)"
  obtain r bs c1 where rd: "recvAll c chunk = (r, bs, c1)"
    by (cases "recvAll c chunk")
  show ?case
  proof (cases "remaining > 0 \<and> 0 < r")
    case True
    with "1.IH" [OF _ chunk_def rd [symmetric] refl refl] recvAll_tx [OF rd] show ?thesis
      by (subst recvChunks.simps) (simp add: rd Let_def flip: chunk_def)
  next
    case False
    with recvAll_tx [OF rd] show ?thesis
      by (subst recvChunks.simps) (auto simp: rd Let_def simp flip: chunk_def)
  qed
qed

lemma receiveFilePath_tx:
  assumes "receiveFilePath d c path = (ok, d', c')"
  shows "tx_side c' = tx_side c"
proof -
  obtain n sizebuf c1 where r: "recvAll c 8 = (n, sizebuf, c1)"
    by (cases "recvAll c 8")
  obtain ok2 content c2 where l: "recvChunks c1 (unat (readU64 sizebuf)) [] = (ok2, content, c2)"
    by (cases "recvChunks c1 (unat (readU64 sizebuf)) []")
  have "tx_side c2 = tx_side c1"
    using recvChunks_tx [of c1 "unat (readU64 sizebuf)" "[]"] l by simp
  with assms recvAll_tx [OF r] show ?thesis
    by (auto simp: receiveFilePath_def r l Let_def split: if_splits)
qed

lemma receiveFileVec_tx:
  assumes "receiveFileVec c old = (ok, x, c')"
  shows "tx_side c' = tx_side c"
proof -
  obtain n sizebuf c1 where r: "recvAll c 8 = (n, sizebuf, c1)"
    by (cases "recvAll c 8")
  obtain ok2 content c2 where l: "recvChunks c1 (unat (readU64 sizebuf)) [] = (ok2, content, c2)"
    by (cases "recvChunks c1 (unat (readU64 sizebuf)) []")
  have "tx_side c2 = tx_side c1"
    using recvChunks_tx [of c1 "unat (readU64 sizebuf)" "[]"] l by simp
  with assms recvAll_tx [OF r] show ?thesis
    by (auto simp: receiveFileVec_def r l Let_def split: if_splits)
qed

section \<open>The sender\<close>

lemma sendChunks_ready:
  assumes "tx_ready c"
  shows "\<exists>c'. sendChunks c rest = (True, c') \<and> tx c' = tx c @ rest \<and> tx_ready c' \<and> rx_side c' = rx_side c"
  using assms
proof (induction c rest rule: sendChunks.induct)
  case (1 c rest)
  show ?case
  proof (cases "rest = []")
    case False
    define chunk where "chunk = min BUFFER_SIZE (length rest)"
    have ne: "take chunk rest \<noteq> []"
      using False by (simp add: chunk_def)
    obtain s c1 where s: "sendAll c (take chunk rest) = (s, c1)"
      by fastforce
    have c1: "0 < s" "tx c1 = tx c @ take chunk rest" "tx_ready c1" "rx_side c1 = rx_side c"
      using send_all.write_all [OF "1.prems" ne] s by (auto simp: sendChecked_def)
    have "\<exists>c'. sendChunks c1 (drop chunk rest) = (True, c') \<and> tx c' = tx c1 @ drop chunk rest \<and>
        tx_ready c' \<and> rx_side c' = rx_side c1"
      using c1 by (intro "1.IH" [OF False chunk_def refl s [symmetric]]) simp_all
    with False c1 show ?thesis
      by (subst sendChunks.simps) (auto simp: s Let_def simp flip: chunk_def)
  qed (use "1.prems" in \<open>simp add: sendChunks.simps\<close>)
qed

lemma sendSized_ready:
  assumes "tx_ready c"
  shows "\<exists>c'. sendSized c content = (True, c') \<and> tx c' = tx c @ wireFile content \<and> tx_ready c' \<and> rx_side c' = rx_side c"
proof -
  obtain n c1 where n: "sendAll c (be_bytes 8 (of_nat (length content))) = (n, c1)"
    by fastforce
  have c1: "0 < n" "tx c1 = tx c @ be_bytes 8 (of_nat (length content))" "tx_ready c1" "rx_side c1 = rx_side c"
    using send_all.write_all [OF assms be_bytes_8_nonempty, of "of_nat (length content)"] n by (auto simp: sendChecked_def)
  with sendChunks_ready [OF c1(3), of content] show ?thesis
    by (auto simp: sendSized_def n wireFile_def)
qed

section \<open>Properties\<close>

text \<open>
  C24: a file sent over a connection whose peer keeps taking bytes is received as it was, however the
  sending and the receiving side cut the stream into pieces, and the receiver stops exactly at the
  byte after the content. The only condition is the size limit, which the sender checks.
\<close>

theorem transfer_roundtrip:
  assumes "tx_ready cs" and "length content \<le> unat FILETRANSFER_MAX_SIZE" and "tx cs = []"
    and "sendFileVec cs content = (ok, cs')" and "rx_avail cr = tx cs' @ rest"
  shows "ok \<and> (\<exists>cr'. receiveFileVec cr old = (True, content, cr') \<and> rx_avail cr' = rest \<and> tx_side cr' = tx_side cr)"
proof -
  have sent: "ok" "tx cs' = wireFile content"
    using sendSized_ready [OF assms(1), of content] assms(2-4) by (auto simp: sendFileVec_def)
  then have "parseTransfer (rx_avail cr) = Some (content, rest)"
    using parseTransfer_wireFile [OF assms(2)] assms(5) by simp
  with receiveFileVec_spec [of cr old] sent(1) show ?thesis
    by simp
qed

theorem transfer_roundtrip_witness:
  "\<exists>cr'. receiveFileVec \<lparr>sock_open = True, rx = [RecvBytes [0, 0, 0], RecvBytes [0, 0, 0, 0], RecvBytes [3, 10],
        RecvBytes [11], RecvBytes [12, 99], RecvError], tx_script = [], tx = []\<rparr> [] = (True, [10, 11, 12], cr') \<and>
     rx_avail cr' = [99]"
proof -
  let ?cs = "\<lparr>sock_open = True, rx = [], tx_script = [SendUpTo 3, SendUpTo 4, SendUpTo 1, SendUpTo 2], tx = []\<rparr>"
  let ?cr = "\<lparr>sock_open = True, rx = [RecvBytes [0, 0, 0], RecvBytes [0, 0, 0, 0], RecvBytes [3, 10],
        RecvBytes [11], RecvBytes [12, 99], RecvError], tx_script = [], tx = []\<rparr>"
  obtain ok cs' where s: "sendFileVec ?cs [10, 11, 12] = (ok, cs')"
    by fastforce
  have ready: "tx_ready ?cs"
    by (auto simp: tx_ready_def)
  have len: "length [10, 11, 12 :: u8] \<le> unat FILETRANSFER_MAX_SIZE"
    by (simp add: max_size_val)
  have "tx cs' = wireFile [10, 11, 12]"
    using sendSized_ready [OF ready, of "[10, 11, 12]"] s len by (auto simp: sendFileVec_def)
  then have "rx_avail ?cr = tx cs' @ [99]"
    by (simp add: rx_avail_def wireFile_def be_bytes_pushU64 pushU64_def)
  from transfer_roundtrip [OF ready len _ s this] show ?thesis
    by auto
qed

text \<open>
  Reception into memory is determined by the bytes alone. It succeeds exactly when the stream
  starts with eight bytes of size, the size is within the limit and so many bytes follow, and then
  returns them and leaves the rest of the stream; otherwise it fails and the buffer is empty or as it
  was. This holds for every fragmentation and every error of the connection.
\<close>

theorem receive_vec_refines:
  "case parseTransfer (rx_avail c) of
     Some (content, rest) \<Rightarrow>
       (\<exists>c'. receiveFileVec c old = (True, content, c') \<and> rx_avail c' = rest \<and> tx_side c' = tx_side c)
   | None \<Rightarrow> (\<exists>x c'. receiveFileVec c old = (False, x, c') \<and> (x = old \<or> x = []))"
  by (rule receiveFileVec_spec)

text \<open>
  Reception into a file is all or nothing for the stored file: after success it holds exactly
  the content sent, after any failure it does not exist (also when an older version of it existed
  before), and no other file is touched.
\<close>

theorem receive_path_all_or_nothing:
  assumes "disk_ok d" and "resolvePath (root d) path \<notin> set (unopenable d)"
    and "receiveFilePath d c path = (ok, d', c')"
  shows "if ok then \<exists>content rest. parseTransfer (rx_avail c) = Some (content, rest) \<and> rx_avail c' = rest \<and>
              readDisk d' = (readDisk d)(resolvePath (root d) path \<mapsto> content)
         else parseTransfer (rx_avail c) = None \<and>
              readDisk d' = (readDisk d)(resolvePath (root d) path := None)"
  using receiveFilePath_spec [OF assms(1,2), of c] assms(3) by (auto split: option.splits)

theorem receive_path_all_or_nothing_witness:
  "\<exists>d' c'. receiveFilePath (writeDisk (newFileManager ''/srv'') ''/srv/a'' [1, 2])
     \<lparr>sock_open = True, rx = [RecvBytes [0, 0], RecvError], tx_script = [], tx = []\<rparr> ''a'' = (False, d', c') \<and>
     readDisk d' ''/srv/a'' = None"
proof -
  let ?d = "writeDisk (newFileManager ''/srv'') ''/srv/a'' [1, 2]"
  let ?c = "\<lparr>sock_open = True, rx = [RecvBytes [0, 0], RecvError], tx_script = [], tx = []\<rparr>"
  obtain ok d' c' where r: "receiveFilePath ?d ?c ''a'' = (ok, d', c')"
    by (cases "receiveFilePath ?d ?c ''a''")
  have d: "disk_ok ?d" "resolvePath (root ?d) ''a'' \<notin> set (unopenable ?d)" "resolvePath (root ?d) ''a'' = ''/srv/a''"
    by code_simp+
  have "parseTransfer (rx_avail ?c) = None"
    by (simp add: rx_avail_def parseTransfer_def)
  with receive_path_all_or_nothing [OF d(1,2) r] r d(3) show ?thesis
    by (auto split: if_splits)
qed

end
