(* ===== verification/Squid_Protocol.thy ===== *)
theory Squid_Protocol
  imports File_Transfer
begin

text \<open>
  One end of a connection: \<open>common/src/squidprotocol/squidprotocol.cpp\<close>. The state has the channel, the
  liveness flag, the counters of sent and received frames and the buffer of frames that arrived too
  early. Every operation of the class is a function on that state; a frame that cannot be built is the
  exception of the C++ code, the left side of the result, and leaves the state as it was. A protocol
  object here always has a channel: without one it is not alive and behaves as on a closed channel.
\<close>

section \<open>The state and the frame loops\<close>

record proto =
  alive :: bool
  processName :: string
  nodeType :: string
  chan :: channel
  nextSendSeq :: u32
  expectedRecvSeq :: u32
  lastDeliveredSeq :: u32
  reorderBuffer :: "(u32, bytes) omap"

definition newProto :: "channel \<Rightarrow> string \<Rightarrow> string \<Rightarrow> proto" where
  "newProto c ntype name =
     \<lparr>alive = True, processName = name, nodeType = ntype, chan = c, nextSendSeq = 0,
      expectedRecvSeq = 0, lastDeliveredSeq = 0, reorderBuffer = []\<rparr>"

definition MAX_PAYLOAD_SIZE :: u32 where
  "MAX_PAYLOAD_SIZE = 16 * 1024 * 1024"

definition handleRecvError :: "proto \<Rightarrow> int \<Rightarrow> bool \<times> proto" where
  "handleRecvError p n =
     (if n = 0 then (False, p\<lparr>alive := False\<rparr>)
      else if n < 0 then (False, p\<lparr>alive := False\<rparr>)
      else (True, p))"

function recvExactLoop :: "proto \<Rightarrow> nat \<Rightarrow> bytes \<Rightarrow> bool \<times> bytes \<times> proto" where
  "recvExactLoop p n buf =
     (if length buf < n then
        let (r, bs, c') = readBytes (chan p) (n - length buf);
            (ok, p') = handleRecvError (p\<lparr>chan := c'\<rparr>) r
        in if ok then recvExactLoop p' n (buf @ bs) else (False, buf, p')
      else (True, buf, p))"
  by pat_completeness auto
termination
proof (relation "measure (\<lambda>(p, n, buf). n - length buf)", goal_cases)
  case (2 p n buf x r y bs c' z ok p')
  then show ?case
    using readBytes_shrinks [of r bs c' "chan p" "n - length buf"]
    by (cases bs) (auto simp: handleRecvError_def split: if_splits)
qed simp

definition recvExact :: "proto \<Rightarrow> nat \<Rightarrow> bool \<times> bytes \<times> proto" where
  "recvExact p n = recvExactLoop p n []"

function sendFrameLoop :: "proto \<Rightarrow> bytes \<Rightarrow> proto" where
  "sendFrameLoop p rest =
     (if rest = [] then p
      else let (sent, c') = writeBytes (chan p) rest
           in if sent \<le> 0 then p\<lparr>chan := c', alive := False\<rparr>
              else sendFrameLoop (p\<lparr>chan := c'\<rparr>) (drop (nat sent) rest))"
  by pat_completeness auto
termination
  by (relation "measure (\<lambda>(p, rest). length rest)") auto

definition sendFrame :: "proto \<Rightarrow> bytes \<Rightarrow> proto" where
  "sendFrame p frame =
     sendFrameLoop (p\<lparr>nextSendSeq := nextSendSeq p + 1\<rparr>) (stampSeq frame (nextSendSeq p))"

fun recvFields :: "proto \<Rightarrow> nat \<Rightarrow> bytes \<Rightarrow> bytes option \<times> proto" where
  "recvFields p 0 frame = (Some frame, p)"
| "recvFields p (Suc n) frame =
     (let (ok, fhdr, p1) = recvExact p 3
      in if \<not> ok then (None, p1)
         else let vlen = unat (readU16 (drop 1 fhdr)); frame1 = frame @ [fhdr ! 0, fhdr ! 1, fhdr ! 2]
              in if vlen > 0 then
                   (let (ok2, val, p2) = recvExact p1 vlen
                    in if \<not> ok2 then (None, p2) else recvFields p2 n (frame1 @ val))
                 else recvFields p1 n frame1)"

definition receiveFrame :: "proto \<Rightarrow> bytes \<times> proto" where
  \<comment> \<open>the empty vector reports a failure\<close>
  "receiveFrame p =
     (let (ok, header, p1) = recvExact p FRAME_HEADER_SIZE
      in if \<not> ok then ([], p1)
         else if readU16 header \<noteq> SQUID_MAGIC then ([], p1\<lparr>alive := False\<rparr>)
         else let numFields = unat (header ! 4); plen = readU32 (drop 9 header)
              in case recvFields p1 numFields header of
                   (None, p2) \<Rightarrow> ([], p2)
                 | (Some frame, p2) \<Rightarrow>
                     if plen > MAX_PAYLOAD_SIZE then ([], p2\<lparr>alive := False\<rparr>)
                     else if plen > 0 then
                       (let (ok3, payload, p3) = recvExact p2 (unat plen)
                        in if \<not> ok3 then ([], p3) else (frame @ payload, p3))
                     else (frame, p2))"

definition popNextBuffered :: "proto \<Rightarrow> bytes option \<times> proto" where
  "popNextBuffered p =
     (case om_find (reorderBuffer p) (expectedRecvSeq p) of
        None \<Rightarrow> (None, p)
      | Some frame \<Rightarrow> (Some frame, p\<lparr>reorderBuffer := om_erase (expectedRecvSeq p) (reorderBuffer p)\<rparr>))"

declare recvExactLoop.simps [simp del] sendFrameLoop.simps [simp del]

section \<open>Progress of the receive loop\<close>

lemma FRAME_HEADER_SIZE_pos [simp]: "0 < FRAME_HEADER_SIZE"
  by (simp add: FRAME_HEADER_SIZE_def)

definition rx_size :: "channel \<Rightarrow> nat" where
  "rx_size c = sum_list (map (\<lambda>e. case e of RecvBytes bs \<Rightarrow> Suc (length bs) | RecvError \<Rightarrow> 1) (rx c))"

lemma readBytes_size:
  "readBytes c len = (n, bs, c') \<Longrightarrow> rx_size c' \<le> rx_size c \<and> (0 < n \<longrightarrow> rx_size c' < rx_size c)"
  by (auto simp: readBytes_def rx_size_def split: list.splits recv_event.splits if_splits)

lemma recvExactLoop_size:
  "recvExactLoop p n buf = (ok, bs, p') \<Longrightarrow>
   rx_size (chan p') \<le> rx_size (chan p) \<and> (ok \<and> length buf < n \<longrightarrow> rx_size (chan p') < rx_size (chan p)) \<and>
   expectedRecvSeq p' = expectedRecvSeq p \<and> reorderBuffer p' = reorderBuffer p"
proof (induction p n buf arbitrary: ok bs p' rule: recvExactLoop.induct)
  case (1 p n buf)
  obtain r rs c1 where rd: "readBytes (chan p) (n - length buf) = (r, rs, c1)"
    by (cases "readBytes (chan p) (n - length buf)")
  note size = readBytes_size [OF rd]
  show ?case
  proof (cases "length buf < n \<and> 0 < r")
    case True
    then have hr: "handleRecvError (p\<lparr>chan := c1\<rparr>) r = (True, p\<lparr>chan := c1\<rparr>)"
      by (simp add: handleRecvError_def)
    with True have "recvExactLoop (p\<lparr>chan := c1\<rparr>) n (buf @ rs) = (ok, bs, p')"
      using "1.prems" by (subst (asm) recvExactLoop.simps) (simp add: rd)
    from "1.IH" [OF _ refl rd [symmetric] refl refl hr [symmetric] TrueI this] True size show ?thesis
      by auto
  next
    case False
    with "1.prems" size show ?thesis
      by (subst (asm) recvExactLoop.simps)
         (auto simp: rd handleRecvError_def split: if_splits)
  qed
qed

lemma recvExact_size:
  "recvExact p n = (ok, bs, p') \<Longrightarrow>
   rx_size (chan p') \<le> rx_size (chan p) \<and> (ok \<and> 0 < n \<longrightarrow> rx_size (chan p') < rx_size (chan p)) \<and>
   expectedRecvSeq p' = expectedRecvSeq p \<and> reorderBuffer p' = reorderBuffer p"
  using recvExactLoop_size [of p n "[]"] by (simp add: recvExact_def)

lemma recvFields_size:
  "recvFields p n frame = (res, p') \<Longrightarrow>
   rx_size (chan p') \<le> rx_size (chan p) \<and> expectedRecvSeq p' = expectedRecvSeq p \<and>
   reorderBuffer p' = reorderBuffer p"
proof (induction n arbitrary: p frame)
  case (Suc n)
  obtain ok fhdr p1 where h: "recvExact p 3 = (ok, fhdr, p1)"
    by (cases "recvExact p 3")
  obtain ok2 val p2 where v: "recvExact p1 (unat (readU16 (drop (Suc 0) fhdr))) = (ok2, val, p2)"
    by (cases "recvExact p1 (unat (readU16 (drop (Suc 0) fhdr)))")
  from Suc.prems show ?case
    using recvExact_size [OF h] recvExact_size [OF v]
    by (auto simp: h v Let_def split: if_splits dest!: Suc.IH)
qed simp

lemma receiveFrame_size:
  assumes "receiveFrame p = (raw, p')"
  shows "rx_size (chan p') \<le> rx_size (chan p) \<and> (raw \<noteq> [] \<longrightarrow> rx_size (chan p') < rx_size (chan p)) \<and>
    expectedRecvSeq p' = expectedRecvSeq p \<and> reorderBuffer p' = reorderBuffer p"
proof -
  obtain ok header p1 where h: "recvExact p FRAME_HEADER_SIZE = (ok, header, p1)"
    by (cases "recvExact p FRAME_HEADER_SIZE")
  obtain res p2 where f: "recvFields p1 (unat (header ! 4)) header = (res, p2)"
    by fastforce
  obtain ok3 payload p3 where l: "recvExact p2 (unat (readU32 (drop 9 header))) = (ok3, payload, p3)"
    by (cases "recvExact p2 (unat (readU32 (drop 9 header)))")
  from assms recvExact_size [OF h] recvFields_size [OF f] recvExact_size [OF l] show ?thesis
    by (auto simp: receiveFrame_def h f l Let_def split: if_splits option.splits)
qed

section \<open>Delivery in sequence order\<close>

definition deliver :: "proto \<Rightarrow> Message \<Rightarrow> Message \<times> proto" where
  "deliver p msg = (msg, p\<lparr>lastDeliveredSeq := seq msg, expectedRecvSeq := expectedRecvSeq p + 1\<rparr>)"

definition nextFrame :: "proto \<Rightarrow> bytes \<times> proto" where
  \<comment> \<open>from the reorder buffer when the expected frame is there, else from the wire\<close>
  "nextFrame p =
     (case popNextBuffered p of
        (Some raw, p') \<Rightarrow> (raw, p')
      | (None, _) \<Rightarrow> receiveFrame p)"

definition rx_measure :: "proto \<Rightarrow> nat" where
  \<comment> \<open>what is left to read and, unless the buffer has it, the expected frame\<close>
  "rx_measure p = rx_size (chan p) + length (filter (\<lambda>e. fst e = expectedRecvSeq p) (reorderBuffer p))"

lemma count_om_insert: "k \<noteq> k' \<Longrightarrow> filter (\<lambda>e. fst e = k) (om_insert k' v m) = filter (\<lambda>e. fst e = k) m"
proof -
  assume "k \<noteq> k'"
  then have "filter (\<lambda>e. fst e = k) (om_put k' v m) = filter (\<lambda>e. fst e = k) m"
    by (induction m) auto
  then show ?thesis
    by (simp add: om_insert_def)
qed

lemma count_om_erase:
  "om_find m k = Some f \<Longrightarrow> length (filter (\<lambda>e. fst e = k) (om_erase k m)) < length (filter (\<lambda>e. fst e = k) m)"
  by (induction m) (auto simp: om_find_Cons split: if_splits)

lemma nextFrame_measure:
  assumes "nextFrame p = (raw, p')" and "raw \<noteq> []"
  shows "rx_measure p' < rx_measure p \<and> expectedRecvSeq p' = expectedRecvSeq p"
proof (cases "om_find (reorderBuffer p) (expectedRecvSeq p)")
  case None
  with assms(1) have "receiveFrame p = (raw, p')"
    by (simp add: nextFrame_def popNextBuffered_def)
  from receiveFrame_size [OF this] assms(2) show ?thesis
    by (auto simp: rx_measure_def)
next
  case (Some f)
  with assms count_om_erase [OF Some] show ?thesis
    by (auto simp: nextFrame_def popNextBuffered_def rx_measure_def)
qed

function receiveAndParse :: "proto \<Rightarrow> Message \<times> proto" where
  "receiveAndParse p =
     (let (raw, p') = nextFrame p
      in if raw = [] then (makeNack, p')
         else case parseMessage raw of
                Inl e \<Rightarrow> (makeNack, p')
              | Inr msg \<Rightarrow>
                  if seq msg = expectedRecvSeq p' then deliver p' msg
                  else if seq msg > expectedRecvSeq p'
                  then receiveAndParse (p'\<lparr>reorderBuffer := om_insert (seq msg) raw (reorderBuffer p')\<rparr>)
                  else receiveAndParse p')"
  by pat_completeness auto
termination
proof (relation "measure rx_measure", goal_cases)
  case (2 p x raw p' msg)
  then show ?case
    using nextFrame_measure [of p raw p'] by (auto simp: rx_measure_def count_om_insert)
next
  case (3 p x raw p' msg)
  then show ?case
    using nextFrame_measure [of p raw p'] by auto
qed simp

declare receiveAndParse.simps [simp del]

definition rx_pending :: "proto \<Rightarrow> nat" where
  \<comment> \<open>frames still to come, on the wire or buffered\<close>
  "rx_pending p = 2 * rx_size (chan p) + length (reorderBuffer p)"

lemma length_om_insert: "length (om_insert k v m) \<le> Suc (length m)"
proof -
  have "length (om_put k v m) \<le> Suc (length m)"
    by (induction m) auto
  then show ?thesis
    by (simp add: om_insert_def)
qed

lemma length_om_erase: "om_find m k = Some f \<Longrightarrow> length (om_erase k m) < length m"
  by (induction m) (auto simp: om_find_Cons split: if_splits)

lemma nextFrame_pending:
  assumes "nextFrame p = (raw, p')"
  shows "rx_pending p' \<le> rx_pending p \<and> (raw \<noteq> [] \<longrightarrow> rx_pending p' < rx_pending p)"
proof (cases "om_find (reorderBuffer p) (expectedRecvSeq p)")
  case None
  with assms have "receiveFrame p = (raw, p')"
    by (simp add: nextFrame_def popNextBuffered_def)
  from receiveFrame_size [OF this] show ?thesis
    by (auto simp: rx_pending_def)
next
  case (Some f)
  with assms length_om_erase [OF Some] show ?thesis
    by (auto simp: nextFrame_def popNextBuffered_def rx_pending_def)
qed

lemma rx_pending_insert:
  "rx_pending (p\<lparr>reorderBuffer := om_insert k raw (reorderBuffer p)\<rparr>) \<le> Suc (rx_pending p)"
  using length_om_insert [of k raw "reorderBuffer p"] by (simp add: rx_pending_def)

lemma receiveAndParse_unfold:
  assumes "nextFrame p = (raw, p')"
  shows "raw = [] \<Longrightarrow> receiveAndParse p = (makeNack, p')"
    and "raw \<noteq> [] \<Longrightarrow> parseMessage raw = Inl e \<Longrightarrow> receiveAndParse p = (makeNack, p')"
    and "raw \<noteq> [] \<Longrightarrow> parseMessage raw = Inr msg \<Longrightarrow> seq msg = expectedRecvSeq p' \<Longrightarrow>
      receiveAndParse p = deliver p' msg"
    and "raw \<noteq> [] \<Longrightarrow> parseMessage raw = Inr msg \<Longrightarrow> seq msg > expectedRecvSeq p' \<Longrightarrow>
      receiveAndParse p =
      receiveAndParse (p'\<lparr>reorderBuffer := om_insert (seq msg) raw (reorderBuffer p')\<rparr>)"
    and "raw \<noteq> [] \<Longrightarrow> parseMessage raw = Inr msg \<Longrightarrow> seq msg < expectedRecvSeq p' \<Longrightarrow>
      receiveAndParse p = receiveAndParse p'"
proof -
  have eq: "receiveAndParse p =
    (if raw = [] then (makeNack, p')
     else case parseMessage raw of
            Inl e \<Rightarrow> (makeNack, p')
          | Inr msg \<Rightarrow>
              if seq msg = expectedRecvSeq p' then deliver p' msg
              else if seq msg > expectedRecvSeq p'
              then receiveAndParse (p'\<lparr>reorderBuffer := om_insert (seq msg) raw (reorderBuffer p')\<rparr>)
              else receiveAndParse p')"
    by (subst receiveAndParse.simps) (simp only: assms Let_def prod.case)
  show "raw = [] \<Longrightarrow> receiveAndParse p = (makeNack, p')"
    "raw \<noteq> [] \<Longrightarrow> parseMessage raw = Inl e \<Longrightarrow> receiveAndParse p = (makeNack, p')"
    "raw \<noteq> [] \<Longrightarrow> parseMessage raw = Inr msg \<Longrightarrow> seq msg = expectedRecvSeq p' \<Longrightarrow>
      receiveAndParse p = deliver p' msg"
    "raw \<noteq> [] \<Longrightarrow> parseMessage raw = Inr msg \<Longrightarrow> seq msg > expectedRecvSeq p' \<Longrightarrow>
      receiveAndParse p =
      receiveAndParse (p'\<lparr>reorderBuffer := om_insert (seq msg) raw (reorderBuffer p')\<rparr>)"
    "raw \<noteq> [] \<Longrightarrow> parseMessage raw = Inr msg \<Longrightarrow> seq msg < expectedRecvSeq p' \<Longrightarrow>
      receiveAndParse p = receiveAndParse p'"
    by (subst eq, simp add: order_less_imp_not_eq order_less_imp_not_eq2 order_less_not_sym)+
qed

lemma receiveAndParse_pending:
  "rx_pending (snd (receiveAndParse p)) \<le> rx_pending p \<and>
   (fst (receiveAndParse p) = makeNack \<or> rx_pending (snd (receiveAndParse p)) < rx_pending p)"
proof (induction p rule: receiveAndParse.induct)
  case (1 p)
  obtain raw p1 where n: "nextFrame p = (raw, p1)"
    by fastforce
  note pend = nextFrame_pending [OF n]
  show ?case
  proof (cases "raw = []")
    case True
    with pend show ?thesis
      by (simp add: receiveAndParse_unfold(1) [OF n])
  next
    case raw: False
    show ?thesis
    proof (cases "parseMessage raw")
      case (Inl e)
      with raw pend show ?thesis
        by (simp add: receiveAndParse_unfold(2) [OF n])
    next
      case (Inr msg)
      consider "seq msg = expectedRecvSeq p1" | "seq msg > expectedRecvSeq p1" | "seq msg < expectedRecvSeq p1"
        by fastforce
      then show ?thesis
      proof cases
        case 1
        with raw Inr pend show ?thesis
          by (simp add: receiveAndParse_unfold(3) [OF n] deliver_def) (simp add: rx_pending_def)
      next
        case 2
        let ?p = "p1\<lparr>reorderBuffer := om_insert (seq msg) raw (reorderBuffer p1)\<rparr>"
        have "rx_pending ?p \<le> rx_pending p"
          using rx_pending_insert [where p = p1 and k = "seq msg" and raw = raw] pend raw by simp
        moreover have "seq msg \<noteq> expectedRecvSeq p1"
          using 2 by simp
        ultimately show ?thesis
          using "1.IH"(1) [OF n [symmetric] refl raw Inr _ 2]
          unfolding receiveAndParse_unfold(4) [OF n raw Inr 2] by auto
      next
        case 3
        then have ne: "seq msg \<noteq> expectedRecvSeq p1" "\<not> seq msg > expectedRecvSeq p1"
          by auto
        from "1.IH"(2) [OF n [symmetric] refl raw Inr ne] pend raw show ?thesis
          unfolding receiveAndParse_unfold(5) [OF n raw Inr 3] by auto
      qed
    qed
  qed
qed

lemma recvLoop_size: "rx_size (snd (snd (recvLoop c len buf))) \<le> rx_size c"
proof (induction c len buf rule: recvLoop.induct)
  case (1 c len buf)
  obtain n bs c1 where rd: "readBytes c (len - length buf) = (n, bs, c1)"
    by (cases "readBytes c (len - length buf)")
  show ?case
  proof (cases "length buf < len \<and> 0 < n")
    case True
    with "1.IH" [OF _ refl rd [symmetric] refl] readBytes_size [OF rd] show ?thesis
      by (subst recvLoop.simps) (simp add: rd)
  next
    case False
    with readBytes_size [OF rd] show ?thesis
      by (subst recvLoop.simps) (auto simp: rd)
  qed
qed

lemma recvChunks_size: "rx_size (snd (snd (recvChunks c remaining acc))) \<le> rx_size c"
proof (induction c remaining acc rule: recvChunks.induct)
  case (1 c remaining acc)
  define chunk where "chunk = (if remaining > BUFFER_SIZE then BUFFER_SIZE else remaining)"
  obtain r bs c1 where rd: "recvAll c chunk = (r, bs, c1)"
    by (cases "recvAll c chunk")
  have size: "rx_size c1 \<le> rx_size c"
    using recvLoop_size [of c chunk "[]"] rd by (simp add: recvAll_def)
  show ?case
  proof (cases "remaining > 0 \<and> 0 < r")
    case True
    with "1.IH" [OF _ chunk_def rd [symmetric] refl refl] size show ?thesis
      by (subst recvChunks.simps) (simp add: rd Let_def flip: chunk_def)
  next
    case False
    with size show ?thesis
      by (subst recvChunks.simps) (auto simp: rd Let_def simp flip: chunk_def)
  qed
qed

lemma receiveFileVec_size: "rx_size (snd (snd (receiveFileVec c old))) \<le> rx_size c"
proof -
  obtain n sizebuf c1 where r: "recvAll c 8 = (n, sizebuf, c1)"
    by (cases "recvAll c 8")
  have "rx_size c1 \<le> rx_size c"
    using recvLoop_size [of c 8 "[]"] r by (simp add: recvAll_def)
  then show ?thesis
    using recvChunks_size [of c1 "unat (readU64 sizebuf)" "[]"]
    by (auto simp: receiveFileVec_def r Let_def split: prod.splits)
qed

lemma sendFrameLoop_rx:
  "rx_side (chan (sendFrameLoop p rest)) = rx_side (chan p) \<and>
   expectedRecvSeq (sendFrameLoop p rest) = expectedRecvSeq p \<and>
   reorderBuffer (sendFrameLoop p rest) = reorderBuffer p \<and>
   lastDeliveredSeq (sendFrameLoop p rest) = lastDeliveredSeq p \<and>
   nextSendSeq (sendFrameLoop p rest) = nextSendSeq p \<and>
   processName (sendFrameLoop p rest) = processName p \<and> nodeType (sendFrameLoop p rest) = nodeType p"
proof (induction p rest rule: sendFrameLoop.induct)
  case (1 p rest)
  obtain n c1 where w: "writeBytes (chan p) rest = (n, c1)"
    by fastforce
  note rx = writeBytes_rx [OF w]
  show ?case
  proof (cases "rest = [] \<or> n \<le> 0")
    case True
    with rx show ?thesis
      by (subst (1 2 3 4 5 6 7) sendFrameLoop.simps) (auto simp: w)
  next
    case False
    with "1.IH" [OF _ refl w [symmetric]] rx show ?thesis
      by (subst (1 2 3 4 5 6 7) sendFrameLoop.simps) (simp add: w)
  qed
qed

lemma sendFrame_pending: "rx_pending (sendFrame p frame) = rx_pending p"
  using sendFrameLoop_rx [of "p\<lparr>nextSendSeq := nextSendSeq p + 1\<rparr>" "stampSeq frame (nextSendSeq p)"]
  by (simp add: sendFrame_def rx_pending_def rx_size_def rx_side_def)

section \<open>Requests\<close>

type_synonym reply = "(frame_error + Message) \<times> proto"

definition sendBuilt :: "proto \<Rightarrow> frame \<Rightarrow> (frame_error + unit) \<times> proto" where
  "sendBuilt p fr = (case fr of Inl e \<Rightarrow> (Inl e, p) | Inr f \<Rightarrow> (Inr (), sendFrame p f))"

definition request :: "proto \<Rightarrow> frame \<Rightarrow> (proto \<Rightarrow> Message \<times> proto) \<Rightarrow> reply" where
  \<comment> \<open>build and send the frame, then go on; an exception of the builder is passed on\<close>
  "request p fr k =
     (case sendBuilt p fr of
        (Inl e, p1) \<Rightarrow> (Inl e, p1)
      | (Inr _, p1) \<Rightarrow> (let (m, p2) = k p1 in (Inr m, p2)))"

definition waitForAck :: "proto \<Rightarrow> bool \<times> Message \<times> proto" where
  "waitForAck p = (let (m, p') = receiveAndParse p in (isAck m, m, p'))"

definition waitForTransferResult :: "proto \<Rightarrow> Message \<times> proto" where
  "waitForTransferResult p = receiveAndParse p"

definition sendFileAfterAckPath :: "disk \<Rightarrow> proto \<Rightarrow> string \<Rightarrow> Message \<Rightarrow> bool \<times> proto" where
  "sendFileAfterAckPath d p path ack =
     (if \<not> isAck ack then (False, p)
      else let (ok, c) = sendFilePath d (chan p) path in (ok, p\<lparr>chan := c\<rparr>))"

definition sendFileData :: "proto \<Rightarrow> bytes \<Rightarrow> bool \<times> proto" where
  "sendFileData p content = (let (ok, c) = sendFileVec (chan p) content in (ok, p\<lparr>chan := c\<rparr>))"

definition receiveFileData :: "proto \<Rightarrow> bytes \<Rightarrow> bool \<times> bytes \<times> proto" where
  "receiveFileData p old = (let (ok, content, c) = receiveFileVec (chan p) old in (ok, content, p\<lparr>chan := c\<rparr>))"

definition sendFileAfterAckVec :: "proto \<Rightarrow> bytes \<Rightarrow> Message \<Rightarrow> bool \<times> proto" where
  "sendFileAfterAckVec p content ack = (if \<not> isAck ack then (False, p) else sendFileData p content)"

definition receiveFileAfterAck :: "proto \<Rightarrow> bytes \<Rightarrow> Message \<Rightarrow> bool \<times> bytes \<times> proto" where
  "receiveFileAfterAck p old ack = (if \<not> isAck ack then (False, old, p) else receiveFileData p old)"

definition identify :: "proto \<Rightarrow> reply" where
  "identify p = request p identifyFormat receiveAndParse"

definition connectServer :: "proto \<Rightarrow> reply" where
  "connectServer p = request p connectServerFormat receiveAndParse"

definition closeConn :: "proto \<Rightarrow> reply" where
  "closeConn p = request p closeFormat (\<lambda>p1. (makeAck, p1\<lparr>alive := False, chan := closeChannel (chan p1)\<rparr>))"

definition uploadAfterRequest :: "(proto \<Rightarrow> Message \<Rightarrow> bool \<times> proto) \<Rightarrow> proto \<Rightarrow> Message \<times> proto" where
  \<comment> \<open>the common tail of every create and update: ACK, file, result\<close>
  "uploadAfterRequest send p =
     (let (ok, ack, p1) = waitForAck p
      in if \<not> ok then (ack, p1)
         else let (sentok, p2) = send p1 ack
              in if \<not> sentok then (makeNack, p2) else waitForTransferResult p2)"

definition proto_createFile :: "disk \<Rightarrow> proto \<Rightarrow> string \<Rightarrow> reply" where
  "proto_createFile d p path =
     request p (createFileFormat path) (uploadAfterRequest (\<lambda>q ack. sendFileAfterAckPath d q path ack))"

definition proto_createFileVersion :: "disk \<Rightarrow> proto \<Rightarrow> string \<Rightarrow> int \<Rightarrow> reply" where
  "proto_createFileVersion d p path version =
     request p (createFileVersionFormat path version)
       (uploadAfterRequest (\<lambda>q ack. sendFileAfterAckPath d q path ack))"

definition proto_createFileData :: "proto \<Rightarrow> string \<Rightarrow> int \<Rightarrow> bytes \<Rightarrow> reply" where
  "proto_createFileData p path version content =
     request p (createFileVersionFormat path version)
       (uploadAfterRequest (\<lambda>q ack. sendFileAfterAckVec q content ack))"

definition proto_updateFile :: "disk \<Rightarrow> proto \<Rightarrow> string \<Rightarrow> reply" where
  "proto_updateFile d p path =
     request p (updateFileFormat path) (uploadAfterRequest (\<lambda>q ack. sendFileAfterAckPath d q path ack))"

definition proto_updateFileVersion :: "disk \<Rightarrow> proto \<Rightarrow> string \<Rightarrow> int \<Rightarrow> reply" where
  "proto_updateFileVersion d p path version =
     request p (updateFileVersionFormat path version)
       (uploadAfterRequest (\<lambda>q ack. sendFileAfterAckPath d q path ack))"

definition proto_updateFileData :: "proto \<Rightarrow> string \<Rightarrow> int \<Rightarrow> bytes \<Rightarrow> reply" where
  "proto_updateFileData p path version content =
     request p (updateFileVersionFormat path version)
       (uploadAfterRequest (\<lambda>q ack. sendFileAfterAckVec q content ack))"

definition proto_readFile :: "proto \<Rightarrow> string \<Rightarrow> bytes \<Rightarrow> (frame_error + Message \<times> bytes) \<times> proto" where
  \<comment> \<open>the last argument is what the output vector holds before the call\<close>
  "proto_readFile p path old =
     (case sendBuilt p (readFileFormat path) of
        (Inl e, p1) \<Rightarrow> (Inl e, p1)
      | (Inr _, p1) \<Rightarrow>
          (let (ok, ack, p2) = waitForAck p1
           in if \<not> ok then (Inr (ack, old), p2)
              else let (got, content, p3) = receiveFileAfterAck p2 old ack
                   in if \<not> got then (Inr (makeNack, content), p3)
                      else let (m, p4) = waitForTransferResult p3 in (Inr (m, content), p4)))"

definition proto_deleteFile :: "proto \<Rightarrow> string \<Rightarrow> reply" where
  "proto_deleteFile p path = request p (deleteFileFormat path) receiveAndParse"

definition proto_acquireLock :: "proto \<Rightarrow> string \<Rightarrow> reply" where
  "proto_acquireLock p path = request p (acquireLockFormat path) receiveAndParse"

definition proto_releaseLock :: "proto \<Rightarrow> string \<Rightarrow> reply" where
  "proto_releaseLock p path = request p (releaseLockFormat path) receiveAndParse"

definition proto_heartbeat :: "proto \<Rightarrow> reply" where
  "proto_heartbeat p = request p heartbeatFormat receiveAndParse"

section \<open>Responses and pushes\<close>

definition response :: "proto \<Rightarrow> bool \<Rightarrow> (frame_error + unit) \<times> proto" where
  "response p isack = sendBuilt p (responseAck isack)"

definition responseVersion :: "proto \<Rightarrow> bool \<Rightarrow> int \<Rightarrow> (frame_error + unit) \<times> proto" where
  "responseVersion p isack version = sendBuilt p (responseAckWithVersion isack version)"

definition responsePortNumber :: "proto \<Rightarrow> int \<Rightarrow> (frame_error + unit) \<times> proto" where
  "responsePortNumber p port = sendBuilt p (responsePort port)"

definition responseString :: "proto \<Rightarrow> string \<Rightarrow> (frame_error + unit) \<times> proto" where
  "responseString p ack = sendBuilt p (responseAckString ack)"

definition responseIdent :: "proto \<Rightarrow> string \<Rightarrow> string \<Rightarrow> (frame_error + unit) \<times> proto" where
  "responseIdent p ntype name = sendBuilt p (responseIdentity ntype name)"

definition responseVersionMap :: "proto \<Rightarrow> (string, int) omap \<Rightarrow> (frame_error + unit) \<times> proto" where
  "responseVersionMap p m = sendBuilt p (responseFileVersionMap m)"

definition responseTimes :: "proto \<Rightarrow> (string, 't) omap \<Rightarrow> (frame_error + unit) \<times> proto" where
  "responseTimes p m = sendBuilt p (responseFileTimes m)"

definition pushFileFrame :: "proto \<Rightarrow> frame \<Rightarrow> bytes \<Rightarrow> (frame_error + unit) \<times> proto" where
  \<comment> \<open>the frame and, whatever became of it, the file\<close>
  "pushFileFrame p fr content =
     (case sendBuilt p fr of
        (Inl e, p1) \<Rightarrow> (Inl e, p1)
      | (Inr _, p1) \<Rightarrow> (Inr (), snd (sendFileData p1 content)))"

definition pushCreateFile :: "proto \<Rightarrow> string \<Rightarrow> int \<Rightarrow> bytes \<Rightarrow> (frame_error + unit) \<times> proto" where
  "pushCreateFile p path version content = pushFileFrame p (pushCreateFileFormat path version) content"

definition pushUpdateFile :: "proto \<Rightarrow> string \<Rightarrow> int \<Rightarrow> bytes \<Rightarrow> (frame_error + unit) \<times> proto" where
  "pushUpdateFile p path version content = pushFileFrame p (pushUpdateFileFormat path version) content"

definition pushDeleteFile :: "proto \<Rightarrow> string \<Rightarrow> (frame_error + unit) \<times> proto" where
  "pushDeleteFile p path = sendBuilt p (pushDeleteFileFormat path)"

definition sendStateSnap ::
    "proto \<Rightarrow> (string, int) omap \<Rightarrow> (string, string oset) omap \<Rightarrow> u32 \<Rightarrow> (frame_error + unit) \<times> proto" where
  "sendStateSnap p versionMap repMap epoch = sendBuilt p (stateSnapFormat versionMap repMap epoch)"

definition sendStateDelta ::
    "proto \<Rightarrow> u8 \<Rightarrow> string \<Rightarrow> int \<Rightarrow> string list \<Rightarrow> u32 \<Rightarrow> (frame_error + unit) \<times> proto" where
  "sendStateDelta p op path version datanodes epoch =
     sendBuilt p (stateDeltaFormat op path version datanodes epoch)"

definition sendLeaderHb :: "proto \<Rightarrow> u32 \<Rightarrow> (frame_error + unit) \<times> proto" where
  "sendLeaderHb p epoch = sendBuilt p (leaderHbFormat epoch)"

definition sendNackStaleEpoch :: "proto \<Rightarrow> u32 \<Rightarrow> (frame_error + unit) \<times> proto" where
  "sendNackStaleEpoch p myEpoch = sendBuilt p (nackStaleEpochFormat myEpoch)"

section \<open>The status request and the frames that may come first\<close>

lemma sendBuilt_pending: "rx_pending (snd (sendBuilt p fr)) = rx_pending p"
  by (simp add: sendBuilt_def sendFrame_pending split: sum.splits)

lemma receiveFileData_pending: "rx_pending (snd (snd (receiveFileData p old))) \<le> rx_pending p"
  using receiveFileVec_size [of "chan p" old]
  by (auto simp: receiveFileData_def rx_pending_def split: prod.splits)

lemma not_response_pending:
  "receiveAndParse p = (msg, p1) \<Longrightarrow> \<not> isResponse msg \<Longrightarrow> rx_pending p1 < rx_pending p"
  using receiveAndParse_pending [of p] by auto

function syncLoop :: "proto \<Rightarrow> reply" where
  "syncLoop p =
     (let (msg, p1) = receiveAndParse p
      in if isResponse msg \<or> isAck msg then (Inr msg, p1)
         else if opcode msg = PUSH_CREATE_FILE \<or> opcode msg = PUSH_UPDATE_FILE
         then (let (_, _, p2) = receiveFileData p1 [] in syncLoop p2)
         else if opcode msg = PUSH_DELETE_FILE then syncLoop p1
         else if opcode msg = HEARTBEAT
         then (case response p1 True of (Inl e, p2) \<Rightarrow> (Inl e, p2) | (Inr _, p2) \<Rightarrow> syncLoop p2)
         else (Inr msg, p1\<lparr>alive := False\<rparr>))"
  by pat_completeness auto
termination
proof (relation "measure rx_pending", goal_cases)
  case (2 p x msg p1 y ok z old p2)
  then have "receiveFileData p1 [] = (ok, old, p2)" "receiveAndParse p = (msg, p1)" "\<not> isResponse msg"
    by auto
  then show ?case
    using not_response_pending [of p msg p1] receiveFileData_pending [of p1 "[]"] by simp
next
  case (3 p x msg p1)
  then show ?case
    using not_response_pending [of p msg p1] by simp
next
  case (4 p x msg p1 p2 u)
  then have "rx_pending u = rx_pending p1" "receiveAndParse p = (msg, p1)" "\<not> isResponse msg"
    using sendBuilt_pending [of p1 "responseAck True"] by (auto simp: response_def) (metis snd_conv)
  then show ?case
    using not_response_pending [of p msg p1] by simp
qed simp

declare syncLoop.simps [simp del]

definition syncStatus :: "proto \<Rightarrow> reply" where
  "syncStatus p =
     (case sendBuilt p syncStatusFormat of (Inl e, p1) \<Rightarrow> (Inl e, p1) | (Inr _, p1) \<Rightarrow> syncLoop p1)"

section \<open>The dispatcher of a data node\<close>

type_synonym dispatched = "(frame_error + unit) \<times> disk \<times> proto"

definition sentThen :: "disk \<Rightarrow> (frame_error + unit) \<times> proto \<Rightarrow> (proto \<Rightarrow> dispatched) \<Rightarrow> dispatched" where
  "sentThen d r k = (case r of (Inl e, p) \<Rightarrow> (Inl e, d, p) | (Inr _, p) \<Rightarrow> k p)"

definition sentDone :: "disk \<Rightarrow> (frame_error + unit) \<times> proto \<Rightarrow> dispatched" where
  "sentDone d r = (case r of (res, p) \<Rightarrow> (res, d, p))"

definition storeUpload ::
    "disk \<Rightarrow> proto \<Rightarrow> string \<Rightarrow> int \<Rightarrow> (proto \<Rightarrow> (frame_error + unit) \<times> proto) \<Rightarrow> dispatched" where
  \<comment> \<open>receive the file, record its version, answer\<close>
  "storeUpload d p path version confirm =
     (let (ok, d1, c) = receiveFilePath d (chan p) path; p1 = p\<lparr>chan := c\<rparr>
      in if ok then sentDone (setFileVersion d1 path version) (confirm p1) else sentDone d1 (response p1 False))"

definition requestDispatcher :: "disk \<Rightarrow> proto \<Rightarrow> Message \<Rightarrow> dispatched" where
  "requestDispatcher d p message =
     (let path = getString message FILE_PATH '''';
          version = int_of_u32 (getUint32 message FILE_VERSION 0)
      in case opcode message of
           CREATE_FILE \<Rightarrow>
             sentThen d (response p True) (\<lambda>p1. storeUpload d p1 path version (\<lambda>q. response q True))
         | READ_FILE \<Rightarrow>
             sentThen d (response p True)
               (\<lambda>p1. let (ok, c) = sendFilePath d (chan p1) path; p2 = p1\<lparr>chan := c\<rparr>
                     in if ok then sentDone d (responseVersion p2 True (getFileVersion d path))
                        else sentDone d (response p2 False))
         | UPDATE_FILE \<Rightarrow>
             sentThen d (response p True) (\<lambda>p1. storeUpload d p1 path version (\<lambda>q. responseVersion q True version))
         | DELETE_FILE \<Rightarrow> sentDone (snd (deleteFileAndVersion d path)) (response p True)
         | ACQUIRE_LOCK \<Rightarrow> sentDone d (response p False)
         | RELEASE_LOCK \<Rightarrow> sentDone d (response p True)
         | HEARTBEAT \<Rightarrow> sentDone d (response p True)
         | SYNC_STATUS \<Rightarrow> sentDone d (responseVersionMap p (getFileVersionMapDisk d))
         | IDENTIFY \<Rightarrow> sentDone d (responseIdent p (nodeType p) (processName p))
         | CONNECT_SERVER \<Rightarrow> sentDone d (response p False)
         | CLOSE \<Rightarrow>
             sentThen d (response p True)
               (\<lambda>p1. (Inr (), d, p1\<lparr>alive := False, chan := closeChannel (chan p1)\<rparr>))
         | RESPONSE \<Rightarrow> (Inr (), d, p\<lparr>alive := False\<rparr>)
         | _ \<Rightarrow> (Inr (), d, p))"

definition responseDispatcher :: "disk \<Rightarrow> proto \<Rightarrow> Message \<Rightarrow> dispatched" where
  "responseDispatcher d p message =
     (if opcode message \<in> {PUSH_CREATE_FILE, PUSH_UPDATE_FILE, PUSH_DELETE_FILE} then (Inr (), d, p)
      else requestDispatcher d p message)"

end
