(* ===== verification/Protocol_Delivery.thy ===== *)
theory Protocol_Delivery
  imports Squid_Protocol
begin

text \<open>
  What a protocol endpoint delivers: frames are read back exactly as they were written, in sequence
  order even when they arrive out of order or twice, and a stream that is cut or does not start with
  the magic number closes the endpoint instead of delivering something else.
\<close>

section \<open>The frame loops are the transfer loops\<close>

lemma recvExactLoop_recvLoop:
  assumes "0 < n"
  shows "recvExactLoop p n buf =
    (case recvLoop (chan p) n buf of
       (r, bs, c) \<Rightarrow> if 0 < r then (True, bs, p\<lparr>chan := c\<rparr>) else (False, bs, p\<lparr>chan := c, alive := False\<rparr>))"
  using assms
proof (induction p n buf rule: recvExactLoop.induct)
  case (1 p n buf)
  obtain r bs c1 where rd: "readBytes (chan p) (n - length buf) = (r, bs, c1)"
    by (cases "readBytes (chan p) (n - length buf)")
  show ?case
  proof (cases "length buf < n \<and> 0 < r")
    case True
    then have hr: "handleRecvError (p\<lparr>chan := c1\<rparr>) r = (True, p\<lparr>chan := c1\<rparr>)"
      by (simp add: handleRecvError_def)
    from True "1.IH" [OF _ refl rd [symmetric] refl refl hr [symmetric] TrueI "1.prems"] hr show ?thesis
      by (subst recvExactLoop.simps, subst recvLoop.simps) (simp add: rd split: prod.splits)
  next
    case False
    with "1.prems" show ?thesis
      by (subst recvExactLoop.simps, subst recvLoop.simps)
         (auto simp: rd handleRecvError_def)
  qed
qed

lemma sendFrameLoop_sendLoop:
  assumes "0 \<le> s"
  shows "sendFrameLoop p rest =
    (case sendLoop (chan p) rest s of
       (r, c) \<Rightarrow> if rest = [] \<or> 0 < r then p\<lparr>chan := c\<rparr> else p\<lparr>chan := c, alive := False\<rparr>)"
  using assms
proof (induction p rest arbitrary: s rule: sendFrameLoop.induct)
  case (1 p rest)
  obtain n c1 where w: "writeBytes (chan p) rest = (n, c1)"
    by fastforce
  show ?case
  proof (cases "rest \<noteq> [] \<and> 0 < n")
    case True
    obtain r c where l: "sendLoop c1 (drop (nat n) rest) (s + n) = (r, c)"
      by fastforce
    have "drop (nat n) rest = [] \<Longrightarrow> 0 < r"
      using l True "1.prems" by (simp add: sendLoop.simps)
    with True l "1.IH" [OF _ refl w [symmetric], of "s + n"] "1.prems" show ?thesis
      by (subst sendFrameLoop.simps, subst sendLoop.simps) (auto simp: w)
  next
    case False
    then show ?thesis
      by (subst sendFrameLoop.simps, subst sendLoop.simps) (auto simp: w)
  qed
qed

section \<open>Reading frames off the wire\<close>

definition available :: "proto \<Rightarrow> bytes" where
  "available p = rx_avail (chan p)"

definition link ::
    "proto \<Rightarrow> (bool \<times> string \<times> string) \<times> (bool \<times> send_event list \<times> bytes) \<times> (u32 \<times> u32 \<times> u32) \<times> (u32, bytes) omap" where
  \<comment> \<open>everything but what is still to be received\<close>
  "link p = ((alive p, processName p, nodeType p), tx_side (chan p),
             (nextSendSeq p, expectedRecvSeq p, lastDeliveredSeq p), reorderBuffer p)"

lemma link_cong:
  assumes "link p' = link p"
  shows "alive p' = alive p" "processName p' = processName p" "nodeType p' = nodeType p"
    "tx_side (chan p') = tx_side (chan p)" "nextSendSeq p' = nextSendSeq p"
    "expectedRecvSeq p' = expectedRecvSeq p" "lastDeliveredSeq p' = lastDeliveredSeq p"
    "reorderBuffer p' = reorderBuffer p"
  using assms by (simp_all add: link_def)

lemma link_chan: "tx_side c = tx_side (chan p) \<Longrightarrow> link (p\<lparr>chan := c\<rparr>) = link p"
  by (simp add: link_def)

interpretation recv_exact: exact_reader recvExact available link
proof
  fix n p
  assume n: "0 < n" "n \<le> length (available p)"
  from recvLoop_ok [of "[]" n "chan p"] n obtain c' where
    "recvLoop (chan p) n [] = (int n, take n (available p), c')" "rx_avail c' = drop n (available p)"
    "tx_side c' = tx_side (chan p)"
    by (auto simp: available_def)
  with n(1) show "\<exists>p'. recvExact p n = (True, take n (available p), p') \<and>
      available p' = drop n (available p) \<and> link p' = link p"
    by (simp add: recvExact_def recvExactLoop_recvLoop available_def link_chan)
next
  fix n p
  assume n: "length (available p) < n"
  with recvLoop_short [of "chan p" n "[]"] show "\<exists>bs p'. recvExact p n = (False, bs, p')"
    by (auto simp: recvExact_def recvExactLoop_recvLoop available_def split: prod.splits)
qed

lemma recvExact_fail_dead: "recvExact p n = (False, bs, p') \<Longrightarrow> \<not> alive p'"
  by (cases "n = 0") (auto simp: recvExact_def recvExactLoop.simps [of p 0] recvExactLoop_recvLoop
      split: prod.splits if_splits)

definition wf_msg :: "Message \<Rightarrow> bool" where
  "wf_msg m \<longleftrightarrow> wf_opcode (opcode m) \<and> length (mfields m) \<le> 255 \<and> (\<forall>f\<in>set (mfields m). wf_field f) \<and> payloadLen m = 0"

definition wireMsg :: "Message \<Rightarrow> bytes" where
  \<comment> \<open>the frame of a message, its sequence number stamped\<close>
  "wireMsg m = frameHeader (opcode m) (flags m) (length (mfields m)) (seq m) (payloadLen m) @
               concat (map encodeField (mfields m))"

lemma parse_wireMsg: "wf_msg m \<Longrightarrow> parseMessage (wireMsg m) = Inr m"
  using parse_frame [of "opcode m" "mfields m" "flags m" "seq m" "payloadLen m" "[]"]
  by (simp add: wf_msg_def wireMsg_def)

lemma wireMsg_nonempty [simp]: "wireMsg m \<noteq> []"
  by (metis append_is_Nil_conv length_frameHeader less_nat_zero_code FRAME_HEADER_SIZE_pos list.size(3) wireMsg_def)

lemma recvFields_encode:
  assumes "available p = concat (map encodeField fs) @ rest" and "\<forall>f\<in>set fs. wf_field f"
  shows "\<exists>p'. recvFields p (length fs) frame = (Some (frame @ concat (map encodeField fs)), p') \<and>
    available p' = rest \<and> link p' = link p"
  using assms
proof (induction fs arbitrary: p frame)
  case (Cons f fs)
  let ?tail = "concat (map encodeField fs) @ rest"
  define h where "h = field_byte (fid f) # pushU16 [] (of_nat (length (fvalue f)))"
  have h: "length h = 3" "h \<noteq> []"
    by (simp_all add: h_def)
  have enc: "encodeField f = h @ fvalue f"
    by (simp add: encodeField_def h_def)
  have av: "available p = h @ fvalue f @ ?tail"
    using Cons.prems(1) by (simp add: enc)
  obtain p1 where p1: "recvExact p 3 = (True, h, p1)" "available p1 = fvalue f @ ?tail" "link p1 = link p"
    using recv_exact.read_app_n [OF av _ h(2), of 3] h(1) by auto
  have "length (fvalue f) < 2 ^ LENGTH(16)"
    using Cons.prems(2) by (simp add: wf_field_def)
  then have vlen: "unat (readU16 (drop 1 h)) = length (fvalue f)"
    using readU16_pushU16 [of "of_nat (length (fvalue f))" "[]"] by (simp add: h_def unat_of_nat_small)
  have hd3: "[h ! 0, h ! 1, h ! 2] = h"
    by (simp add: h_def pushU16_def numeral_2_eq_2)
  show ?case
  proof (cases "fvalue f = []")
    case True
    with p1 have "available p1 = ?tail"
      by simp
    from Cons.IH [OF this, of "frame @ h"] Cons.prems(2) True p1 show ?thesis
      unfolding list.size(4) add_Suc_right add_0_right recvFields.simps p1(1) Let_def prod.case vlen hd3 enc
      by (simp add: enc)
  next
    case False
    obtain p2 where p2: "recvExact p1 (length (fvalue f)) = (True, fvalue f, p2)" "available p2 = ?tail" "link p2 = link p1"
      using recv_exact.read_app [OF p1(2) False] by blast
    from Cons.IH [OF p2(2), of "(frame @ h) @ fvalue f"] Cons.prems(2) False p1 p2 show ?thesis
      unfolding list.size(4) add_Suc_right add_0_right recvFields.simps p1(1) Let_def prod.case vlen hd3 enc
      by (simp add: enc)
  qed
qed simp

lemma receiveFrame_wire:
  assumes "available p = wireMsg m @ rest" and "wf_msg m"
  shows "\<exists>p'. receiveFrame p = (wireMsg m, p') \<and> available p' = rest \<and> link p' = link p"
proof -
  let ?h = "frameHeader (opcode m) (flags m) (length (mfields m)) (seq m) (payloadLen m)"
  let ?body = "concat (map encodeField (mfields m))"
  have av: "available p = ?h @ ?body @ rest"
    using assms(1) by (simp add: wireMsg_def)
  have "?h \<noteq> []"
    by (metis FRAME_HEADER_SIZE_pos length_frameHeader less_nat_zero_code list.size(3))
  then obtain p1 where p1: "recvExact p FRAME_HEADER_SIZE = (True, ?h, p1)" "available p1 = ?body @ rest" "link p1 = link p"
    using recv_exact.read_app_n [OF av, of FRAME_HEADER_SIZE] by auto
  have fields: "\<forall>f\<in>set (mfields m). wf_field f" "length (mfields m) \<le> 255" "payloadLen m = 0"
    using assms(2) by (simp_all add: wf_msg_def)
  obtain p2 where p2: "recvFields p1 (length (mfields m)) ?h = (Some (?h @ ?body), p2)" "available p2 = rest" "link p2 = link p1"
    using recvFields_encode [OF p1(2) fields(1)] by blast
  have hdr: "readU16 ?h = SQUID_MAGIC" "?h ! 4 = of_nat (length (mfields m))" "readU32 (drop 9 ?h) = 0"
    using fields(3) by (simp_all add: frameHeader_def pushU16_def numeral_eq_Suc)
       (simp_all add: readU16_def SQUID_MAGIC_def pushU32_def readU32_def)
  have nf: "unat (?h ! 4) = length (mfields m)"
    unfolding hdr(2) using fields(2) by (intro unat_of_nat_small) simp
  show ?thesis
    unfolding receiveFrame_def p1(1) Let_def prod.case nf p2(1) hdr(1,3) using p1 p2
    by (simp add: wireMsg_def)
qed

section \<open>Delivery in order\<close>

lemma nextFrame_wire:
  assumes "om_find (reorderBuffer p) (expectedRecvSeq p) = None"
    and "available p = wireMsg m @ rest" and "wf_msg m"
  shows "\<exists>p'. nextFrame p = (wireMsg m, p') \<and> available p' = rest \<and> link p' = link p"
  using receiveFrame_wire [OF assms(2,3)] assms(1) by (simp add: nextFrame_def popNextBuffered_def)

definition delivered :: "proto \<Rightarrow> Message \<Rightarrow> proto \<Rightarrow> bool" where
  \<comment> \<open>the state after the delivery of a message, apart from the channel\<close>
  "delivered p m p' \<longleftrightarrow>
     alive p' = alive p \<and> processName p' = processName p \<and> nodeType p' = nodeType p \<and>
     tx_side (chan p') = tx_side (chan p) \<and> nextSendSeq p' = nextSendSeq p \<and>
     expectedRecvSeq p' = expectedRecvSeq p + 1 \<and> lastDeliveredSeq p' = seq m"

lemma receive_in_order:
  assumes "om_find (reorderBuffer p) (expectedRecvSeq p) = None"
    and "available p = wireMsg m @ rest" and "wf_msg m" and "seq m = expectedRecvSeq p"
  shows "\<exists>p'. receiveAndParse p = (m, p') \<and> available p' = rest \<and> delivered p m p' \<and> reorderBuffer p' = reorderBuffer p"
proof -
  obtain p1 where p1: "nextFrame p = (wireMsg m, p1)" "available p1 = rest" "link p1 = link p"
    using nextFrame_wire [OF assms(1-3)] by blast
  note eqs = link_cong [OF p1(3)]
  have "receiveAndParse p = deliver p1 m"
    using assms(4) eqs by (intro receiveAndParse_unfold(3) [OF p1(1)]) (simp_all add: parse_wireMsg assms(3))
  with eqs p1(2) show ?thesis
    by (simp add: deliver_def delivered_def available_def)
qed

definition holds_early :: "Message list \<Rightarrow> proto \<Rightarrow> bool" where
  \<comment> \<open>of the frames read so far, the buffer has the first one for every number still to be delivered\<close>
  "holds_early read p \<longleftrightarrow> om_ok (reorderBuffer p) \<and>
     (\<forall>k\<ge>expectedRecvSeq p. om_find (reorderBuffer p) k = map_option wireMsg (find (\<lambda>m. seq m = k) read))"

lemma find_append: "find P (xs @ ys) = (case find P xs of None \<Rightarrow> find P ys | Some x \<Rightarrow> Some x)"
  by (induction xs) auto

lemma find_seq: "find (\<lambda>m. seq m = k) ms = Some m \<Longrightarrow> seq m = k \<and> m \<in> set ms"
  by (auto simp: find_Some_iff)

lemma less_succ_le: "e < e + 1 \<Longrightarrow> e + 1 \<le> k \<Longrightarrow> e < k" for e k :: u32
  by (rule less_le_trans)

lemma receive_buffered:
  assumes "holds_early read p" and "find (\<lambda>m. seq m = expectedRecvSeq p) read = Some m" and "wf_msg m"
    and "expectedRecvSeq p < expectedRecvSeq p + 1"
  shows "\<exists>p'. receiveAndParse p = (m, p') \<and> holds_early read p' \<and> available p' = available p \<and>
    expectedRecvSeq p' = expectedRecvSeq p + 1"
proof -
  let ?e = "expectedRecvSeq p"
  let ?p = "p\<lparr>reorderBuffer := om_erase ?e (reorderBuffer p)\<rparr>"
  have n: "nextFrame p = (wireMsg m, ?p)"
    using assms(1,2) by (simp add: nextFrame_def popNextBuffered_def holds_early_def)
  have r: "receiveAndParse p = deliver ?p m"
    using find_seq [OF assms(2)] assms(3) by (intro receiveAndParse_unfold(3) [OF n]) (simp_all add: parse_wireMsg)
  have "?e < k" if "?e + 1 \<le> k" for k
    using assms(4) that by (rule less_succ_le)
  then have "holds_early read (snd (deliver ?p m))"
    using assms(1) by (auto simp: holds_early_def deliver_def dest: order_less_imp_le)
  with r show ?thesis
    by (simp add: deliver_def available_def)
qed

lemma receive_next:
  assumes "holds_early read p" and "available p = concat (map wireMsg ms) @ rest"
    and "\<forall>m\<in>set (read @ ms). wf_msg m" and "find (\<lambda>m. seq m = expectedRecvSeq p) (read @ ms) = Some m"
    and "expectedRecvSeq p < expectedRecvSeq p + 1"
  shows "\<exists>p' read' ms'. receiveAndParse p = (m, p') \<and> read' @ ms' = read @ ms \<and> holds_early read' p' \<and>
    available p' = concat (map wireMsg ms') @ rest \<and> expectedRecvSeq p' = expectedRecvSeq p + 1"
proof (cases "find (\<lambda>m. seq m = expectedRecvSeq p) read")
  case (Some m')
  with assms(3,4) have "m' = m" "wf_msg m"
    by (auto simp: find_append dest: find_seq)
  with receive_buffered [OF assms(1), of m] Some assms(2,5) show ?thesis
    by metis
next
  case None
  then show ?thesis
    using assms
  proof (induction ms arbitrary: read p)
    case (Cons x ms)
    let ?e = "expectedRecvSeq p"
    have buf: "om_find (reorderBuffer p) ?e = None"
      using Cons.prems(1,2) by (simp add: holds_early_def)
    have "available p = wireMsg x @ concat (map wireMsg ms) @ rest" "wf_msg x"
      using Cons.prems(3,4) by simp_all
    from nextFrame_wire [OF buf this] obtain p1 where
      p1: "nextFrame p = (wireMsg x, p1)" "available p1 = concat (map wireMsg ms) @ rest" "link p1 = link p"
      by blast
    note eqs = link_cong [OF p1(3)] and unfold = receiveAndParse_unfold [OF p1(1)]
    have px: "parseMessage (wireMsg x) = Inr x"
      using Cons.prems(4) by (simp add: parse_wireMsg)
    consider (now) "seq x = ?e" | (early) "seq x > ?e" | (late) "seq x < ?e"
      by fastforce
    then show ?case
    proof cases
      case now
      then have "m = x"
        using Cons.prems(1,5) by (simp add: find_append)
      moreover have "receiveAndParse p = deliver p1 x"
        using now eqs px by (intro unfold(3)) simp_all
      moreover have "holds_early (read @ [x]) (snd (deliver p1 x))"
        using Cons.prems(2,6) now eqs less_succ_le [OF Cons.prems(6)]
        by (auto simp: holds_early_def deliver_def find_append less_imp_le split: option.splits)
      ultimately show ?thesis
        using p1(2) eqs
        by (intro exI [of _ "snd (deliver p1 x)"] exI [of _ "read @ [x]"] exI [of _ ms])
           (simp add: deliver_def available_def)
    next
      case early
      let ?p = "p1\<lparr>reorderBuffer := om_insert (seq x) (wireMsg x) (reorderBuffer p1)\<rparr>"
      have r: "receiveAndParse p = receiveAndParse ?p"
        using early eqs px by (intro unfold(4)) simp_all
      have h: "holds_early (read @ [x]) ?p"
        using Cons.prems(2) early eqs
        by (auto simp: holds_early_def om_find_insert find_append split: option.splits)
      have "find (\<lambda>m. seq m = expectedRecvSeq ?p) (read @ [x]) = None"
        using Cons.prems(1) early eqs by (simp add: find_append)
      from Cons.IH [OF this h] Cons.prems(4-6) p1(2) eqs show ?thesis
        unfolding r by (simp add: available_def)
    next
      case late
      have r: "receiveAndParse p = receiveAndParse p1"
        using late eqs px by (intro unfold(5)) simp_all
      have h: "holds_early (read @ [x]) p1"
        using Cons.prems(2) late eqs
        by (auto simp: holds_early_def find_append split: option.splits)
      have "find (\<lambda>m. seq m = expectedRecvSeq p1) (read @ [x]) = None"
        using Cons.prems(1) late eqs by (simp add: find_append)
      from Cons.IH [OF this h] Cons.prems(4-6) p1(2) eqs show ?thesis
        unfolding r by (simp add: available_def)
    qed
  qed simp
qed

fun receiveMany :: "nat \<Rightarrow> proto \<Rightarrow> Message list \<times> proto" where
  "receiveMany 0 p = ([], p)"
| "receiveMany (Suc n) p =
     (let (m, p1) = receiveAndParse p; (ms, p2) = receiveMany n p1 in (m # ms, p2))"

lemma no_wrap_succ: "unat e + Suc n < 2 ^ 32 \<Longrightarrow> e < e + 1 \<and> unat (e + 1) = Suc (unat e)" for e :: u32
  by (simp add: word_less_nat_alt unat_plus_if')

lemma receiveMany_in_order:
  assumes "holds_early read p" and "available p = concat (map wireMsg ms) @ rest"
    and "\<forall>m\<in>set (read @ ms). wf_msg m" and "unat (expectedRecvSeq p) + n < 2 ^ 32"
    and "\<forall>i<n. find (\<lambda>m. seq m = expectedRecvSeq p + of_nat i) (read @ ms) \<noteq> None"
  shows "map Some (fst (receiveMany n p)) =
    map (\<lambda>i. find (\<lambda>m. seq m = expectedRecvSeq p + of_nat i) (read @ ms)) [0..<n]"
  using assms
proof (induction n arbitrary: p read ms)
  case (Suc n)
  let ?e = "expectedRecvSeq p"
  note wrap = no_wrap_succ [OF Suc.prems(4)]
  obtain m where m: "find (\<lambda>m. seq m = ?e) (read @ ms) = Some m"
    using Suc.prems(5) [rule_format, of 0] by auto
  obtain p' read' ms' where p': "receiveAndParse p = (m, p')" "read' @ ms' = read @ ms" "holds_early read' p'"
    "available p' = concat (map wireMsg ms') @ rest" "expectedRecvSeq p' = ?e + 1"
    using receive_next [OF Suc.prems(1-3) m] wrap by blast
  have shift: "?e + 1 + of_nat i = ?e + of_nat (Suc i)" for i
    by (simp add: algebra_simps)
  have "\<forall>i<n. find (\<lambda>m. seq m = expectedRecvSeq p' + of_nat i) (read' @ ms') \<noteq> None"
    unfolding p'(2,5) shift using Suc.prems(5) by blast
  moreover have "\<forall>m\<in>set (read' @ ms'). wf_msg m" "unat (expectedRecvSeq p') + n < 2 ^ 32"
    using Suc.prems(3,4) wrap by (simp_all only: p'(2,5))
  ultimately have "map Some (fst (receiveMany n p')) =
      map (\<lambda>i. find (\<lambda>m. seq m = expectedRecvSeq p' + of_nat i) (read' @ ms')) [0..<n]"
    using Suc.IH [OF p'(3,4)] by blast
  then show ?case
    unfolding map_upt_Suc p'(2,5) shift using m by (simp add: p'(1) split_beta)
qed simp

section \<open>Sending frames\<close>

lemma sendFrame_ready:
  assumes "tx_ready (chan p)" and "FRAME_HEADER_SIZE \<le> length f"
  shows "\<exists>c. sendFrame p f = p\<lparr>nextSendSeq := nextSendSeq p + 1, chan := c\<rparr> \<and>
    tx c = tx (chan p) @ stampSeq f (nextSendSeq p) \<and> tx_ready c \<and> rx_side c = rx_side (chan p)"
proof -
  let ?f = "stampSeq f (nextSendSeq p)"
  have "length ?f = length f"
    by (simp add: stampSeq_def)
  with assms(2) have ne: "?f \<noteq> []"
    by (auto simp: FRAME_HEADER_SIZE_def)
  obtain r c where s: "sendLoop (chan p) ?f 0 = (r, c)"
    by fastforce
  have c: "0 < r" "tx c = tx (chan p) @ ?f" "tx_ready c" "rx_side c = rx_side (chan p)"
    using send_all.write_all [OF assms(1) ne] s by (auto simp: sendChecked_def sendAll_def)
  then have "sendFrame p f = p\<lparr>nextSendSeq := nextSendSeq p + 1, chan := c\<rparr>"
    by (simp add: sendFrame_def sendFrameLoop_sendLoop [of 0] s)
  with c show ?thesis
    by blast
qed

lemma buildFrame_wire:
  assumes "\<forall>f\<in>set fs. wf_field f" and "length fs \<le> 255"
  shows "\<exists>f. buildFrame op fl fs 0 = Inr f \<and> FRAME_HEADER_SIZE \<le> length f \<and>
    (\<forall>s. stampSeq f s = wireMsg \<lparr>opcode = op, flags = fl, seq = s, payloadLen = 0, mfields = fs\<rparr>)"
  using assms by (simp add: buildFrame_ok wf_field_def wireMsg_def stampSeq_header)

text \<open>A built frame, sent by an endpoint whose peer keeps taking bytes.\<close>

lemma sendBuilt_ready:
  assumes "tx_ready (chan p)" and "\<forall>f\<in>set fs. wf_field f" and "length fs \<le> 255"
  shows "\<exists>c. sendBuilt p (buildFrame op fl fs 0) = (Inr (), p\<lparr>nextSendSeq := nextSendSeq p + 1, chan := c\<rparr>) \<and>
    tx c = tx (chan p) @ wireMsg \<lparr>opcode = op, flags = fl, seq = nextSendSeq p, payloadLen = 0, mfields = fs\<rparr> \<and>
    tx_ready c \<and> rx_side c = rx_side (chan p)"
proof -
  obtain f where f: "buildFrame op fl fs 0 = Inr f" "FRAME_HEADER_SIZE \<le> length f"
    "stampSeq f (nextSendSeq p) = wireMsg \<lparr>opcode = op, flags = fl, seq = nextSendSeq p, payloadLen = 0, mfields = fs\<rparr>"
    using buildFrame_wire [OF assms(2,3)] by blast
  from sendFrame_ready [OF assms(1) f(2)] f show ?thesis
    by (simp add: sendBuilt_def)
qed

section \<open>The frame at the head of a stream\<close>

text \<open>
  A specification of the frame reader on the stream alone: the next frame and what follows it, if the
  stream has one. The reader implements it for every fragmentation, and a frame that is cut short is
  never mistaken for another one.
\<close>

fun fieldsLen :: "nat \<Rightarrow> bytes \<Rightarrow> nat option" where
  "fieldsLen 0 s = Some 0"
| "fieldsLen (Suc n) s =
     (if length s < 3 then None
      else let vlen = unat (readU16 (take 2 (drop 1 s)))
           in if length s < 3 + vlen then None
              else map_option (\<lambda>k. 3 + vlen + k) (fieldsLen n (drop (3 + vlen) s)))"

definition frameOf :: "bytes \<Rightarrow> (bytes \<times> bytes) option" where
  "frameOf s =
     (let h = take FRAME_HEADER_SIZE s
      in if length s < FRAME_HEADER_SIZE \<or> readU16 h \<noteq> SQUID_MAGIC then None
         else case fieldsLen (unat (h ! 4)) (drop FRAME_HEADER_SIZE s) of
                None \<Rightarrow> None
              | Some k \<Rightarrow>
                  let plen = readU32 (drop 9 h); n = FRAME_HEADER_SIZE + k + unat plen
                  in if plen > MAX_PAYLOAD_SIZE \<or> length s < n then None else Some (take n s, drop n s))"

lemma fieldsLen_bound: "fieldsLen n s = Some k \<Longrightarrow> k \<le> length s"
proof (induction n arbitrary: s k)
  case (Suc n)
  let ?v = "unat (readU16 (take 2 (drop 1 s)))"
  from Suc.prems obtain k' where k: "3 + ?v \<le> length s" "fieldsLen n (drop (3 + ?v) s) = Some k'" "k = 3 + ?v + k'"
    by (auto simp: Let_def not_less split: if_splits)
  from Suc.IH [OF k(2)] k show ?case
    by simp
qed simp

lemma fieldsLen_mono: "fieldsLen n (take j s) = Some k \<Longrightarrow> fieldsLen n s = Some k"
proof (induction n arbitrary: s j k)
  case (Suc n)
  let ?t = "take j s"
  let ?v = "unat (readU16 (take 2 (drop 1 ?t)))"
  from Suc.prems obtain k' where k: "3 \<le> length ?t" "3 + ?v \<le> length ?t"
      "fieldsLen n (drop (3 + ?v) ?t) = Some k'" "k = 3 + ?v + k'"
    by (auto simp: Let_def not_less split: if_splits)
  have "2 \<le> j - 1"
    using k(1) by auto
  then have "min 2 (j - 1) = 2"
    by (rule min_absorb1)
  then have "take 2 (drop 1 ?t) = take 2 (drop 1 s)"
    by (simp add: drop_take)
  moreover have "fieldsLen n (drop (3 + ?v) s) = Some k'"
    using k(3) unfolding drop_take by (rule Suc.IH)
  ultimately show ?case
    using k by (simp add: Let_def not_less)
qed simp

lemma frameOf_mono:
  assumes "frameOf (take j s) = Some (raw, rest)"
  shows "\<exists>rest'. frameOf s = Some (raw, rest') \<and> length raw \<le> j"
proof -
  let ?t = "take j s"
  let ?h = "take FRAME_HEADER_SIZE ?t"
  from assms obtain k where len: "FRAME_HEADER_SIZE \<le> length ?t" and magic: "readU16 ?h = SQUID_MAGIC"
    and k: "fieldsLen (unat (?h ! 4)) (drop FRAME_HEADER_SIZE ?t) = Some k"
    and plen: "\<not> readU32 (drop 9 ?h) > MAX_PAYLOAD_SIZE"
      "FRAME_HEADER_SIZE + k + unat (readU32 (drop 9 ?h)) \<le> length ?t"
    and raw: "raw = take (FRAME_HEADER_SIZE + k + unat (readU32 (drop 9 ?h))) ?t"
    by (auto simp: frameOf_def Let_def not_less split: if_splits option.splits)
  have h: "?h = take FRAME_HEADER_SIZE s"
    using len by (simp add: min_absorb1)
  have "fieldsLen (unat (?h ! 4)) (drop FRAME_HEADER_SIZE s) = Some k"
    using k unfolding drop_take by (rule fieldsLen_mono)
  moreover
  define N where "N = FRAME_HEADER_SIZE + k + unat (readU32 (drop 9 ?h))"
  then have N: "N \<le> j" "N \<le> length s" "raw = take N ?t"
    using raw plen(2) by auto
  then have "raw = take N s" "length raw \<le> j"
    by (simp_all add: min_absorb1)
  ultimately show ?thesis
    using len magic plen(1) N(2) unfolding N_def h by (simp add: frameOf_def Let_def not_less)
qed

lemma recvFields_None_dead: "recvFields p n frame = (None, p') \<Longrightarrow> \<not> alive p'"
proof (induction n arbitrary: p frame)
  case (Suc n)
  obtain ok fhdr p1 where h: "recvExact p 3 = (ok, fhdr, p1)"
    by (cases "recvExact p 3")
  obtain ok2 val p2 where v: "recvExact p1 (unat (readU16 (drop (Suc 0) fhdr))) = (ok2, val, p2)"
    by (cases "recvExact p1 (unat (readU16 (drop (Suc 0) fhdr)))")
  from Suc.prems show ?case
    using recvExact_fail_dead [of p 3 fhdr p1] recvExact_fail_dead [of p1 _ val p2] h v
    by (auto simp: Let_def split: if_splits dest: Suc.IH)
qed simp

lemma recvFields_spec:
  "case fieldsLen n (available p) of
     Some k \<Rightarrow> (\<exists>p'. recvFields p n frame = (Some (frame @ take k (available p)), p') \<and>
                 available p' = drop k (available p) \<and> link p' = link p)
   | None \<Rightarrow> (\<exists>p'. recvFields p n frame = (None, p'))"
proof (induction n arbitrary: p frame)
  case (Suc n)
  let ?s = "available p"
  show ?case
  proof (cases "length ?s < 3")
    case True
    with recv_exact.read_short [of p 3] show ?thesis
      by auto
  next
    case False
    then obtain p1 where p1: "recvExact p 3 = (True, take 3 ?s, p1)" "available p1 = drop 3 ?s" "link p1 = link p"
      using recv_exact.read_ok [of 3 p] by auto
    have vl: "drop 1 (take 3 ?s) = take 2 (drop 1 ?s)"
      by (simp add: drop_take)
    obtain a b c r where "?s = a # b # c # r"
      using False by (auto simp: numeral_3_eq_3 not_less Suc_le_length_iff)
    then have hd3: "[take 3 ?s ! 0, take 3 ?s ! 1, take 3 ?s ! 2] = take 3 ?s"
      by (simp add: numeral_2_eq_2)
    define v where "v = unat (readU16 (take 2 (drop 1 ?s)))"
    have step: "recvFields p (Suc n) frame =
      (if 0 < v then (let (ok2, val, p2) = recvExact p1 v
                      in if \<not> ok2 then (None, p2) else recvFields p2 n ((frame @ take 3 ?s) @ val))
       else recvFields p1 n (frame @ take 3 ?s))"
      unfolding recvFields.simps p1(1) Let_def prod.case vl hd3 v_def by simp
    have tk: "take 3 ?s @ take m (drop 3 ?s) = take (3 + m) ?s" for m
      by (simp add: take_add)
    show ?thesis
    proof (cases "length ?s < 3 + v")
      case True
      then have "length (available p1) < v"
        using p1(2) False by simp
      with recv_exact.read_short [of p1 v] True False show ?thesis
        unfolding step fieldsLen.simps Let_def v_def [symmetric] by auto
    next
      case enough: False
      obtain p2 where p2: "link p2 = link p" "available p2 = drop (3 + v) ?s"
        "recvFields p (Suc n) frame = recvFields p2 n (frame @ take (3 + v) ?s)"
      proof (cases "v = 0")
        case True
        with p1 that [of p1] show ?thesis
          by (simp only: step) simp
      next
        case False
        moreover have "v \<le> length (available p1)"
          using enough p1(2) by simp
        ultimately obtain p2 where "recvExact p1 v = (True, take v (drop 3 ?s), p2)"
            "available p2 = drop v (drop 3 ?s)" "link p2 = link p1"
          using recv_exact.read_ok [of v p1] p1(2) by auto
        with p1 False that [of p2] show ?thesis
          by (simp only: step) (simp add: tk add.commute)
      qed
      have fl: "fieldsLen (Suc n) ?s = map_option (\<lambda>k. 3 + v + k) (fieldsLen n (drop (3 + v) ?s))"
        using False enough unfolding fieldsLen.simps Let_def v_def [symmetric] by simp
      have dr: "drop k (drop (3 + v) ?s) = drop (3 + v + k) ?s"
        "take (3 + v) ?s @ take k (drop (3 + v) ?s) = take (3 + v + k) ?s" for k
        by (simp_all only: drop_drop take_add [symmetric] add.commute)
      from Suc.IH [of p2 "frame @ take (3 + v) ?s"] show ?thesis
        unfolding fl p2 by (cases "fieldsLen n (drop (3 + v) ?s)") (simp_all only: option.map option.case append_assoc dr)
    qed
  qed
qed simp

lemma receiveFrame_spec:
  "case frameOf (available p) of
     Some (raw, rest) \<Rightarrow> (\<exists>p'. receiveFrame p = (raw, p') \<and> raw \<noteq> [] \<and> available p' = rest \<and> link p' = link p)
   | None \<Rightarrow> (\<exists>p'. receiveFrame p = ([], p') \<and> \<not> alive p')"
proof -
  let ?s = "available p"
  let ?h = "take FRAME_HEADER_SIZE ?s"
  let ?n = "unat (?h ! 4)"
  let ?pl = "readU32 (drop 9 ?h)"
  show ?thesis
  proof (cases "length ?s < FRAME_HEADER_SIZE")
    case True
    then obtain bs p' where r: "recvExact p FRAME_HEADER_SIZE = (False, bs, p')"
      using recv_exact.read_short by blast
    with recvExact_fail_dead [OF r] True show ?thesis
      by (simp add: receiveFrame_def frameOf_def Let_def)
  next
    case len: False
    then obtain p1 where p1: "recvExact p FRAME_HEADER_SIZE = (True, ?h, p1)"
        "available p1 = drop FRAME_HEADER_SIZE ?s" "link p1 = link p"
      using recv_exact.read_ok [of FRAME_HEADER_SIZE p] by auto
    show ?thesis
    proof (cases "readU16 ?h = SQUID_MAGIC")
      case False
      with len p1 show ?thesis
        by (simp add: receiveFrame_def frameOf_def Let_def)
    next
      case magic: True
      have step: "receiveFrame p =
        (case recvFields p1 ?n ?h of
           (None, p2) \<Rightarrow> ([], p2)
         | (Some frame, p2) \<Rightarrow>
             if ?pl > MAX_PAYLOAD_SIZE then ([], p2\<lparr>alive := False\<rparr>)
             else if ?pl > 0 then (let (ok3, payload, p3) = recvExact p2 (unat ?pl)
                                   in if \<not> ok3 then ([], p3) else (frame @ payload, p3))
             else (frame, p2))"
        unfolding receiveFrame_def p1(1) Let_def prod.case using magic by simp
      show ?thesis
      proof (cases "fieldsLen ?n (drop FRAME_HEADER_SIZE ?s)")
        case None
        with recvFields_spec [where n = "?n" and p = p1 and frame = "?h"] p1(2) obtain p2 where p2: "recvFields p1 ?n ?h = (None, p2)"
          by auto
        with recvFields_None_dead [OF p2] None len magic show ?thesis
          unfolding step by (simp add: frameOf_def Let_def)
      next
        case (Some k)
        with recvFields_spec [where n = "?n" and p = p1 and frame = "?h"] p1(2) obtain p2 where
          p2: "recvFields p1 ?n ?h = (Some (take (FRAME_HEADER_SIZE + k) ?s), p2)"
            "available p2 = drop (FRAME_HEADER_SIZE + k) ?s" "link p2 = link p"
          using p1(3) by (auto simp: take_add add.commute)
        define m where "m = FRAME_HEADER_SIZE + k"
        have fo: "frameOf ?s = (if ?pl > MAX_PAYLOAD_SIZE \<or> length ?s < m + unat ?pl then None
            else Some (take (m + unat ?pl) ?s, drop (m + unat ?pl) ?s))"
          using Some len magic by (simp add: frameOf_def Let_def m_def)
        have ne: "take (m + unat ?pl) ?s \<noteq> []"
          using len FRAME_HEADER_SIZE_pos by (auto simp: m_def simp del: FRAME_HEADER_SIZE_pos)
        have kb: "m \<le> length ?s"
          using fieldsLen_bound [OF Some] len by (simp add: m_def)
        note p2m = p2 [folded m_def]
        consider (big) "?pl > MAX_PAYLOAD_SIZE" | (none) "\<not> ?pl > MAX_PAYLOAD_SIZE" "?pl = 0"
          | (some) "\<not> ?pl > MAX_PAYLOAD_SIZE" "?pl > 0"
          by (metis word_gt_0)
        then show ?thesis
        proof cases
          case big
          then show ?thesis
            unfolding step fo p2m(1) by simp
        next
          case none
          then show ?thesis
            using kb ne p2m(2,3) unfolding step fo p2m(1) by simp
        next
          case some
          then have pos: "0 < unat ?pl"
            by (simp add: word_gt_0 unat_gt_0)
          show ?thesis
          proof (cases "length ?s < m + unat ?pl")
            case True
            with p2m(2) kb have "length (available p2) < unat ?pl"
              by simp
            then obtain bs p3 where r: "recvExact p2 (unat ?pl) = (False, bs, p3)"
              using recv_exact.read_short by blast
            with recvExact_fail_dead [OF r] True some show ?thesis
              unfolding step fo p2m(1) by simp
          next
            case False
            with p2m(2) kb have "unat ?pl \<le> length (available p2)"
              by simp
            with recv_exact.read_ok [OF pos this] p2m(2,3) False some ne show ?thesis
              unfolding step fo p2m(1) by (auto simp: take_add add.commute)
          qed
        qed
      qed
    qed
  qed
qed

lemma frameOf_wire:
  assumes "wf_msg m"
  shows "frameOf (wireMsg m @ rest) = Some (wireMsg m, rest)"
proof -
  let ?p = "newProto \<lparr>sock_open = True, rx = [RecvBytes (wireMsg m @ rest)], tx_script = [], tx = []\<rparr> ''SERVER'' ''s''"
  have av: "available ?p = wireMsg m @ rest"
    by (simp add: available_def newProto_def rx_avail_def)
  obtain p' where "receiveFrame ?p = (wireMsg m, p')" "available p' = rest"
    using receiveFrame_wire [OF av assms] by blast
  with receiveFrame_spec [of ?p] show ?thesis
    by (auto simp: av split: option.splits)
qed

lemma frameOf_cut:
  assumes "wf_msg m" and "j < length (wireMsg m)"
  shows "frameOf (take j (wireMsg m)) = None"
proof (rule ccontr)
  assume "frameOf (take j (wireMsg m)) \<noteq> None"
  then obtain raw rest where "frameOf (take j (wireMsg m)) = Some (raw, rest)"
    by fastforce
  from frameOf_mono [OF this] frameOf_wire [OF assms(1), of "[]"] assms(2) show False
    by auto
qed

lemma receive_cut:
  assumes "om_find (reorderBuffer p) (expectedRecvSeq p) = None" and "wf_msg m"
    and "available p = take j (wireMsg m)" and "j < length (wireMsg m)"
  shows "\<exists>p'. receiveAndParse p = (makeNack, p') \<and> \<not> alive p'"
proof -
  obtain p' where "nextFrame p = ([], p')" "\<not> alive p'"
    using receiveFrame_spec [of p] frameOf_cut [OF assms(2,4)] assms(1,3)
    by (auto simp: nextFrame_def popNextBuffered_def)
  with receiveAndParse_unfold(1) [OF this(1)] show ?thesis
    by blast
qed

section \<open>Properties\<close>

text \<open>
  C25: messages are delivered in sequence order. Let the wire carry frames in any order, with
  duplicates and with frames from the past, cut into pieces in any way. If a frame with each of the
  next \<open>n\<close> numbers is among them, then \<open>n\<close> calls of the receive function return, one after the other,
  exactly the messages with these numbers, for each number the copy that arrived first.
\<close>

theorem delivery_in_order:
  assumes "reorderBuffer p = []" and "available p = concat (map wireMsg ms) @ rest"
    and "\<forall>m\<in>set ms. wf_msg m" and "unat (expectedRecvSeq p) + n < 2 ^ 32"
    and "\<forall>i<n. \<exists>m\<in>set ms. seq m = expectedRecvSeq p + of_nat i"
  shows "map Some (fst (receiveMany n p)) =
    map (\<lambda>i. find (\<lambda>m. seq m = expectedRecvSeq p + of_nat i) ms) [0..<n]"
proof -
  have "holds_early [] p"
    using assms(1) by (simp add: holds_early_def)
  moreover have "\<forall>i<n. find (\<lambda>m. seq m = expectedRecvSeq p + of_nat i) ([] @ ms) \<noteq> None"
    using assms(5) by (auto simp: find_None_iff)
  ultimately show ?thesis
    using receiveMany_in_order [of "[]" p ms rest n] assms(2-4) by simp
qed

theorem delivery_in_order_witness:
  "map (\<lambda>m. seq m) (fst (receiveMany 3
     (newProto \<lparr>sock_open = True,
        rx = map RecvBytes (map (\<lambda>s. wireMsg \<lparr>opcode = HEARTBEAT, flags = 0, seq = s, payloadLen = 0, mfields = []\<rparr>) [2, 0, 2, 0, 1]),
        tx_script = [], tx = []\<rparr> ''DATANODE'' ''dn''))) = [0, 1, 2]"
proof -
  let ?m = "\<lambda>s. \<lparr>opcode = HEARTBEAT, flags = 0, seq = s, payloadLen = 0, mfields = []\<rparr>"
  let ?p = "newProto \<lparr>sock_open = True, rx = map RecvBytes (map (\<lambda>s. wireMsg (?m s)) [2, 0, 2, 0, 1]),
      tx_script = [], tx = []\<rparr> ''DATANODE'' ''dn''"
  let ?ms = "map ?m [2, 0, 2, 0, 1]"
  have av: "available ?p = concat (map wireMsg ?ms) @ []"
    by (simp add: available_def rx_avail_def newProto_def)
  have "map Some (fst (receiveMany 3 ?p)) = map (\<lambda>i. find (\<lambda>m. seq m = expectedRecvSeq ?p + of_nat i) ?ms) [0..<3]"
  proof (rule delivery_in_order [OF _ av])
    show "reorderBuffer ?p = []" "unat (expectedRecvSeq ?p) + 3 < 2 ^ 32" "\<forall>m\<in>set ?ms. wf_msg m"
      by (simp_all add: newProto_def wf_msg_def)
    show "\<forall>i<3. \<exists>m\<in>set ?ms. seq m = expectedRecvSeq ?p + of_nat i"
      by (auto simp: newProto_def numeral_3_eq_3 less_Suc_eq)
  qed
  also have "\<dots> = map Some [?m 0, ?m 1, ?m 2]"
    by (simp add: newProto_def upt_conv_Cons numeral_3_eq_3)
  finally have "fst (receiveMany 3 ?p) = [?m 0, ?m 1, ?m 2]"
    by (rule map_injective) simp
  then show ?thesis
    by simp
qed

text \<open>
  A stream that has lost its framing closes the endpoint. When at least a header is available but
  it does not begin with the magic number, or when the stream ends inside the header, the receive
  function returns a NACK and the endpoint is dead.
\<close>

lemma desync_closes:
  assumes "om_find (reorderBuffer p) (expectedRecvSeq p) = None"
    and "length (available p) < FRAME_HEADER_SIZE \<or> readU16 (take FRAME_HEADER_SIZE (available p)) \<noteq> SQUID_MAGIC"
  shows "\<exists>p'. receiveAndParse p = (makeNack, p') \<and> \<not> alive p'"
proof -
  have "\<exists>p'. receiveFrame p = ([], p') \<and> \<not> alive p'"
  proof (cases "length (available p) < FRAME_HEADER_SIZE")
    case True
    then obtain bs p' where r: "recvExact p FRAME_HEADER_SIZE = (False, bs, p')"
      using recv_exact.read_short by blast
    with recvExact_fail_dead [OF r] show ?thesis
      by (simp add: receiveFrame_def)
  next
    case False
    then obtain p1 where "recvExact p FRAME_HEADER_SIZE = (True, take FRAME_HEADER_SIZE (available p), p1)"
      using recv_exact.read_ok [of FRAME_HEADER_SIZE p] by auto
    with assms(2) False show ?thesis
      by (simp add: receiveFrame_def)
  qed
  then obtain p' where "nextFrame p = ([], p')" "\<not> alive p'"
    using assms(1) by (auto simp: nextFrame_def popNextBuffered_def)
  with receiveAndParse_unfold(1) [OF this(1)] show ?thesis
    by blast
qed

text \<open>
  C26: the frame reader implements its specification on every connection: it returns the frame at the
  head of the stream and leaves exactly what follows, and when the stream has no complete frame with
  the right magic number and an acceptable payload length it reports a failure and the endpoint is
  dead. In particular the fragmentation of the stream is invisible.
\<close>

theorem frame_reader_refines:
  "case frameOf (available p) of
     Some (raw, rest) \<Rightarrow> (\<exists>p'. receiveFrame p = (raw, p') \<and> raw \<noteq> [] \<and> available p' = rest \<and> link p' = link p)
   | None \<Rightarrow> (\<exists>p'. receiveFrame p = ([], p') \<and> \<not> alive p')"
  by (rule receiveFrame_spec)

end
