(* ===== verification/Datanode_Session.thy ===== *)
theory Datanode_Session
  imports Protocol_Delivery
begin

text \<open>
  A data node at work: the request handler of \<open>datanode/src/datanode.cpp\<close>, run by the read loop of
  \<open>common/src/networking/ConnectionSession.hpp\<close> on the dispatcher of the protocol, and the remote
  calls the server makes to it. A session is the endpoint of the server, the disk of the data node and
  its endpoint. The theorems follow a call through both endpoints at the level of bytes, also when the
  connection is cut after any number of bytes in either direction.
\<close>

section \<open>The request handler of a data node\<close>

definition datanodeHandler :: "u32 \<Rightarrow> disk \<Rightarrow> proto \<Rightarrow> Message \<Rightarrow> u32 \<times> dispatched" where
  \<comment> \<open>the first component is \<open>lastSeenEpoch_\<close>\<close>
  "datanodeHandler lastSeenEpoch d p msg =
     (if opcode msg = NACK_STALE_EPOCH then
        (let theirEpoch = getUint32 msg EPOCH 0
         in (if theirEpoch > lastSeenEpoch then theirEpoch else lastSeenEpoch, (Inr (), d, p\<lparr>alive := False\<rparr>)))
      else (lastSeenEpoch, responseDispatcher d p msg))"

definition readLoopStep :: "(disk \<Rightarrow> proto \<Rightarrow> Message \<Rightarrow> dispatched) \<Rightarrow> disk \<Rightarrow> proto \<Rightarrow> dispatched" where
  \<comment> \<open>one round of the session's read loop: a message, and the handler unless the connection died\<close>
  "readLoopStep handler d p =
     (let (mex, p1) = receiveAndParse p
      in if \<not> alive p1 then (Inr (), d, p1) else handler d p1 mex)"

definition datanodeStep :: "disk \<Rightarrow> proto \<Rightarrow> dispatched" where
  "datanodeStep d p = readLoopStep (\<lambda>d p m. snd (datanodeHandler 0 d p m)) d p"

section \<open>Sending and receiving on a healthy connection\<close>

definition ackMsg :: "bool \<Rightarrow> u32 \<Rightarrow> Message" where
  "ackMsg b s = \<lparr>opcode = RESPONSE, flags = FLAG_RESPONSE, seq = s, payloadLen = 0, mfields = [fieldBool ACK b]\<rparr>"

definition ackVersionMsg :: "bool \<Rightarrow> int \<Rightarrow> u32 \<Rightarrow> Message" where
  "ackVersionMsg b v s =
     \<lparr>opcode = RESPONSE, flags = FLAG_RESPONSE, seq = s, payloadLen = 0,
      mfields = [fieldBool ACK b, fieldUint32 FILE_VERSION (u32_of_int v)]\<rparr>"

definition pathMsg :: "Opcode \<Rightarrow> string \<Rightarrow> u32 \<Rightarrow> Message" where
  "pathMsg op path s = \<lparr>opcode = op, flags = 0, seq = s, payloadLen = 0, mfields = [fieldString FILE_PATH path]\<rparr>"

definition versionMsg :: "Opcode \<Rightarrow> string \<Rightarrow> int \<Rightarrow> u32 \<Rightarrow> Message" where
  "versionMsg op path v s =
     \<lparr>opcode = op, flags = 0, seq = s, payloadLen = 0,
      mfields = [fieldString FILE_PATH path, fieldUint32 FILE_VERSION (u32_of_int v)]\<rparr>"

lemma message_simps [simp]:
  "opcode (ackMsg b s) = RESPONSE" "opcode (ackVersionMsg b v s) = RESPONSE"
  "opcode (pathMsg op path s) = op" "opcode (versionMsg op path v s) = op"
  "seq (ackMsg b s) = s" "seq (ackVersionMsg b v s) = s" "seq (pathMsg op path s) = s" "seq (versionMsg op path v s) = s"
  "isAck (ackMsg b s) \<longleftrightarrow> b" "isAck (ackVersionMsg b v s) \<longleftrightarrow> b"
  "isResponse (ackMsg b s)" "isResponse (ackVersionMsg b v s)"
  "getUint32 (ackVersionMsg b v s) FILE_VERSION x = u32_of_int v"
  "getString (pathMsg op path s) FILE_PATH y = path" "getString (versionMsg op path v s) FILE_PATH y = path"
  "getUint32 (versionMsg op path v s) FILE_VERSION x = u32_of_int v"
  by (simp_all add: ackMsg_def ackVersionMsg_def pathMsg_def versionMsg_def accessor_defs)

lemma wf_messages [simp]:
  "wf_msg (ackMsg b s)" "wf_msg (ackVersionMsg b v s)"
  "wf_msg (pathMsg op path s) \<longleftrightarrow> wf_opcode op \<and> length path \<le> 65535"
  "wf_msg (versionMsg op path v s) \<longleftrightarrow> wf_opcode op \<and> length path \<le> 65535"
  by (simp_all add: wf_msg_def ackMsg_def ackVersionMsg_def pathMsg_def versionMsg_def)

lemma tx_side_cong: "tx_side c = tx_side c' \<Longrightarrow> tx_ready c = tx_ready c' \<and> tx c = tx c'"
  by (simp add: tx_side_def tx_ready_def)

lemma rx_side_avail: "rx_side c = rx_side c' \<Longrightarrow> rx_avail c = rx_avail c'"
  by (simp add: rx_side_def rx_avail_def)

definition sends :: "proto \<Rightarrow> nat \<Rightarrow> bytes \<Rightarrow> proto \<Rightarrow> bool" where
  \<comment> \<open>an endpoint that has sent some frames and bytes, and nothing else has changed\<close>
  "sends p n bs p' \<longleftrightarrow>
     (\<exists>c. p' = p\<lparr>nextSendSeq := nextSendSeq p + of_nat n, chan := c\<rparr> \<and> tx c = tx (chan p) @ bs \<and>
          tx_ready c \<and> rx_side c = rx_side (chan p))"

lemma sends_simps:
  assumes "sends p n bs p'"
  shows "available p' = available p" "alive p' = alive p" "tx_ready (chan p')" "tx (chan p') = tx (chan p) @ bs"
    "nextSendSeq p' = nextSendSeq p + of_nat n" "expectedRecvSeq p' = expectedRecvSeq p"
    "reorderBuffer p' = reorderBuffer p" "lastDeliveredSeq p' = lastDeliveredSeq p"
    "processName p' = processName p" "nodeType p' = nodeType p"
  using assms by (auto simp: sends_def available_def dest: rx_side_avail)

lemma sends_trans: "sends p n bs p' \<Longrightarrow> sends p' m cs p'' \<Longrightarrow> sends p (n + m) (bs @ cs) p''"
  by (auto simp: sends_def add.assoc)

lemma sendBuilt_sends:
  assumes "tx_ready (chan p)" and "\<forall>f\<in>set fs. wf_field f" and "length fs \<le> 255"
  shows "\<exists>p'. sendBuilt p (buildFrame op fl fs 0) = (Inr (), p') \<and>
    sends p 1 (wireMsg \<lparr>opcode = op, flags = fl, seq = nextSendSeq p, payloadLen = 0, mfields = fs\<rparr>) p'"
  using sendBuilt_ready [OF assms, of op fl] by (auto simp: sends_def)

lemma response_sends:
  "tx_ready (chan p) \<Longrightarrow> \<exists>p'. response p b = (Inr (), p') \<and> sends p 1 (wireMsg (ackMsg b (nextSendSeq p))) p'"
  using sendBuilt_sends [of p "[fieldBool ACK b]" RESPONSE FLAG_RESPONSE]
  by (simp add: response_def responseAck_def ackMsg_def)

lemma responseVersion_sends:
  "tx_ready (chan p) \<Longrightarrow>
   \<exists>p'. responseVersion p b v = (Inr (), p') \<and> sends p 1 (wireMsg (ackVersionMsg b v (nextSendSeq p))) p'"
  using sendBuilt_sends [of p "[fieldBool ACK b, fieldUint32 FILE_VERSION (u32_of_int v)]" RESPONSE FLAG_RESPONSE]
  by (simp add: responseVersion_def responseAckWithVersion_def ackVersionMsg_def)

lemma sendFileData_sends:
  assumes "tx_ready (chan p)" and "length content \<le> unat FILETRANSFER_MAX_SIZE"
  shows "\<exists>p'. sendFileData p content = (True, p') \<and> sends p 0 (wireFile content) p'"
proof -
  obtain c where "sendSized (chan p) content = (True, c)" "tx c = tx (chan p) @ wireFile content" "tx_ready c"
    "rx_side c = rx_side (chan p)"
    using sendSized_ready [OF assms(1)] by blast
  with assms(2) show ?thesis
    by (auto simp: sendFileData_def sendFileVec_def sends_def)
qed

text \<open>Receiving leaves the sending side alone.\<close>

lemma recvExact_tx: "recvExact p n = (ok, bs, p') \<Longrightarrow> tx_side (chan p') = tx_side (chan p)"
  using recvLoop_tx [of "chan p" n "[]"]
  by (cases "n = 0") (auto simp: recvExact_def recvExactLoop.simps [of p 0] recvExactLoop_recvLoop
      split: prod.splits if_splits)

lemma recvFields_tx: "recvFields p n frame = (res, p') \<Longrightarrow> tx_side (chan p') = tx_side (chan p)"
proof (induction n arbitrary: p frame)
  case (Suc n)
  obtain ok fhdr p1 where h: "recvExact p 3 = (ok, fhdr, p1)"
    by (cases "recvExact p 3")
  obtain ok2 val p2 where v: "recvExact p1 (unat (readU16 (drop (Suc 0) fhdr))) = (ok2, val, p2)"
    by (cases "recvExact p1 (unat (readU16 (drop (Suc 0) fhdr)))")
  from Suc.prems show ?case
    using recvExact_tx [OF h] recvExact_tx [OF v]
    by (auto simp: h v Let_def split: if_splits dest!: Suc.IH)
qed simp

lemma receiveFrame_tx:
  assumes "receiveFrame p = (raw, p')"
  shows "tx_side (chan p') = tx_side (chan p)"
proof -
  obtain ok header p1 where h: "recvExact p FRAME_HEADER_SIZE = (ok, header, p1)"
    by (cases "recvExact p FRAME_HEADER_SIZE")
  obtain res p2 where f: "recvFields p1 (unat (header ! 4)) header = (res, p2)"
    by fastforce
  obtain ok3 payload p3 where l: "recvExact p2 (unat (readU32 (drop 9 header))) = (ok3, payload, p3)"
    by (cases "recvExact p2 (unat (readU32 (drop 9 header)))")
  from assms recvExact_tx [OF h] recvFields_tx [OF f] recvExact_tx [OF l] show ?thesis
    by (auto simp: receiveFrame_def h f l Let_def split: if_splits option.splits)
qed

lemma nextFrame_tx: "nextFrame p = (raw, p') \<Longrightarrow> tx_side (chan p') = tx_side (chan p)"
  by (auto simp: nextFrame_def popNextBuffered_def dest: receiveFrame_tx split: option.splits)

lemma receiveAndParse_tx: "tx_side (chan (snd (receiveAndParse p))) = tx_side (chan p)"
proof (induction p rule: receiveAndParse.induct)
  case (1 p)
  obtain raw p1 where n: "nextFrame p = (raw, p1)"
    by fastforce
  note tx = nextFrame_tx [OF n] and unfold = receiveAndParse_unfold [OF n]
  consider "raw = []" | e where "raw \<noteq> []" "parseMessage raw = Inl e"
    | msg where "raw \<noteq> []" "parseMessage raw = Inr msg" "seq msg = expectedRecvSeq p1"
    | msg where "raw \<noteq> []" "parseMessage raw = Inr msg" "seq msg > expectedRecvSeq p1"
    | msg where "raw \<noteq> []" "parseMessage raw = Inr msg" "seq msg < expectedRecvSeq p1"
    by (metis linorder_neqE sum.exhaust)
  then show ?case
  proof cases
    case (4 msg)
    then show ?thesis
      using "1.IH"(1) [OF n [symmetric] refl 4(1,2) _ 4(3)] tx unfolding unfold(4) [OF 4] by auto
  next
    case (5 msg)
    then show ?thesis
      using "1.IH"(2) [OF n [symmetric] refl 5(1,2)] tx unfolding unfold(5) [OF 5] by auto
  qed (use tx in \<open>simp_all add: unfold deliver_def\<close>)
qed

section \<open>Serving an upload\<close>

definition idle :: "proto \<Rightarrow> u32 \<Rightarrow> u32 \<Rightarrow> bool" where
  \<comment> \<open>a healthy endpoint between two calls: the numbers it expects and sends next\<close>
  "idle p s n \<longleftrightarrow> alive p \<and> tx_ready (chan p) \<and> reorderBuffer p = [] \<and> expectedRecvSeq p = s \<and> nextSendSeq p = n"

definition at_rest :: "proto \<Rightarrow> u32 \<Rightarrow> u32 \<Rightarrow> bool" where
  \<comment> \<open>and nothing is left to read\<close>
  "at_rest p s n \<longleftrightarrow> idle p s n \<and> available p = []"

definition receiving :: "proto \<Rightarrow> bytes \<Rightarrow> proto" where
  \<comment> \<open>more bytes arrive at an endpoint, after what it has not read yet, before the connection is cut\<close>
  "receiving p bs = p\<lparr>chan := (chan p)\<lparr>rx := [RecvBytes (available p @ bs)]\<rparr>\<rparr>"

lemma receiving_simps [simp]:
  "tx (chan (receiving p bs)) = tx (chan p)" "idle (receiving p bs) s n = idle p s n"
  by (simp_all add: receiving_def idle_def tx_ready_def)

lemma available_receiving_app: "idle p s n \<Longrightarrow> available (receiving p bs) = available p @ bs"
  by (simp add: receiving_def available_def [of "p\<lparr>chan := c\<rparr>" for c] rx_avail_def [of "c\<lparr>rx := r\<rparr>" for c r]
      idle_def tx_ready_def)

lemma available_receiving: "at_rest p s n \<Longrightarrow> available (receiving p bs) = bs"
  using available_receiving_app [of p s n bs] by (simp add: at_rest_def)

lemma at_rest_idle [simp]: "at_rest p s n \<Longrightarrow> idle p s n"
  by (simp add: at_rest_def)

lemma idle_receive:
  assumes "idle p s n" and "available p = wireMsg m @ rest" and "wf_msg m" and "seq m = s"
  shows "\<exists>p'. receiveAndParse p = (m, p') \<and> available p' = rest \<and> idle p' (s + 1) n \<and> tx (chan p') = tx (chan p)"
proof -
  have "om_find (reorderBuffer p) (expectedRecvSeq p) = None" "seq m = expectedRecvSeq p"
    using assms(1,4) by (simp_all add: idle_def)
  with receive_in_order [OF _ assms(2,3)] obtain p' where p': "receiveAndParse p = (m, p')" "available p' = rest"
    "delivered p m p'" "reorderBuffer p' = reorderBuffer p"
    by blast
  then have "idle p' (s + 1) n" "tx (chan p') = tx (chan p)"
    using assms(1) tx_side_cong [of "chan p'" "chan p"] by (auto simp: idle_def delivered_def)
  with p' show ?thesis
    by blast
qed

lemma idle_receive_cut:
  assumes "idle p s n" and "wf_msg m" and "available p = take j (wireMsg m)" and "j < length (wireMsg m)"
  shows "\<exists>p'. receiveAndParse p = (makeNack, p') \<and> \<not> alive p'"
  using assms by (intro receive_cut [OF _ assms(2-4)]) (simp add: idle_def)

lemma idle_sends: "idle p s n \<Longrightarrow> sends p k bs p' \<Longrightarrow> idle p' s (n + of_nat k)"
  using sends_simps [of p k bs p'] by (simp add: idle_def)

lemma rest_sends: "at_rest p s n \<Longrightarrow> sends p k bs p' \<Longrightarrow> at_rest p' s (n + of_nat k)"
  using idle_sends [of p s n k bs p'] sends_simps(1) [of p k bs p'] by (simp add: at_rest_def)

lemma rest_receive:
  assumes "idle p s n" and "available p = wireMsg m" and "wf_msg m" and "seq m = s"
  shows "\<exists>p'. receiveAndParse p = (m, p') \<and> at_rest p' (s + 1) n \<and> tx (chan p') = tx (chan p)"
  using idle_receive [OF assms(1) _ assms(3,4), of "[]"] assms(2) by (auto simp: at_rest_def)

lemma length_wireFile: "length (wireFile content) = 8 + length content"
  by (simp add: wireFile_def)

lemma parseTransfer_cut:
  assumes "length content \<le> unat FILETRANSFER_MAX_SIZE" and "k < length (wireFile content)"
  shows "parseTransfer (take k (wireFile content)) = None"
proof (cases "k < 8")
  case True
  then have "length (take k (wireFile content)) < 8"
    by simp
  then show ?thesis
    by (simp add: parseTransfer_def)
next
  case False
  then have k8: "min 8 k = 8"
    by simp
  have "take 8 (take k (wireFile content)) = be_bytes 8 (of_nat (length content))"
    unfolding take_take k8 by (simp add: wireFile_def)
  then have sz: "readU64 (take 8 (take k (wireFile content))) = of_nat (length content)"
    by (simp only: readU64_bound)
  show ?thesis
    using assms(2) unfolding parseTransfer_def sz unat_length_small [OF assms(1)] by (simp add: length_wireFile)
qed

definition confirmMsg :: "Opcode \<Rightarrow> int \<Rightarrow> u32 \<Rightarrow> Message" where
  "confirmMsg op v s = (if op = CREATE_FILE then ackMsg True s else ackVersionMsg True v s)"

definition uploadBytes :: "Opcode \<Rightarrow> string \<Rightarrow> int \<Rightarrow> u32 \<Rightarrow> bytes \<Rightarrow> bytes" where
  "uploadBytes op path v s content = wireMsg (versionMsg op path v s) @ wireFile content"

definition upload_args :: "disk \<Rightarrow> string \<Rightarrow> int \<Rightarrow> bytes \<Rightarrow> bool" where
  "upload_args d path v content \<longleftrightarrow>
     length path \<le> 65535 \<and> int_range v \<and> length content \<le> unat FILETRANSFER_MAX_SIZE \<and> disk_ok d \<and>
     resolvePath (root d) path \<notin> set (unopenable d)"

lemma dispatch_upload:
  assumes "op = CREATE_FILE \<or> op = UPDATE_FILE" and "int_range v"
  shows "snd (datanodeHandler e d p (versionMsg op path v s)) =
    sentThen d (response p True) (\<lambda>p1. storeUpload d p1 path v
       (\<lambda>q. if op = CREATE_FILE then response q True else responseVersion q True v))"
  using assms by (auto simp: datanodeHandler_def responseDispatcher_def requestDispatcher_def int_of_u32_of_int)

lemma storeUpload_spec:
  assumes "upload_args d path v content" and "idle p s n" and "available p = take k (wireFile content)"
  shows "\<exists>d' p'. storeUpload d p path v (\<lambda>q. if op = CREATE_FILE then response q True else responseVersion q True v) =
      (Inr (), d', p') \<and>
    (if k < length (wireFile content)
     then readDisk d' = (readDisk d)(resolvePath (root d) path := None) \<and>
          tx (chan p') = tx (chan p) @ wireMsg (ackMsg False n)
     else d' = setFileVersion (writeDisk d (resolvePath (root d) path) content) path v \<and>
          tx (chan p') = tx (chan p) @ wireMsg (confirmMsg op v n) \<and> at_rest p' s (n + 1))"
proof -
  have args: "disk_ok d" "resolvePath (root d) path \<notin> set (unopenable d)" "length content \<le> unat FILETRANSFER_MAX_SIZE"
    using assms(1) by (simp_all add: upload_args_def)
  note spec = receiveFilePath_spec [OF args(1,2), of "chan p"]
  show ?thesis
  proof (cases "k < length (wireFile content)")
    case True
    have "parseTransfer (rx_avail (chan p)) = None"
      using parseTransfer_cut [OF args(3) True] assms(3) by (simp add: available_def)
    with spec obtain d' c where r: "receiveFilePath d (chan p) path = (False, d', c)"
      "readDisk d' = (readDisk d)(resolvePath (root d) path := None)"
      by auto
    have tx: "tx_ready c" "tx c = tx (chan p)"
      using receiveFilePath_tx [OF r(1)] tx_side_cong [of c "chan p"] assms(2) by (auto simp: idle_def)
    obtain p' where "response (p\<lparr>chan := c\<rparr>) False = (Inr (), p')"
        "sends (p\<lparr>chan := c\<rparr>) 1 (wireMsg (ackMsg False n)) p'"
      using response_sends [of "p\<lparr>chan := c\<rparr>" False] tx assms(2) by (auto simp: idle_def)
    with sends_simps(4) [OF this(2)] True r tx(2) show ?thesis
      by (simp add: storeUpload_def sentDone_def)
  next
    case False
    have "parseTransfer (rx_avail (chan p)) = Some (content, [])"
      using parseTransfer_wireFile [OF args(3), of "[]"] False assms(3) by (simp add: available_def)
    with spec obtain c where r: "receiveFilePath d (chan p) path = (True, writeDisk d (resolvePath (root d) path) content, c)"
      "tx_side c = tx_side (chan p)" "rx_avail c = []"
      by auto
    have idl: "at_rest (p\<lparr>chan := c\<rparr>) s n" "tx c = tx (chan p)"
      using tx_side_cong [OF r(2)] r(3) assms(2) by (auto simp: idle_def at_rest_def available_def)
    let ?confirm = "\<lambda>q. if op = CREATE_FILE then response q True else responseVersion q True v"
    obtain p' where p': "?confirm (p\<lparr>chan := c\<rparr>) = (Inr (), p')" "sends (p\<lparr>chan := c\<rparr>) 1 (wireMsg (confirmMsg op v n)) p'"
      using response_sends [of "p\<lparr>chan := c\<rparr>" True] responseVersion_sends [of "p\<lparr>chan := c\<rparr>" True v] idl(1)
      by (cases "op = CREATE_FILE") (auto simp: at_rest_def idle_def confirmMsg_def)
    with sends_simps(4) [OF p'(2)] rest_sends [OF idl(1) p'(2)] False r(1) idl(2) show ?thesis
      by (simp add: storeUpload_def sentDone_def)
  qed
qed

lemma take_app_cases:
  "take k (xs @ ys) = (if k < length xs then take k xs else xs @ take (k - length xs) ys)"
  by simp

lemma serve_upload:
  assumes "upload_args d path v content" and "at_rest D s n" and "op = CREATE_FILE \<or> op = UPDATE_FILE"
  shows "\<exists>d' D'. datanodeStep d (receiving D (take k (uploadBytes op path v s content))) = (Inr (), d', D') \<and>
    (if k < length (wireMsg (versionMsg op path v s)) then d' = d \<and> tx (chan D') = tx (chan D)
     else if k < length (uploadBytes op path v s content)
     then readDisk d' = (readDisk d)(resolvePath (root d) path := None) \<and>
          tx (chan D') = tx (chan D) @ wireMsg (ackMsg True n) @ wireMsg (ackMsg False (n + 1))
     else d' = setFileVersion (writeDisk d (resolvePath (root d) path) content) path v \<and>
          tx (chan D') = tx (chan D) @ wireMsg (ackMsg True n) @ wireMsg (confirmMsg op v (n + 1)) \<and>
          at_rest D' (s + 1) (n + 2))"
proof -
  let ?m = "versionMsg op path v s"
  let ?p = "receiving D (take k (uploadBytes op path v s content))"
  have wf: "wf_msg ?m" and v: "int_range v"
    using assms(1,3) by (auto simp: upload_args_def)
  have idl: "idle ?p s n" "available ?p = take k (uploadBytes op path v s content)"
    using assms(2) by (simp_all add: available_receiving)
  show ?thesis
  proof (cases "k < length (wireMsg ?m)")
    case True
    then have "available ?p = take k (wireMsg ?m)"
      using idl(2) by (simp add: uploadBytes_def)
    from idle_receive_cut [OF idl(1) wf this True] obtain p' where
      r: "receiveAndParse ?p = (makeNack, p')" "\<not> alive p'"
      by blast
    have "tx (chan p') = tx (chan D)"
      using receiveAndParse_tx [of ?p] r(1) tx_side_cong [of "chan p'" "chan ?p"] by auto
    with r True show ?thesis
      by (simp add: datanodeStep_def readLoopStep_def)
  next
    case False
    define k' where "k' = k - length (wireMsg ?m)"
    have av: "available ?p = wireMsg ?m @ take k' (wireFile content)"
      using False idl(2) by (simp add: uploadBytes_def k'_def)
    obtain p1 where p1: "receiveAndParse ?p = (?m, p1)" "available p1 = take k' (wireFile content)"
      "idle p1 (s + 1) n" "tx (chan p1) = tx (chan D)"
      using idle_receive [OF idl(1) av wf] by auto
    obtain p2 where p2: "response p1 True = (Inr (), p2)" "sends p1 1 (wireMsg (ackMsg True n)) p2"
      using response_sends [of p1 True] p1(3) by (auto simp: idle_def)
    have p2': "idle p2 (s + 1) (n + 1)" "available p2 = take k' (wireFile content)"
      using idle_sends [OF p1(3) p2(2)] sends_simps(1) [OF p2(2)] p1(2) by simp_all
    have "alive p1"
      using p1(3) by (simp add: idle_def)
    then have step: "datanodeStep d ?p = storeUpload d p2 path v
        (\<lambda>q. if op = CREATE_FILE then response q True else responseVersion q True v)"
      by (simp add: datanodeStep_def readLoopStep_def p1(1) dispatch_upload [OF assms(3) v] sentThen_def p2(1))
    have k: "k < length (uploadBytes op path v s content) \<longleftrightarrow> k' < length (wireFile content)"
      using False by (auto simp: uploadBytes_def k'_def)
    have tx: "tx (chan p2) = tx (chan D) @ wireMsg (ackMsg True n)"
      using sends_simps(4) [OF p2(2)] p1(4) by simp
    have n2: "n + 1 + 1 = n + 2"
      by simp
    obtain d' D' where "storeUpload d p2 path v
        (\<lambda>q. if op = CREATE_FILE then response q True else responseVersion q True v) = (Inr (), d', D')"
      "if k' < length (wireFile content)
       then readDisk d' = (readDisk d)(resolvePath (root d) path := None) \<and>
            tx (chan D') = tx (chan p2) @ wireMsg (ackMsg False (n + 1))
       else d' = setFileVersion (writeDisk d (resolvePath (root d) path) content) path v \<and>
            tx (chan D') = tx (chan p2) @ wireMsg (confirmMsg op v (n + 1)) \<and> at_rest D' (s + 1) (n + 1 + 1)"
      using storeUpload_spec [OF assms(1) p2', of op] by blast
    then show ?thesis
      unfolding step k n2 tx using False by (intro exI [of _ d'] exI [of _ D']) (simp split: if_splits)
  qed
qed

section \<open>The caller's side of an upload\<close>

definition uploadCall :: "Opcode \<Rightarrow> proto \<Rightarrow> string \<Rightarrow> int \<Rightarrow> bytes \<Rightarrow> reply" where
  "uploadCall op p path v content =
     (if op = CREATE_FILE then proto_createFileData p path v content else proto_updateFileData p path v content)"

lemma uploadCall_request:
  assumes "op = CREATE_FILE \<or> op = UPDATE_FILE"
  shows "uploadCall op p path v content =
    request p (buildFrame op 0 [fieldString FILE_PATH path, fieldUint32 FILE_VERSION (u32_of_int v)] 0)
      (uploadAfterRequest (\<lambda>q ack. sendFileAfterAckVec q content ack))"
  using assms by (auto simp: uploadCall_def proto_createFileData_def proto_updateFileData_def
      createFileVersionFormat_def updateFileVersionFormat_def)

lemma caller_upload:
  assumes "idle S n s" and "op = CREATE_FILE \<or> op = UPDATE_FILE" and "length path \<le> 65535"
    and "length content \<le> unat FILETRANSFER_MAX_SIZE" and "wf_msg m1" and "seq m1 = n + 1"
    and "available S = take j (wireMsg (ackMsg True n) @ wireMsg m1)"
  shows "\<exists>r S'. uploadCall op S path v content = (Inr r, S') \<and>
    (if j < length (wireMsg (ackMsg True n) @ wireMsg m1) then r = makeNack \<and> \<not> alive S'
     else r = m1 \<and> at_rest S' (n + 2) (s + 1) \<and> tx (chan S') = tx (chan S) @ uploadBytes op path v s content)"
proof -
  let ?m0 = "ackMsg True n"
  let ?req = "versionMsg op path v s"
  have "\<exists>S1. sendBuilt S (buildFrame op 0 [fieldString FILE_PATH path, fieldUint32 FILE_VERSION (u32_of_int v)] 0) =
      (Inr (), S1) \<and> sends S 1 (wireMsg ?req) S1"
    using sendBuilt_sends [of S "[fieldString FILE_PATH path, fieldUint32 FILE_VERSION (u32_of_int v)]" op 0] assms(1,3)
    by (auto simp: idle_def versionMsg_def)
  then obtain S1 where S1: "sendBuilt S (buildFrame op 0 [fieldString FILE_PATH path, fieldUint32 FILE_VERSION (u32_of_int v)] 0) =
      (Inr (), S1)" "sends S 1 (wireMsg ?req) S1"
    by blast
  have idl1: "idle S1 n (s + 1)" and av1: "available S1 = take j (wireMsg ?m0 @ wireMsg m1)"
    and tx1: "tx (chan S1) = tx (chan S) @ wireMsg ?req"
    using idle_sends [OF assms(1) S1(2)] sends_simps [OF S1(2)] assms(7) by simp_all
  have call: "uploadCall op S path v content =
      (let (m, p2) = uploadAfterRequest (\<lambda>q ack. sendFileAfterAckVec q content ack) S1 in (Inr m, p2))"
    by (simp add: uploadCall_request [OF assms(2)] request_def S1(1))
  show ?thesis
  proof (cases "j < length (wireMsg ?m0)")
    case True
    then have "available S1 = take j (wireMsg ?m0)"
      using av1 by simp
    from idle_receive_cut [OF idl1 _ this True] obtain S2 where "receiveAndParse S1 = (makeNack, S2)" "\<not> alive S2"
      by auto
    with True show ?thesis
      by (simp add: call uploadAfterRequest_def waitForAck_def)
  next
    case False
    define j' where "j' = j - length (wireMsg ?m0)"
    have av: "available S1 = wireMsg ?m0 @ take j' (wireMsg m1)"
      using av1 False by (simp add: j'_def)
    obtain S2 where S2: "receiveAndParse S1 = (?m0, S2)" "available S2 = take j' (wireMsg m1)"
      "idle S2 (n + 1) (s + 1)" "tx (chan S2) = tx (chan S1)"
      using idle_receive [OF idl1 av] by auto
    obtain S3 where S3: "sendFileData S2 content = (True, S3)" "sends S2 0 (wireFile content) S3"
      using sendFileData_sends [of S2 content] S2(3) assms(4) by (auto simp: idle_def)
    have idl3: "idle S3 (n + 1) (s + 1)" "available S3 = take j' (wireMsg m1)"
        "tx (chan S3) = tx (chan S) @ uploadBytes op path v s content"
      using idle_sends [OF S2(3) S3(2)] sends_simps [OF S3(2)] S2(2,4) tx1 by (simp_all add: uploadBytes_def)
    have up: "uploadAfterRequest (\<lambda>q ack. sendFileAfterAckVec q content ack) S1 = receiveAndParse S3"
      by (simp add: uploadAfterRequest_def waitForAck_def S2(1) sendFileAfterAckVec_def S3(1) waitForTransferResult_def)
    have len: "j < length (wireMsg ?m0 @ wireMsg m1) \<longleftrightarrow> j' < length (wireMsg m1)"
      using False by (auto simp: j'_def)
    show ?thesis
    proof (cases "j' < length (wireMsg m1)")
      case True
      from idle_receive_cut [OF idl3(1) assms(5) idl3(2) True] obtain S4 where "receiveAndParse S3 = (makeNack, S4)" "\<not> alive S4"
        by blast
      with True show ?thesis
        unfolding len by (simp add: call up)
    next
      case all: False
      then have "available S3 = wireMsg m1"
        using idl3(2) by simp
      from rest_receive [OF idl3(1) this assms(5,6)] obtain S4 where
        S4: "receiveAndParse S3 = (m1, S4)" "at_rest S4 (n + 1 + 1) (s + 1)" "tx (chan S4) = tx (chan S3)"
        by blast
      have "n + 1 + 1 = n + 2"
        by simp
      with S4 all idl3(3) show ?thesis
        unfolding len by (simp add: call up)
    qed
  qed
qed

section \<open>Calls through both endpoints\<close>

type_synonym session = "proto \<times> disk \<times> proto"

definition session_ok :: "session \<Rightarrow> bool" where
  "session_ok s = (case s of (S, d, D) \<Rightarrow>
     storage_ok d \<and> at_rest S (nextSendSeq D) (nextSendSeq S) \<and> at_rest D (nextSendSeq S) (nextSendSeq D))"

definition exchange ::
    "nat \<Rightarrow> nat \<Rightarrow> bytes \<Rightarrow> (proto \<Rightarrow> 'a \<times> proto) \<Rightarrow> session \<Rightarrow> 'a \<times> session" where
  \<comment> \<open>the data node receives the first \<open>k\<close> bytes of the request, the caller the first \<open>j\<close> bytes of what
      the data node sends in return\<close>
  "exchange k j req caller s = (case s of (S, d, D) \<Rightarrow>
     (let (_, d', D') = datanodeStep d (receiving D (take k req));
          resp = drop (length (tx (chan D))) (tx (chan D'));
          (r, S') = caller (receiving S (take j resp))
      in (r, (S', d', D'))))"

lemma wf_confirm [simp]: "wf_msg (confirmMsg op v s)" "seq (confirmMsg op v s) = s" "isAck (confirmMsg op v s)"
  by (simp_all add: confirmMsg_def)

lemma at_rest_reorder: "at_rest p s n \<Longrightarrow> reorderBuffer p = []"
  by (simp add: at_rest_def idle_def)

lemma upload_exchange:
  assumes "at_rest S n s" and "at_rest D s n" and "upload_args d path v content" and "op = CREATE_FILE \<or> op = UPDATE_FILE"
    and "exchange k j (uploadBytes op path v s content) (\<lambda>p. uploadCall op p path v content) (S, d, D) = (r, (S', d', D'))"
  shows "(\<exists>m. r = Inr m \<and>
      (isAck m \<longrightarrow>
         length (uploadBytes op path v s content) \<le> k \<and> m = confirmMsg op v (n + 1) \<and>
         d' = setFileVersion (writeDisk d (resolvePath (root d) path) content) path v \<and>
         tx (chan S') = tx (chan S) @ uploadBytes op path v s content \<and> at_rest S' (n + 2) (s + 1) \<and> at_rest D' (s + 1) (n + 2)) \<and>
      (length (uploadBytes op path v s content) \<le> k \<and>
         length (wireMsg (ackMsg True n) @ wireMsg (confirmMsg op v (n + 1))) \<le> j \<longrightarrow> isAck m)) \<and>
    (alive S' \<longrightarrow> reorderBuffer S' = []) \<and>
    (d' = d \<or> readDisk d' = (readDisk d)(resolvePath (root d) path := None) \<or>
     d' = setFileVersion (writeDisk d (resolvePath (root d) path) content) path v)"
proof -
  let ?req = "uploadBytes op path v s content"
  have args: "length path \<le> 65535" "length content \<le> unat FILETRANSFER_MAX_SIZE"
    using assms(3) by (simp_all add: upload_args_def)
  obtain dd DD where serve: "datanodeStep d (receiving D (take k ?req)) = (Inr (), dd, DD)" and
    res: "if k < length (wireMsg (versionMsg op path v s)) then dd = d \<and> tx (chan DD) = tx (chan D)
     else if k < length ?req
     then readDisk dd = (readDisk d)(resolvePath (root d) path := None) \<and>
          tx (chan DD) = tx (chan D) @ wireMsg (ackMsg True n) @ wireMsg (ackMsg False (n + 1))
     else dd = setFileVersion (writeDisk d (resolvePath (root d) path) content) path v \<and>
          tx (chan DD) = tx (chan D) @ wireMsg (ackMsg True n) @ wireMsg (confirmMsg op v (n + 1)) \<and>
          at_rest DD (s + 1) (n + 2)"
    using serve_upload [OF assms(3,2,4), of k] by blast
  define resp where "resp = drop (length (tx (chan D))) (tx (chan DD))"
  have ex: "uploadCall op (receiving S (take j resp)) path v content = (r, S')" "d' = dd" "D' = DD"
    using assms(5) by (auto simp: exchange_def serve resp_def split: prod.splits)
  have frame: "length (wireMsg (versionMsg op path v s)) \<le> length ?req"
    by (simp add: uploadBytes_def)
  consider (lost) "resp = []" "dd = d" "k < length ?req"
    | (part) "resp = wireMsg (ackMsg True n) @ wireMsg (ackMsg False (n + 1))" "k < length ?req"
        "readDisk dd = (readDisk d)(resolvePath (root d) path := None)"
    | (full) "resp = wireMsg (ackMsg True n) @ wireMsg (confirmMsg op v (n + 1))" "\<not> k < length ?req"
        "dd = setFileVersion (writeDisk d (resolvePath (root d) path) content) path v" "at_rest DD (s + 1) (n + 2)"
    using res frame by (auto simp: resp_def split: if_splits)
  then show ?thesis
  proof cases
    case lost
    have "available (receiving S (take j resp)) = take 0 (wireMsg (ackMsg True n) @ wireMsg (ackMsg False (n + 1)))"
      using assms(1) by (simp add: available_receiving lost)
    from caller_upload [OF _ assms(4) args _ _ this, of s v] assms(1) ex lost show ?thesis
      by auto
  next
    case part
    have "available (receiving S (take j resp)) = take j (wireMsg (ackMsg True n) @ wireMsg (ackMsg False (n + 1)))"
      using assms(1) by (simp only: available_receiving part)
    from caller_upload [OF _ assms(4) args _ _ this, of s v] assms(1) ex part show ?thesis
      by (auto simp: at_rest_reorder split: if_splits)
  next
    case full
    have "available (receiving S (take j resp)) = take j (wireMsg (ackMsg True n) @ wireMsg (confirmMsg op v (n + 1)))"
      using assms(1) by (simp only: available_receiving full)
    note call = caller_upload [OF _ assms(4) args _ _ this, of s v]
    have "confirmMsg op v (n + 1) \<noteq> makeNack"
      using wf_confirm(3) [of op v "n + 1"] makeNack_simps(1) by metis
    with call assms(1) ex full show ?thesis
      by (auto simp: at_rest_reorder split: if_splits)
  qed
qed

section \<open>Calls with a single answer\<close>

lemma caller_simple:
  assumes "idle S n s" and "\<forall>f\<in>set fs. wf_field f" and "length fs \<le> 255" and "wf_msg m" and "seq m = n"
    and "available S = take j (wireMsg m)"
  shows "\<exists>r S'. request S (buildFrame op 0 fs 0) receiveAndParse = (Inr r, S') \<and>
    (if j < length (wireMsg m) then r = makeNack \<and> \<not> alive S'
     else r = m \<and> at_rest S' (n + 1) (s + 1) \<and>
       tx (chan S') = tx (chan S) @ wireMsg \<lparr>opcode = op, flags = 0, seq = s, payloadLen = 0, mfields = fs\<rparr>)"
proof -
  obtain S1 where S1: "sendBuilt S (buildFrame op 0 fs 0) = (Inr (), S1)"
      "sends S 1 (wireMsg \<lparr>opcode = op, flags = 0, seq = s, payloadLen = 0, mfields = fs\<rparr>) S1"
    using sendBuilt_sends [OF _ assms(2,3), of S op 0] assms(1) by (auto simp: idle_def)
  have idl1: "idle S1 n (s + 1)" and av1: "available S1 = take j (wireMsg m)"
    and tx1: "tx (chan S1) = tx (chan S) @ wireMsg \<lparr>opcode = op, flags = 0, seq = s, payloadLen = 0, mfields = fs\<rparr>"
    using idle_sends [OF assms(1) S1(2)] sends_simps [OF S1(2)] assms(6) by simp_all
  show ?thesis
  proof (cases "j < length (wireMsg m)")
    case True
    from idle_receive_cut [OF idl1 assms(4) av1 True] S1 True show ?thesis
      by (auto simp: request_def)
  next
    case False
    then have "available S1 = wireMsg m"
      using av1 by simp
    from rest_receive [OF idl1 this assms(4,5)] S1 False tx1 show ?thesis
      by (auto simp: request_def)
  qed
qed

lemma serve_message:
  assumes "at_rest D s n" and "wf_msg m" and "seq m = s"
  shows "\<exists>D1. datanodeStep d (receiving D (take k (wireMsg m))) =
      (if k < length (wireMsg m) then (Inr (), d, D1) else snd (datanodeHandler 0 d D1 m)) \<and>
    tx (chan D1) = tx (chan D) \<and> (k < length (wireMsg m) \<or> at_rest D1 (s + 1) n)"
proof -
  let ?p = "receiving D (take k (wireMsg m))"
  have idl: "idle ?p s n" "available ?p = take k (wireMsg m)"
    using assms(1) by (simp_all add: available_receiving)
  show ?thesis
  proof (cases "k < length (wireMsg m)")
    case True
    from idle_receive_cut [OF idl(1) assms(2) idl(2) True] obtain p' where
      r: "receiveAndParse ?p = (makeNack, p')" "\<not> alive p'"
      by blast
    have "tx (chan p') = tx (chan D)"
      using receiveAndParse_tx [of ?p] r(1) tx_side_cong [of "chan p'" "chan ?p"] by auto
    with r True show ?thesis
      by (auto simp: datanodeStep_def readLoopStep_def)
  next
    case False
    then have "available ?p = wireMsg m"
      using idl(2) by simp
    from rest_receive [OF idl(1) this assms(2,3)] obtain p1 where "receiveAndParse ?p = (m, p1)"
      "at_rest p1 (s + 1) n" "tx (chan p1) = tx (chan ?p)"
      by blast
    with False show ?thesis
      by (auto simp: datanodeStep_def readLoopStep_def at_rest_def idle_def)
  qed
qed

lemma single_exchange:
  fixes op fs s
  defines "m \<equiv> \<lparr>opcode = op, flags = 0, seq = s, payloadLen = 0, mfields = fs\<rparr>"
  assumes "at_rest S n s" and "at_rest D s n" and "\<forall>f\<in>set fs. wf_field f" and "length fs \<le> 255" and "wf_opcode op"
    and "wf_msg ans" and "seq ans = n"
    and "\<And>D1. at_rest D1 (s + 1) n \<Longrightarrow> \<exists>D2. snd (datanodeHandler 0 d D1 m) = (Inr (), d2, D2) \<and> sends D1 1 (wireMsg ans) D2"
    and "exchange k j (wireMsg m) (\<lambda>p. request p (buildFrame op 0 fs 0) receiveAndParse) (S, d, D) = (r, (S', d', D'))"
  shows "(if length (wireMsg m) \<le> k \<and> length (wireMsg ans) \<le> j
      then r = Inr ans \<and> at_rest S' (n + 1) (s + 1) \<and> at_rest D' (s + 1) (n + 1) \<and> tx (chan S') = tx (chan S) @ wireMsg m
      else r = Inr makeNack \<and> \<not> alive S') \<and>
    d' = (if length (wireMsg m) \<le> k then d2 else d)"
proof -
  have m: "wf_msg m" "seq m = s"
    using assms(4-6) by (simp_all add: m_def wf_msg_def)
  note call = caller_simple [OF _ assms(4,5,7,8), where s = s and op = op]
  obtain D1 where D1: "datanodeStep d (receiving D (take k (wireMsg m))) =
      (if k < length (wireMsg m) then (Inr (), d, D1) else snd (datanodeHandler 0 d D1 m))"
      "tx (chan D1) = tx (chan D)" "k < length (wireMsg m) \<or> at_rest D1 (s + 1) n"
    using serve_message [OF assms(3) m, of d k] by auto
  have S: "idle S n s"
    using assms(2) by (simp add: at_rest_def)
  show ?thesis
  proof (cases "k < length (wireMsg m)")
    case True
    then have "request (receiving S (take j [])) (buildFrame op 0 fs 0) receiveAndParse = (r, S')" "d' = d"
      using assms(10) D1 by (auto simp: exchange_def split: prod.splits)
    moreover have "available (receiving S (take j [])) = take 0 (wireMsg ans)"
      using assms(2) by (simp add: available_receiving)
    ultimately show ?thesis
      using call [of "receiving S (take j [])" 0] True S by (auto simp: m_def)
  next
    case False
    then obtain D2 where D2: "snd (datanodeHandler 0 d D1 m) = (Inr (), d2, D2)" "sends D1 1 (wireMsg ans) D2"
      using D1(3) assms(9) by blast
    have step: "datanodeStep d (receiving D (take k (wireMsg m))) = (Inr (), d2, D2)"
      using False D1(1) D2(1) by simp
    moreover have "tx (chan D2) = tx (chan D) @ wireMsg ans"
      using sends_simps(4) [OF D2(2)] D1(2) by simp
    ultimately have "request (receiving S (take j (wireMsg ans))) (buildFrame op 0 fs 0) receiveAndParse = (r, S')"
        "d' = d2" "D' = D2"
      using assms(10) by (auto simp: exchange_def split: prod.splits)
    moreover have "available (receiving S (take j (wireMsg ans))) = take j (wireMsg ans)"
      using assms(2) by (simp add: available_receiving)
    moreover have "at_rest D2 (s + 1) (n + 1)"
      using rest_sends [OF _ D2(2)] D1(3) False by simp
    ultimately show ?thesis
      using call [of "receiving S (take j (wireMsg ans))" j] S False by (auto simp: m_def split: if_splits)
  qed
qed

lemma ack_served:
  assumes "at_rest D1 t n" and "snd (datanodeHandler 0 d D1 m) = sentDone d2 (response D1 True)"
  shows "\<exists>D2. snd (datanodeHandler 0 d D1 m) = (Inr (), d2, D2) \<and> sends D1 1 (wireMsg (ackMsg True n)) D2"
  using assms response_sends [of D1 True] by (auto simp: at_rest_def idle_def sentDone_def)

lemma delete_exchange:
  assumes "at_rest S n s" and "at_rest D s n" and "length path \<le> 65535"
    and "exchange k j (wireMsg (pathMsg DELETE_FILE path s)) (\<lambda>p. proto_deleteFile p path) (S, d, D) = (r, (S', d', D'))"
  shows "(if length (wireMsg (pathMsg DELETE_FILE path s)) \<le> k \<and> length (wireMsg (ackMsg True n)) \<le> j
      then r = Inr (ackMsg True n) \<and> at_rest S' (n + 1) (s + 1) \<and> at_rest D' (s + 1) (n + 1) \<and>
        tx (chan S') = tx (chan S) @ wireMsg (pathMsg DELETE_FILE path s)
      else r = Inr makeNack \<and> \<not> alive S') \<and>
    d' = (if length (wireMsg (pathMsg DELETE_FILE path s)) \<le> k then snd (deleteFileAndVersion d path) else d)"
  unfolding pathMsg_def
proof (rule single_exchange [OF assms(1,2)])
  show "\<exists>D2. snd (datanodeHandler 0 d D1 \<lparr>opcode = DELETE_FILE, flags = 0, seq = s, payloadLen = 0, mfields = [fieldString FILE_PATH path]\<rparr>) =
      (Inr (), snd (deleteFileAndVersion d path), D2) \<and> sends D1 1 (wireMsg (ackMsg True n)) D2" if "at_rest D1 (s + 1) n" for D1
    using that by (rule ack_served)
      (simp add: datanodeHandler_def responseDispatcher_def requestDispatcher_def accessor_defs)
  show "exchange k j (wireMsg \<lparr>opcode = DELETE_FILE, flags = 0, seq = s, payloadLen = 0, mfields = [fieldString FILE_PATH path]\<rparr>)
      (\<lambda>p. request p (buildFrame DELETE_FILE 0 [fieldString FILE_PATH path] 0) receiveAndParse) (S, d, D) = (r, S', d', D')"
    using assms(4) by (simp add: proto_deleteFile_def deleteFileFormat_def pathMsg_def)
qed (use assms(3) in simp_all)

definition plainMsg :: "Opcode \<Rightarrow> u32 \<Rightarrow> Message" where
  "plainMsg op s = \<lparr>opcode = op, flags = 0, seq = s, payloadLen = 0, mfields = []\<rparr>"

lemma heartbeat_exchange:
  assumes "at_rest S n s" and "at_rest D s n"
    and "exchange k j (wireMsg (plainMsg HEARTBEAT s)) proto_heartbeat (S, d, D) = (r, (S', d', D'))"
  shows "(if length (wireMsg (plainMsg HEARTBEAT s)) \<le> k \<and> length (wireMsg (ackMsg True n)) \<le> j
      then r = Inr (ackMsg True n) \<and> at_rest S' (n + 1) (s + 1) \<and> at_rest D' (s + 1) (n + 1) \<and>
        tx (chan S') = tx (chan S) @ wireMsg (plainMsg HEARTBEAT s)
      else r = Inr makeNack \<and> \<not> alive S') \<and>
    d' = (if length (wireMsg (plainMsg HEARTBEAT s)) \<le> k then d else d)"
  unfolding plainMsg_def
proof (rule single_exchange [OF assms(1,2)])
  show "\<exists>D2. snd (datanodeHandler 0 d D1 \<lparr>opcode = HEARTBEAT, flags = 0, seq = s, payloadLen = 0, mfields = []\<rparr>) =
      (Inr (), d, D2) \<and> sends D1 1 (wireMsg (ackMsg True n)) D2" if "at_rest D1 (s + 1) n" for D1
    using that by (rule ack_served) (simp add: datanodeHandler_def responseDispatcher_def requestDispatcher_def)
  show "exchange k j (wireMsg \<lparr>opcode = HEARTBEAT, flags = 0, seq = s, payloadLen = 0, mfields = []\<rparr>)
      (\<lambda>p. request p (buildFrame HEARTBEAT 0 [] 0) receiveAndParse) (S, d, D) = (r, S', d', D')"
    using assms(3) by (simp add: proto_heartbeat_def [abs_def] heartbeatFormat_def plainMsg_def)
qed simp_all

definition mapMsg :: "(string, int) omap \<Rightarrow> u32 \<Rightarrow> Message" where
  "mapMsg m s = \<lparr>opcode = RESPONSE, flags = FLAG_RESPONSE, seq = s, payloadLen = 0, mfields = versionMapFields m\<rparr>"

definition listing_fits :: "disk \<Rightarrow> bool" where
  \<comment> \<open>the listing has an answer frame: two fields per file, and every name fits a field\<close>
  "listing_fits d \<longleftrightarrow> length (getFileVersionMapDisk d) \<le> 127 \<and> (\<forall>e\<in>set (getFileVersionMapDisk d). length (fst e) \<le> 65535)"

lemma parsed_version_range: "parseVersionLine line = Some (p, v) \<Longrightarrow> int_range v"
  by (auto simp: parseVersionLine_def read_int_def Let_def split: option.splits prod.splits if_splits)

lemma savedVersions_range: "om_find (savedVersions ls) p = Some v \<Longrightarrow> int_range v"
proof (induction ls rule: rev_induct)
  case (snoc line ls)
  then show ?case
    by (auto simp: savedVersions_def dest: parsed_version_range split: option.splits if_splits)
qed (simp add: savedVersions_def)

lemma listing_range: "\<forall>e\<in>set (getFileVersionMapDisk d). int_range (snd e)"
proof
  fix e assume "e \<in> set (getFileVersionMapDisk d)"
  then have "om_find (getFileVersionMapDisk d) (fst e) = Some (snd e)"
    using om_find_in_set [OF om_ok_getFileVersionMapDisk, of "fst e" "snd e" d] by simp
  then have "snd e = (case om_find (savedVersions (versionLines d)) (fst e) of Some v \<Rightarrow> v | None \<Rightarrow> 0)"
    by (simp add: om_find_getFileVersionMapDisk split: if_splits)
  moreover have "int_range v" if "om_find (savedVersions ls) p = Some v" for ls p v
    using that savedVersions_range by blast
  ultimately show "int_range (snd e)"
    by (auto simp: int_range_def split: option.splits)
qed

lemma mapMsg_answer:
  assumes "listing_fits d"
  shows "wf_msg (mapMsg (getFileVersionMapDisk d) n) \<and> isResponse (mapMsg (getFileVersionMapDisk d) n) \<and>
    getFileVersionMap (mapMsg (getFileVersionMapDisk d) n) = getFileVersionMapDisk d"
proof -
  let ?m = "getFileVersionMapDisk d"
  have "\<forall>f\<in>set (versionMapFields ?m). wf_field f" "length (versionMapFields ?m) \<le> 255"
    using assms by (auto simp: listing_fits_def length_versionMapFields intro!: wf_versionMapFields [THEN bspec])
  moreover have "getFileVersionMap (mapMsg ?m n) = ?m"
    using om_ok_getFileVersionMapDisk listing_range by (rule getFileVersionMap_versionMap) (simp add: mapMsg_def)
  ultimately show ?thesis
    by (simp add: mapMsg_def wf_msg_def accessor_defs)
qed

lemma sync_request:
  assumes "request p syncStatusFormat receiveAndParse = (Inr m, p')" and "isResponse m"
  shows "syncStatus p = (Inr m, p')"
proof -
  obtain p1 where "sendBuilt p syncStatusFormat = (Inr (), p1)" "receiveAndParse p1 = (m, p')"
    using assms(1) by (auto simp: request_def split: prod.splits sum.splits)
  with assms(2) show ?thesis
    by (simp add: syncStatus_def syncLoop.simps [of p1])
qed

lemma sync_served:
  assumes "listing_fits d" and "at_rest D1 t n"
  shows "\<exists>D2. snd (datanodeHandler 0 d D1 \<lparr>opcode = SYNC_STATUS, flags = 0, seq = s, payloadLen = 0, mfields = []\<rparr>) =
      (Inr (), d, D2) \<and> sends D1 1 (wireMsg (mapMsg (getFileVersionMapDisk d) n)) D2"
proof -
  have fields: "\<forall>f\<in>set (versionMapFields (getFileVersionMapDisk d)). wf_field f" "length (versionMapFields (getFileVersionMapDisk d)) \<le> 255"
    using assms(1) by (auto simp: listing_fits_def length_versionMapFields intro!: wf_versionMapFields [THEN bspec])
  from sendBuilt_sends [OF _ fields, of D1 RESPONSE FLAG_RESPONSE] assms(2) show ?thesis
    by (auto simp: datanodeHandler_def responseDispatcher_def requestDispatcher_def responseVersionMap_def responseFileVersionMap_def
        mapMsg_def sentDone_def at_rest_def idle_def)
qed

lemma mapMsg_not_nack: "mapMsg m s \<noteq> makeNack"
proof
  assume "mapMsg m s = makeNack"
  then have "mfields (mapMsg m s) = [fieldBool ACK False]"
    by simp
  then have "2 * length m = 1"
    using length_versionMapFields [of m] by (simp add: mapMsg_def)
  then show False
    by presburger
qed

lemma sync_exchange:
  assumes "at_rest S n s" and "at_rest D s n" and "listing_fits d"
    and "exchange k j (wireMsg (plainMsg SYNC_STATUS s)) syncStatus (S, d, D) = (r, (S', d', D'))"
  shows "(if length (wireMsg (plainMsg SYNC_STATUS s)) \<le> k \<and> length (wireMsg (mapMsg (getFileVersionMapDisk d) n)) \<le> j
      then r = Inr (mapMsg (getFileVersionMapDisk d) n) \<and> at_rest S' (n + 1) (s + 1) \<and> at_rest D' (s + 1) (n + 1)
      else r = Inr makeNack \<and> \<not> alive S') \<and> d' = d"
proof -
  let ?m = "plainMsg SYNC_STATUS s" and ?ans = "mapMsg (getFileVersionMapDisk d) n"
  let ?call = "\<lambda>p. request p (buildFrame SYNC_STATUS 0 [] 0) receiveAndParse"
  obtain r2 S2 d2 D2 where ex: "exchange k j (wireMsg ?m) ?call (S, d, D) = (r2, S2, d2, D2)"
    by (cases "exchange k j (wireMsg ?m) ?call (S, d, D)")
  note law = single_exchange [OF assms(1,2) _ _ _ _ _ sync_served [OF assms(3)] ex [unfolded plainMsg_def], folded plainMsg_def]
  have ans: "wf_msg ?ans" "isResponse ?ans" "seq ?ans = n"
    using mapMsg_answer [OF assms(3)] by (auto simp: mapMsg_def)
  have single: "(if length (wireMsg ?m) \<le> k \<and> length (wireMsg ?ans) \<le> j
      then r2 = Inr ?ans \<and> at_rest S2 (n + 1) (s + 1) \<and> at_rest D2 (s + 1) (n + 1) \<and> tx (chan S2) = tx (chan S) @ wireMsg ?m
      else r2 = Inr makeNack \<and> \<not> alive S2) \<and> d2 = d"
    using law ans by auto
  then obtain m2 where m2: "r2 = Inr m2" "isResponse m2"
    using ans(2) makeNack_simps by (auto split: if_splits)
  have "syncStatus p = (Inr m2, q)" if "?call p = (Inr m2, q)" for p q
    using that m2(2) sync_request [of p m2 q] by (simp add: syncStatusFormat_def)
  then have "exchange k j (wireMsg ?m) syncStatus (S, d, D) = (r2, S2, d2, D2)"
    using ex m2(1) by (auto simp: exchange_def split: prod.splits)
  with assms(4) single show ?thesis
    by (auto split: if_splits)
qed

section \<open>Reading a file\<close>

definition readBytesOnWire :: "bytes \<Rightarrow> int \<Rightarrow> u32 \<Rightarrow> bytes" where
  \<comment> \<open>what a data node answers to a read of a file it has\<close>
  "readBytesOnWire content v n = wireMsg (ackMsg True n) @ wireFile content @ wireMsg (ackVersionMsg True v (n + 1))"

lemma receiveFileData_keeps: "receiveFileData p old = (ok, x, p') \<Longrightarrow> reorderBuffer p' = reorderBuffer p \<and> alive p' = alive p"
  by (auto simp: receiveFileData_def split: prod.splits)

lemma receiveFileData_spec:
  assumes "idle p s n"
  shows "case parseTransfer (available p) of
      Some (content, rest) \<Rightarrow> (\<exists>p'. receiveFileData p old = (True, content, p') \<and> available p' = rest \<and> idle p' s n \<and>
        tx (chan p') = tx (chan p))
    | None \<Rightarrow> (\<exists>x p'. receiveFileData p old = (False, x, p'))"
proof -
  have "idle (p\<lparr>chan := c\<rparr>) s n" "tx c = tx (chan p)" if "tx_side c = tx_side (chan p)" for c
    using tx_side_cong [OF that] assms by (auto simp: idle_def)
  note keep = this
  show ?thesis
  proof (cases "parseTransfer (available p)")
    case None
    with receiveFileVec_spec [of "chan p" old] show ?thesis
      by (auto simp: receiveFileData_def available_def)
  next
    case (Some q)
    obtain content rest where q: "q = (content, rest)"
      by (cases q)
    from receiveFileVec_spec [of "chan p" old] Some obtain c where
      "receiveFileVec (chan p) old = (True, content, c)" "rx_avail c = rest" "tx_side c = tx_side (chan p)"
      by (auto simp: available_def q)
    with keep [OF this(3)] Some q show ?thesis
      by (simp add: receiveFileData_def available_def)
  qed
qed

lemma read_request:
  assumes "idle S n s" and "length path \<le> 65535"
  shows "\<exists>S1. sendBuilt S (readFileFormat path) = (Inr (), S1) \<and> idle S1 n (s + 1) \<and> available S1 = available S \<and>
    tx (chan S1) = tx (chan S) @ wireMsg (pathMsg READ_FILE path s)"
proof -
  have fs: "\<forall>f\<in>set [fieldString FILE_PATH path]. wf_field f" "length [fieldString FILE_PATH path] \<le> 255"
    using assms(2) by simp_all
  obtain S1 where S1: "sendBuilt S (readFileFormat path) = (Inr (), S1)" "sends S 1 (wireMsg (pathMsg READ_FILE path s)) S1"
    using sendBuilt_sends [OF _ fs, of S READ_FILE 0] assms(1) by (auto simp: idle_def readFileFormat_def pathMsg_def)
  with idle_sends [OF assms(1) S1(2)] sends_simps [OF S1(2)] show ?thesis
    by simp
qed

lemma caller_read:
  assumes "idle S n s" and "length path \<le> 65535" and "length content \<le> unat FILETRANSFER_MAX_SIZE"
    and "available S = take j (readBytesOnWire content v n)"
  shows "\<exists>r x S'. proto_readFile S path old = (Inr (r, x), S') \<and>
    (if j < length (readBytesOnWire content v n) then r = makeNack \<and> (alive S' \<longrightarrow> reorderBuffer S' = [])
     else r = ackVersionMsg True v (n + 1) \<and> x = content \<and> at_rest S' (n + 2) (s + 1) \<and>
       tx (chan S') = tx (chan S) @ wireMsg (pathMsg READ_FILE path s))"
proof -
  let ?m0 = "ackMsg True n" and ?m1 = "ackVersionMsg True v (n + 1)"
  obtain S1 where S1: "sendBuilt S (readFileFormat path) = (Inr (), S1)" "idle S1 n (s + 1)" "available S1 = available S"
    "tx (chan S1) = tx (chan S) @ wireMsg (pathMsg READ_FILE path s)"
    using read_request [OF assms(1,2)] by blast
  show ?thesis
  proof (cases "j < length (wireMsg ?m0)")
    case True
    then have "available S1 = take j (wireMsg ?m0)"
      using assms(4) S1(3) by (simp add: readBytesOnWire_def)
    from idle_receive_cut [OF S1(2) _ this True] True S1(1) show ?thesis
      by (auto simp: proto_readFile_def waitForAck_def readBytesOnWire_def)
  next
    case False
    define i where "i = j - length (wireMsg ?m0)"
    have "available S1 = wireMsg ?m0 @ take i (wireFile content @ wireMsg ?m1)"
      using False assms(4) S1(3) by (simp add: readBytesOnWire_def i_def)
    from idle_receive [OF S1(2) this] obtain S2 where S2: "receiveAndParse S1 = (?m0, S2)"
      "available S2 = take i (wireFile content @ wireMsg ?m1)" "idle S2 (n + 1) (s + 1)" "tx (chan S2) = tx (chan S1)"
      by auto
    have call: "proto_readFile S path old =
      (let (got, content, p3) = receiveFileData S2 old
       in if \<not> got then (Inr (makeNack, content), p3)
          else let (m, p4) = receiveAndParse p3 in (Inr (m, content), p4))"
      unfolding proto_readFile_def waitForTransferResult_def
      by (simp add: S1(1) waitForAck_def S2(1) receiveFileAfterAck_def)
    have len: "j < length (readBytesOnWire content v n) \<longleftrightarrow> i < length (wireFile content @ wireMsg ?m1)"
      using False by (auto simp: readBytesOnWire_def i_def)
    show ?thesis
    proof (cases "i < length (wireFile content)")
      case True
      then have "parseTransfer (available S2) = None"
        using parseTransfer_cut [OF assms(3) True] S2(2) by simp
      with receiveFileData_spec [OF S2(3), of old] obtain x S3 where "receiveFileData S2 old = (False, x, S3)"
        by auto
      with receiveFileData_keeps [OF this] S2(3) True show ?thesis
        unfolding len by (simp add: call idle_def)
    next
      case enough: False
      define i' where "i' = i - length (wireFile content)"
      have "available S2 = wireFile content @ take i' (wireMsg ?m1)"
        using enough S2(2) by (simp add: i'_def)
      then obtain S3 where S3: "receiveFileData S2 old = (True, content, S3)" "available S3 = take i' (wireMsg ?m1)"
        "idle S3 (n + 1) (s + 1)" "tx (chan S3) = tx (chan S2)"
        using receiveFileData_spec [OF S2(3), of old] parseTransfer_wireFile [OF assms(3)] by auto
      have len': "i < length (wireFile content @ wireMsg ?m1) \<longleftrightarrow> i' < length (wireMsg ?m1)"
        using enough by (auto simp: i'_def)
      show ?thesis
      proof (cases "i' < length (wireMsg ?m1)")
        case True
        from idle_receive_cut [OF S3(3) _ S3(2) True] True S3(1) show ?thesis
          unfolding len len' by (auto simp: call)
      next
        case all: False
        then have "available S3 = wireMsg ?m1"
          using S3(2) by simp
        from rest_receive [OF S3(3) this] obtain S4 where S4: "receiveAndParse S3 = (?m1, S4)" "at_rest S4 (n + 1 + 1) (s + 1)"
          "tx (chan S4) = tx (chan S3)"
          by auto
        have "n + 1 + 1 = n + 2"
          by simp
        with S4 all S3 S2(4) S1(4) show ?thesis
          unfolding len len' by (simp add: call)
      qed
    qed
  qed
qed

lemma serve_read:
  assumes "at_rest D s n" and "length path \<le> 65535" and "readDisk d (resolvePath (root d) path) = Some content"
    and "length content \<le> unat FILETRANSFER_MAX_SIZE"
  shows "\<exists>D'. datanodeStep d (receiving D (take k (wireMsg (pathMsg READ_FILE path s)))) = (Inr (), d, D') \<and>
    (if k < length (wireMsg (pathMsg READ_FILE path s)) then tx (chan D') = tx (chan D)
     else tx (chan D') = tx (chan D) @ readBytesOnWire content (getFileVersion d path) n \<and> at_rest D' (s + 1) (n + 2))"
proof -
  let ?m = "pathMsg READ_FILE path s"
  obtain D1 where D1: "datanodeStep d (receiving D (take k (wireMsg ?m))) =
      (if k < length (wireMsg ?m) then (Inr (), d, D1) else snd (datanodeHandler 0 d D1 ?m))"
      "tx (chan D1) = tx (chan D)" "k < length (wireMsg ?m) \<or> at_rest D1 (s + 1) n"
    using serve_message [OF assms(1), of ?m d k] assms(2) by auto
  show ?thesis
  proof (cases "k < length (wireMsg ?m)")
    case True
    with D1 show ?thesis by auto
  next
    case False
    then have idl: "at_rest D1 (s + 1) n"
      using D1(3) by simp
    obtain D2 where D2: "response D1 True = (Inr (), D2)" "sends D1 1 (wireMsg (ackMsg True n)) D2"
      using response_sends [of D1 True] idl by (auto simp: at_rest_def idle_def)
    have idl2: "at_rest D2 (s + 1) (n + 1)"
      using rest_sends [OF idl D2(2)] by simp
    then have "tx_ready (chan D2)"
      by (simp add: at_rest_def idle_def)
    from sendSized_ready [OF this] obtain c where c: "sendSized (chan D2) content = (True, c)"
      "tx c = tx (chan D2) @ wireFile content" "tx_ready c" "rx_side c = rx_side (chan D2)"
      by blast
    let ?D3 = "D2\<lparr>chan := c\<rparr>"
    have idl3: "at_rest ?D3 (s + 1) (n + 1)"
      using idl2 c(3) rx_side_avail [OF c(4)] by (simp add: at_rest_def idle_def available_def)
    obtain D4 where D4: "responseVersion ?D3 True (getFileVersion d path) = (Inr (), D4)"
      "sends ?D3 1 (wireMsg (ackVersionMsg True (getFileVersion d path) (n + 1))) D4"
      using responseVersion_sends [of ?D3 True "getFileVersion d path"] idl3 by (auto simp: at_rest_def idle_def)
    have "datanodeStep d (receiving D (take k (wireMsg ?m))) = (Inr (), d, D4)"
      using False D1(1) D2(1) D4(1) c(1) assms(3,4)
      by (simp add: datanodeHandler_def responseDispatcher_def requestDispatcher_def sentThen_def sentDone_def
          sendFilePath_def)
    moreover have "tx (chan D4) = tx (chan D) @ readBytesOnWire content (getFileVersion d path) n"
      using sends_simps(4) [OF D4(2)] sends_simps(4) [OF D2(2)] c(2) D1(2) by (simp add: readBytesOnWire_def)
    moreover have "at_rest D4 (s + 1) (n + 2)"
      using rest_sends [OF idl3 D4(2)] by (simp add: add.commute)
    ultimately show ?thesis
      using False by simp
  qed
qed

lemma read_exchange:
  assumes "at_rest S n s" and "at_rest D s n" and "length path \<le> 65535"
    and "readDisk d (resolvePath (root d) path) = Some content" and "length content \<le> unat FILETRANSFER_MAX_SIZE"
    and "exchange k j (wireMsg (pathMsg READ_FILE path s)) (\<lambda>p. proto_readFile p path old) (S, d, D) = (r, (S', d', D'))"
  shows "\<exists>m x. r = Inr (m, x) \<and> d' = d \<and>
    (isAck m \<longrightarrow> m = ackVersionMsg True (getFileVersion d path) (n + 1) \<and> x = content \<and>
       at_rest S' (n + 2) (s + 1) \<and> at_rest D' (s + 1) (n + 2)) \<and>
    (length (wireMsg (pathMsg READ_FILE path s)) \<le> k \<and>
       length (readBytesOnWire content (getFileVersion d path) n) \<le> j \<longrightarrow> isAck m) \<and>
    (alive S' \<longrightarrow> reorderBuffer S' = [])"
proof -
  let ?m = "pathMsg READ_FILE path s"
  let ?v = "getFileVersion d path"
  obtain DD where DD: "datanodeStep d (receiving D (take k (wireMsg ?m))) = (Inr (), d, DD)"
    "if k < length (wireMsg ?m) then tx (chan DD) = tx (chan D)
     else tx (chan DD) = tx (chan D) @ readBytesOnWire content ?v n \<and> at_rest DD (s + 1) (n + 2)"
    using serve_read [OF assms(2-5), of k] by blast
  define i where "i = (if k < length (wireMsg ?m) then 0 else j)"
  have resp: "take j (drop (length (tx (chan D))) (tx (chan DD))) = take i (readBytesOnWire content ?v n)"
    using DD(2) by (simp add: i_def split: if_splits)
  have ex: "proto_readFile (receiving S (take i (readBytesOnWire content ?v n))) path old = (r, S')" "d' = d" "D' = DD"
    using assms(6) resp by (auto simp: exchange_def DD(1) split: prod.splits)
  have "available (receiving S (take i (readBytesOnWire content ?v n))) = take i (readBytesOnWire content ?v n)"
    using assms(1) by (simp add: available_receiving)
  from caller_read [OF _ assms(3,5) this, of s old] assms(1) ex(1) obtain m x where r: "r = Inr (m, x)"
    and c: "if i < length (readBytesOnWire content ?v n) then m = makeNack \<and> (alive S' \<longrightarrow> reorderBuffer S' = [])
      else m = ackVersionMsg True ?v (n + 1) \<and> x = content \<and> at_rest S' (n + 2) (s + 1)"
    by (auto split: if_splits)
  show ?thesis
  proof (cases "i < length (readBytesOnWire content ?v n)")
    case True
    with r c ex show ?thesis
      by (auto simp: i_def split: if_splits)
  next
    case False
    then have "\<not> k < length (wireMsg ?m)"
      by (auto simp: i_def readBytesOnWire_def split: if_splits)
    with r c ex DD(2) False show ?thesis
      by (auto simp: at_rest_reorder)
  qed
qed

section \<open>Reading a file the data node does not have\<close>

text \<open>
  The data node acknowledges the request before it looks for the file, so the caller takes the NACK
  frame that follows for the size of the file. Its first byte alone makes that size too large.
\<close>

lemma bit_large: "bit x 56 \<Longrightarrow> x > FILETRANSFER_MAX_SIZE" for x :: u64
proof (rule ccontr)
  assume b: "bit x 56" and "\<not> x > FILETRANSFER_MAX_SIZE"
  then have "unat x < 2 ^ 56"
    using max_size_val by (simp add: word_less_nat_alt not_less)
  then have "\<not> bit (unat x) 56"
    by (simp add: bit_iff_odd)
  with b show False
    by (simp add: bit_unsigned_iff)
qed

lemma wireMsg_ack:
  "wireMsg (ackMsg b s) =
     [0x53, 0x51, opcode_byte RESPONSE, FLAG_RESPONSE, 1] @ pushU32 [] s @ [0, 0, 0, 0, field_byte ACK, 0, 1, if b then 1 else 0]"
  by (simp add: wireMsg_def ackMsg_def frameHeader_def encodeField_def SQUID_MAGIC_def pushU16_def pushU32_def)

lemma frame_as_size: "readU64 (take 8 (wireMsg (ackMsg b s))) > FILETRANSFER_MAX_SIZE"
proof (rule bit_large)
  obtain x y z u where "pushU32 [] s = [x, y, z, u]"
    by (simp add: pushU32_def)
  then have "take 8 (wireMsg (ackMsg b s)) = [0x53, 0x51, opcode_byte RESPONSE, FLAG_RESPONSE, 1, x, y, z]"
    by (simp add: wireMsg_ack)
  then show "bit (readU64 (take 8 (wireMsg (ackMsg b s)))) 56"
    by (simp add: readU64_def bit_simps)
qed

lemma receiveFileVec_oversize:
  assumes "8 \<le> length (rx_avail c)" and "readU64 (take 8 (rx_avail c)) > FILETRANSFER_MAX_SIZE"
  shows "\<exists>c'. receiveFileVec c old = (False, old, c') \<and> rx_avail c' = drop 8 (rx_avail c) \<and> tx_side c' = tx_side c"
proof -
  obtain c1 where "recvAll c 8 = (8, take 8 (rx_avail c), c1)" "rx_avail c1 = drop 8 (rx_avail c)" "tx_side c1 = tx_side c"
    using recvLoop_ok [of "[]" 8 c] assms(1) by (auto simp: recvAll_def)
  with assms(2) show ?thesis
    by (simp add: receiveFileVec_def)
qed

lemma receiveFileData_nack_frame:
  assumes "idle p s n" and "available p = take i (wireMsg (ackMsg False q))"
  shows "\<exists>x p'. receiveFileData p old = (False, x, p') \<and>
    (length (wireMsg (ackMsg False q)) \<le> i \<longrightarrow>
       x = old \<and> idle p' s n \<and> available p' = drop 8 (wireMsg (ackMsg False q)) \<and> tx (chan p') = tx (chan p))"
proof (cases "length (available p) < 8")
  case True
  then have "parseTransfer (available p) = None" "\<not> length (wireMsg (ackMsg False q)) \<le> i"
    using assms(2) by (auto simp: parseTransfer_def wireMsg_ack)
  with receiveFileData_spec [OF assms(1), of old] show ?thesis
    by auto
next
  case False
  then have "min 8 i = 8"
    using assms(2) by auto
  then have "take 8 (available p) = take 8 (wireMsg (ackMsg False q))"
    by (simp only: assms(2) take_take)
  then have "readU64 (take 8 (available p)) > FILETRANSFER_MAX_SIZE"
    by (simp only: frame_as_size)
  with False receiveFileVec_oversize [of "chan p" old] obtain c where
    c: "receiveFileVec (chan p) old = (False, old, c)" "rx_avail c = drop 8 (available p)" "tx_side c = tx_side (chan p)"
    by (auto simp: available_def not_less)
  have "idle (p\<lparr>chan := c\<rparr>) s n" "tx c = tx (chan p)"
    using tx_side_cong [OF c(3)] assms(1) by (auto simp: idle_def)
  with c assms(2) show ?thesis
    by (simp add: receiveFileData_def available_def)
qed

lemma serve_read_missing:
  assumes "at_rest D s n" and "length path \<le> 65535" and "readDisk d (resolvePath (root d) path) = None"
  shows "\<exists>D'. datanodeStep d (receiving D (take k (wireMsg (pathMsg READ_FILE path s)))) = (Inr (), d, D') \<and>
    (if k < length (wireMsg (pathMsg READ_FILE path s)) then tx (chan D') = tx (chan D)
     else tx (chan D') = tx (chan D) @ wireMsg (ackMsg True n) @ wireMsg (ackMsg False (n + 1)) \<and> at_rest D' (s + 1) (n + 2))"
proof -
  let ?m = "pathMsg READ_FILE path s"
  obtain D1 where D1: "datanodeStep d (receiving D (take k (wireMsg ?m))) =
      (if k < length (wireMsg ?m) then (Inr (), d, D1) else snd (datanodeHandler 0 d D1 ?m))"
      "tx (chan D1) = tx (chan D)" "k < length (wireMsg ?m) \<or> at_rest D1 (s + 1) n"
    using serve_message [OF assms(1), of ?m d k] assms(2) by auto
  show ?thesis
  proof (cases "k < length (wireMsg ?m)")
    case True
    with D1 show ?thesis by auto
  next
    case False
    then have idl: "at_rest D1 (s + 1) n"
      using D1(3) by simp
    obtain D2 where D2: "response D1 True = (Inr (), D2)" "sends D1 1 (wireMsg (ackMsg True n)) D2"
      using response_sends [of D1 True] idl by (auto simp: at_rest_def idle_def)
    have idl2: "at_rest D2 (s + 1) (n + 1)"
      using rest_sends [OF idl D2(2)] by simp
    obtain D3 where D3: "response D2 False = (Inr (), D3)" "sends D2 1 (wireMsg (ackMsg False (n + 1))) D3"
      using response_sends [of D2 False] idl2 by (auto simp: at_rest_def idle_def)
    have "D2\<lparr>chan := chan D2\<rparr> = D2"
      by simp
    then have "datanodeStep d (receiving D (take k (wireMsg ?m))) = (Inr (), d, D3)"
      using False D1(1) D2(1) D3(1) assms(3)
      by (simp add: datanodeHandler_def responseDispatcher_def requestDispatcher_def sentThen_def sentDone_def
          sendFilePath_def)
    moreover have "tx (chan D3) = tx (chan D) @ wireMsg (ackMsg True n) @ wireMsg (ackMsg False (n + 1))"
      using sends_simps(4) [OF D3(2)] sends_simps(4) [OF D2(2)] D1(2) by simp
    moreover have "at_rest D3 (s + 1) (n + 2)"
      using rest_sends [OF idl2 D3(2)] by (simp add: add.commute)
    ultimately show ?thesis
      using False by simp
  qed
qed

lemma caller_read_missing:
  assumes "idle S n s" and "length path \<le> 65535"
    and "available S = take j (wireMsg (ackMsg True n) @ wireMsg (ackMsg False (n + 1)))"
  shows "\<exists>x S'. proto_readFile S path old = (Inr (makeNack, x), S') \<and>
    (length (wireMsg (ackMsg True n) @ wireMsg (ackMsg False (n + 1))) \<le> j \<longrightarrow>
       x = old \<and> idle S' (n + 1) (s + 1) \<and> available S' = drop 8 (wireMsg (ackMsg False (n + 1)))) \<and>
    (alive S' \<longrightarrow> reorderBuffer S' = [])"
proof -
  let ?m0 = "ackMsg True n" and ?m1 = "ackMsg False (n + 1)"
  obtain S1 where S1: "sendBuilt S (readFileFormat path) = (Inr (), S1)" "idle S1 n (s + 1)" "available S1 = available S"
    using read_request [OF assms(1,2)] by blast
  show ?thesis
  proof (cases "j < length (wireMsg ?m0)")
    case True
    then have "available S1 = take j (wireMsg ?m0)"
      using assms(3) S1(3) by simp
    from idle_receive_cut [OF S1(2) _ this True] True S1(1) show ?thesis
      by (auto simp: proto_readFile_def waitForAck_def)
  next
    case False
    define i where "i = j - length (wireMsg ?m0)"
    have "available S1 = wireMsg ?m0 @ take i (wireMsg ?m1)"
      using False assms(3) S1(3) by (simp add: i_def)
    from idle_receive [OF S1(2) this] obtain S2 where S2: "receiveAndParse S1 = (?m0, S2)"
      "available S2 = take i (wireMsg ?m1)" "idle S2 (n + 1) (s + 1)"
      by auto
    from receiveFileData_nack_frame [OF S2(3,2), of old] obtain x S3 where S3: "receiveFileData S2 old = (False, x, S3)"
      "length (wireMsg ?m1) \<le> i \<longrightarrow> x = old \<and> idle S3 (n + 1) (s + 1) \<and> available S3 = drop 8 (wireMsg ?m1)"
      by blast
    have "length (wireMsg ?m0 @ wireMsg ?m1) \<le> j \<longleftrightarrow> length (wireMsg ?m1) \<le> i"
      using False by (auto simp: i_def)
    with S3 receiveFileData_keeps [OF S3(1)] S2(3) show ?thesis
      by (simp add: proto_readFile_def S1(1) waitForAck_def S2(1) receiveFileAfterAck_def idle_def)
  qed
qed

lemma read_missing_exchange:
  assumes "at_rest S n s" and "at_rest D s n" and "length path \<le> 65535"
    and "readDisk d (resolvePath (root d) path) = None"
    and "exchange k j (wireMsg (pathMsg READ_FILE path s)) (\<lambda>p. proto_readFile p path old) (S, d, D) = (r, (S', d', D'))"
  shows "\<exists>x. r = Inr (makeNack, x) \<and> d' = d \<and>
    (length (wireMsg (pathMsg READ_FILE path s)) \<le> k \<and>
     length (wireMsg (ackMsg True n) @ wireMsg (ackMsg False (n + 1))) \<le> j \<longrightarrow>
       x = old \<and> idle S' (n + 1) (s + 1) \<and> available S' = drop 8 (wireMsg (ackMsg False (n + 1))) \<and> at_rest D' (s + 1) (n + 2)) \<and>
    (alive S' \<longrightarrow> reorderBuffer S' = [])"
proof -
  let ?m = "pathMsg READ_FILE path s"
  let ?resp = "wireMsg (ackMsg True n) @ wireMsg (ackMsg False (n + 1))"
  obtain DD where DD: "datanodeStep d (receiving D (take k (wireMsg ?m))) = (Inr (), d, DD)"
    "if k < length (wireMsg ?m) then tx (chan DD) = tx (chan D)
     else tx (chan DD) = tx (chan D) @ ?resp \<and> at_rest DD (s + 1) (n + 2)"
    using serve_read_missing [OF assms(2-4), of k] by blast
  define i where "i = (if k < length (wireMsg ?m) then 0 else j)"
  have resp: "take j (drop (length (tx (chan D))) (tx (chan DD))) = take i ?resp"
    using DD(2) by (simp add: i_def split: if_splits)
  have ex: "proto_readFile (receiving S (take i ?resp)) path old = (r, S')" "d' = d" "D' = DD"
    using assms(5) resp by (auto simp: exchange_def DD(1) split: prod.splits)
  have av: "available (receiving S (take i ?resp)) = take i ?resp"
    using assms(1) by (simp add: available_receiving)
  have id: "idle (receiving S (take i ?resp)) n s"
    using assms(1) by simp
  from caller_read_missing [OF id assms(3) av, of old] ex(1) obtain x where x: "r = Inr (makeNack, x)"
    "length ?resp \<le> i \<longrightarrow> x = old \<and> idle S' (n + 1) (s + 1) \<and> available S' = drop 8 (wireMsg (ackMsg False (n + 1)))"
    "alive S' \<longrightarrow> reorderBuffer S' = []"
    by auto
  have "at_rest DD (s + 1) (n + 2)" if "length (wireMsg ?m) \<le> k"
    using DD(2) that by simp
  with x ex(2,3) show ?thesis
    by (auto simp: i_def)
qed

lemma magic_second_byte: "p ! 1 = 0 \<Longrightarrow> readU16 p \<noteq> SQUID_MAGIC"
proof
  assume "p ! 1 = 0" and "readU16 p = SQUID_MAGIC"
  then have "bit (readU16 p) 0 = bit SQUID_MAGIC 0"
    by simp
  with \<open>p ! 1 = 0\<close> show False
    by (simp add: readU16_def SQUID_MAGIC_def bit_simps)
qed

text \<open>No request moves the storage root, changes what can be opened or breaks the order of the files.\<close>

definition same_place :: "disk \<Rightarrow> disk \<Rightarrow> bool" where
  "same_place d d' \<longleftrightarrow> root d' = root d \<and> unopenable d' = unopenable d \<and> (disk_ok d \<longrightarrow> disk_ok d')"

lemma removeDisk_place: "root (snd (removeDisk d p)) = root d" "unopenable (snd (removeDisk d p)) = unopenable d"
  "disk_ok d \<Longrightarrow> disk_ok (snd (removeDisk d p))"
  by (simp_all add: removeDisk_def disk_ok_def)

lemma receiveFilePath_place: "receiveFilePath d c path = (ok, d', c') \<Longrightarrow> same_place d d'"
  by (auto simp: receiveFilePath_def Let_def same_place_def removeDisk_place split: prod.splits if_splits)

lemma deleteFileAndVersion_place: "same_place d (snd (deleteFileAndVersion d path))"
  by (simp add: same_place_def deleteFileAndVersion_def deleteFile_def removeDisk_def writeVersionLines_def)
     (simp add: disk_ok_def writeDisk_def)

lemma setFileVersion_place: "same_place d d' \<Longrightarrow> same_place d (setFileVersion d' path v)"
  by (auto simp: same_place_def setFileVersion_def writeVersionLines_def split: prod.splits)

lemma sent_place:
  "same_place d d' \<Longrightarrow> same_place d (fst (snd (sentDone d' r)))"
  "(\<And>p. same_place d (fst (snd (k p)))) \<Longrightarrow> same_place d (fst (snd (sentThen d r k)))"
  by (simp_all add: sentDone_def sentThen_def same_place_def split: prod.splits sum.splits)

lemma storeUpload_place: "same_place d (fst (snd (storeUpload d p path v confirm)))"
  by (auto simp: storeUpload_def Let_def intro!: sent_place setFileVersion_place dest: receiveFilePath_place split: prod.splits)

lemma same_place_refl [simp]: "same_place d d"
  by (simp add: same_place_def)

lemma requestDispatcher_place: "same_place d (fst (snd (requestDispatcher d p m)))"
  by (auto simp: requestDispatcher_def Let_def storeUpload_place deleteFileAndVersion_place intro!: sent_place
      split: Opcode.splits prod.splits)

lemma datanodeStep_place: "datanodeStep d p = (r, d', p') \<Longrightarrow> same_place d d'"
  using requestDispatcher_place [of d "snd (receiveAndParse p)" "fst (receiveAndParse p)"]
  by (auto simp: datanodeStep_def readLoopStep_def datanodeHandler_def responseDispatcher_def Let_def
      split: prod.splits if_splits)

lemma datanodeStep_root: "datanodeStep d p = (r, d', p') \<Longrightarrow> root d' = root d"
  using datanodeStep_place by (simp add: same_place_def)

lemma storage_ok_lost:
  assumes "storage_ok d" and "same_place d d'" and "readDisk d' = (readDisk d)(p := None)" and "p \<noteq> versionFilePath (root d)"
  shows "storage_ok d'"
  using assms by (simp add: storage_ok_def same_place_def version_disk_ok_def version_lines_ok_def versionLines_def)

section \<open>Properties\<close>

lemma at_rest_seq: "at_rest p s n \<Longrightarrow> expectedRecvSeq p = s \<and> nextSendSeq p = n"
  by (simp add: at_rest_def idle_def)

lemma session_okI: "storage_ok d \<Longrightarrow> at_rest S n s \<Longrightarrow> at_rest D s n \<Longrightarrow> session_ok (S, d, D)"
  using at_rest_seq [of S n s] at_rest_seq [of D s n] by (simp add: session_ok_def)

definition freshChannel :: channel where
  "freshChannel = \<lparr>sock_open = True, rx = [], tx_script = [], tx = []\<rparr>"

definition freshSession :: "disk \<Rightarrow> session" where
  \<comment> \<open>both ends of a connection right after the handshake\<close>
  "freshSession d = (newProto freshChannel ''DATANODE'' ''dn1'', d, newProto freshChannel ''DATANODE'' ''dn1'')"

lemma freshSession_ok: "storage_ok d \<Longrightarrow> session_ok (freshSession d)"
  by (simp add: session_ok_def freshSession_def at_rest_def idle_def newProto_def freshChannel_def tx_ready_def
      available_def rx_avail_def)



text \<open>
  C30: an interrupted update destroys the stored file. When the connection breaks after the data node
  has read the request but before the last byte of the file, the old content is gone from its disk
  while the version file still reports the old version.
\<close>

theorem interrupted_update_destroys:
  assumes "at_rest D s n" and "upload_args d path v content" and "user_path d path"
    and "length (wireMsg (versionMsg UPDATE_FILE path v s)) \<le> k"
    and "k < length (uploadBytes UPDATE_FILE path v s content)"
    and "datanodeStep d (receiving D (take k (uploadBytes UPDATE_FILE path v s content))) = (r, d', D')"
  shows "readDisk d' (resolvePath (root d) path) = None \<and> versionLines d' = versionLines d"
proof -
  have "readDisk d' = (readDisk d)(resolvePath (root d) path := None)"
    using serve_upload [OF assms(2,1), of UPDATE_FILE k] assms(4-6) by auto
  moreover have "root d' = root d"
    using datanodeStep_root [OF assms(6)] .
  ultimately show ?thesis
    using assms(3) by (auto simp: versionLines_def user_path_def)
qed

theorem interrupted_update_destroys_witness:
  "\<exists>d' r D'. datanodeStep (writeDisk (newFileManager ''/srv'') ''/srv/a'' [5])
     (receiving (newProto freshChannel ''DATANODE'' ''dn1'')
        (take (length (wireMsg (versionMsg UPDATE_FILE ''a'' 7 0)) + 3) (uploadBytes UPDATE_FILE ''a'' 7 0 [1, 2, 3]))) = (r, d', D') \<and>
     readDisk d' ''/srv/a'' = None"
proof -
  let ?d = "writeDisk (newFileManager ''/srv'') ''/srv/a'' [5]"
  let ?p = "newProto freshChannel ''DATANODE'' ''dn1''"
  let ?k = "length (wireMsg (versionMsg UPDATE_FILE ''a'' 7 0)) + 3"
  have d: "storage_ok ?d" "user_path ?d ''a''" "disk_ok ?d" "resolvePath (root ?d) ''a'' = ''/srv/a''" "unopenable ?d = []"
    by code_simp+
  have args: "upload_args ?d ''a'' 7 [1, 2, 3]"
    using d by (simp add: upload_args_def int_range_def max_size_val)
  have rest: "at_rest ?p 0 0"
    using freshSession_ok [OF d(1)] by (simp add: freshSession_def session_ok_def newProto_def)
  obtain r d' D' where ex: "datanodeStep ?d (receiving ?p (take ?k (uploadBytes UPDATE_FILE ''a'' 7 0 [1, 2, 3]))) = (r, d', D')"
    by (metis prod.exhaust)
  have "length (wireMsg (versionMsg UPDATE_FILE ''a'' 7 0)) \<le> ?k" "?k < length (uploadBytes UPDATE_FILE ''a'' 7 0 [1, 2, 3])"
    by (simp_all add: uploadBytes_def length_wireFile)
  from interrupted_update_destroys [OF rest args d(2) this ex] ex d(4) show ?thesis
    by metis
qed

text \<open>
  An acknowledged read returns what is stored. Whatever is cut from the connection, the disk of the
  data node is unchanged, and if the server sees an ACK then the data node has the file, the bytes are
  its content and the version in the answer is its recorded version; a read that is not cut, of a file
  within the size limit, succeeds.
\<close>

theorem read_acked_is_stored:
  assumes "session_ok (S, d, D)" and "length path \<le> 65535"
    and "\<forall>content. readDisk d (resolvePath (root d) path) = Some content \<longrightarrow> length content \<le> unat FILETRANSFER_MAX_SIZE"
    and "exchange k j (wireMsg (pathMsg READ_FILE path (nextSendSeq S))) (\<lambda>p. proto_readFile p path old) (S, d, D) =
      (r, (S', d', D'))"
  shows "\<exists>m x. r = Inr (m, x) \<and> d' = d \<and>
    (isAck m \<longrightarrow> readDisk d (resolvePath (root d) path) = Some x \<and> session_ok (S', d', D') \<and>
       getUint32 m FILE_VERSION 0 = u32_of_int (getFileVersion d path)) \<and>
    (\<forall>content. readDisk d (resolvePath (root d) path) = Some content \<and>
       length (wireMsg (pathMsg READ_FILE path (nextSendSeq S))) \<le> k \<and>
       length (readBytesOnWire content (getFileVersion d path) (nextSendSeq D)) \<le> j \<longrightarrow> isAck m)"
proof -
  let ?s = "nextSendSeq S" and ?n = "nextSendSeq D"
  have ok: "storage_ok d" "at_rest S ?n ?s" "at_rest D ?s ?n"
    using assms(1) by (simp_all add: session_ok_def)
  show ?thesis
  proof (cases "readDisk d (resolvePath (root d) path)")
    case (Some content)
    with assms(3) have "length content \<le> unat FILETRANSFER_MAX_SIZE"
      by blast
    from read_exchange [OF ok(2,3) assms(2) Some this assms(4)] Some ok(1) show ?thesis
      by (fastforce intro: session_okI)
  next
    case None
    from read_missing_exchange [OF ok(2,3) assms(2) None assms(4)] None show ?thesis
      by auto
  qed
qed

theorem read_acked_is_stored_witness:
  "\<exists>j m S' d' D'. exchange 300 j (wireMsg (pathMsg READ_FILE ''a'' 0)) (\<lambda>p. proto_readFile p ''a'' [])
     (freshSession (writeDisk (newFileManager ''/srv'') ''/srv/a'' [5, 6])) = (Inr (m, [5, 6]), (S', d', D')) \<and> isAck m"
proof -
  let ?d = "writeDisk (newFileManager ''/srv'') ''/srv/a'' [5, 6]"
  let ?p = "newProto freshChannel ''DATANODE'' ''dn1''"
  let ?j = "length (readBytesOnWire [5, 6] (getFileVersion ?d ''a'') 0)"
  have seqs: "nextSendSeq ?p = 0"
    by (simp add: newProto_def)
  have d: "storage_ok ?d" "readDisk ?d (resolvePath (root ?d) ''a'') = Some [5, 6]"
    by code_simp+
  have ok: "session_ok (?p, ?d, ?p)"
    using freshSession_ok [OF d(1)] by (simp add: freshSession_def)
  have small: "\<forall>content. readDisk ?d (resolvePath (root ?d) ''a'') = Some content \<longrightarrow> length content \<le> unat FILETRANSFER_MAX_SIZE"
    using d(2) by (simp add: max_size_val)
  obtain r S' d' D' where ex: "exchange 300 ?j (wireMsg (pathMsg READ_FILE ''a'' (nextSendSeq ?p)))
      (\<lambda>p. proto_readFile p ''a'' []) (?p, ?d, ?p) = (r, (S', d', D'))"
    by (metis prod.exhaust)
  have len: "length (wireMsg (pathMsg READ_FILE ''a'' 0)) \<le> 300"
    by (simp add: wireMsg_def pathMsg_def encodeField_def FRAME_HEADER_SIZE_def)
  have "length ''a'' \<le> 65535"
    by simp
  from read_acked_is_stored [OF ok this small ex] obtain m x where m: "r = Inr (m, x)"
    "isAck m \<longrightarrow> readDisk ?d (resolvePath (root ?d) ''a'') = Some x"
    "\<forall>content. readDisk ?d (resolvePath (root ?d) ''a'') = Some content \<and>
       length (wireMsg (pathMsg READ_FILE ''a'' (nextSendSeq ?p))) \<le> 300 \<and>
       length (readBytesOnWire content (getFileVersion ?d ''a'') (nextSendSeq ?p)) \<le> ?j \<longrightarrow> isAck m"
    by blast
  have "isAck m"
    using m(3) [rule_format, of "[5, 6]"] d(2) len unfolding seqs by blast
  then show ?thesis
    using m(1,2) d(2) ex unfolding seqs freshSession_def by fastforce
qed

text \<open>
  Asking a data node for a file it does not have breaks the connection. The call returns a NACK with
  both ends still marked alive, but nine bytes of the data node's answer stay unread, so whatever comes
  next, the first frame the server tries to read makes its endpoint dead.
\<close>

theorem read_missing_desyncs:
  assumes "session_ok (S, d, D)" and "length path \<le> 65535" and "readDisk d (resolvePath (root d) path) = None"
    and "length (wireMsg (pathMsg READ_FILE path (nextSendSeq S))) \<le> k"
    and "length (wireMsg (ackMsg True (nextSendSeq D)) @ wireMsg (ackMsg False (nextSendSeq D + 1))) \<le> j"
    and "exchange k j (wireMsg (pathMsg READ_FILE path (nextSendSeq S))) (\<lambda>p. proto_readFile p path old) (S, d, D) =
      (r, (S', d', D'))"
  shows "r = Inr (makeNack, old) \<and> alive S' \<and> alive D' \<and> length (available S') = 9 \<and>
    (\<forall>more. 4 \<le> length more \<longrightarrow> (\<exists>q. receiveAndParse (receiving S' more) = (makeNack, q) \<and> \<not> alive q))"
proof -
  let ?s = "nextSendSeq S" and ?n = "nextSendSeq D"
  let ?nack = "wireMsg (ackMsg False (?n + 1))"
  have ok: "at_rest S ?n ?s" "at_rest D ?s ?n"
    using assms(1) by (simp_all add: session_ok_def)
  from read_missing_exchange [OF ok assms(2,3,6)] assms(4,5) have r: "r = Inr (makeNack, old)"
      "idle S' (?n + 1) (?s + 1)" "available S' = drop 8 ?nack" "alive D'"
    by (auto simp: at_rest_def idle_def)
  have len: "length (available S') = 9" "available S' ! 1 = 0"
    using r(3) by (simp_all add: wireMsg_ack pushU32_def)
  have "\<exists>q. receiveAndParse (receiving S' more) = (makeNack, q) \<and> \<not> alive q" if "4 \<le> length more" for more
  proof (rule desync_closes)
    let ?p = "receiving S' more"
    have av: "available ?p = available S' @ more"
      using available_receiving_app [OF r(2)] .
    have "take FRAME_HEADER_SIZE (available ?p) ! 1 = 0"
      using len by (simp add: av FRAME_HEADER_SIZE_def nth_append)
    then show "length (available ?p) < FRAME_HEADER_SIZE \<or> readU16 (take FRAME_HEADER_SIZE (available ?p)) \<noteq> SQUID_MAGIC"
      using magic_second_byte [of "take FRAME_HEADER_SIZE (available ?p)"] by auto
    show "om_find (reorderBuffer ?p) (expectedRecvSeq ?p) = None"
      using r(2) by (simp add: receiving_def idle_def)
  qed
  with r len show ?thesis
    by (auto simp: idle_def)
qed

theorem read_missing_desyncs_witness:
  "\<exists>S' d' D' j. exchange 300 j (wireMsg (pathMsg READ_FILE ''a'' 0)) (\<lambda>p. proto_readFile p ''a'' [])
     (freshSession (newFileManager ''/srv'')) = (Inr (makeNack, []), (S', d', D')) \<and> length (available S') = 9"
proof -
  let ?d = "newFileManager ''/srv''"
  let ?p = "newProto freshChannel ''DATANODE'' ''dn1''"
  let ?j = "length (wireMsg (ackMsg True 0) @ wireMsg (ackMsg False 1))"
  have seqs: "nextSendSeq ?p = 0"
    by (simp add: newProto_def)
  have d: "storage_ok ?d" "readDisk ?d (resolvePath (root ?d) ''a'') = None"
    by code_simp+
  have ok: "session_ok (?p, ?d, ?p)"
    using freshSession_ok [OF d(1)] by (simp add: freshSession_def)
  obtain r S' d' D' where ex: "exchange 300 ?j (wireMsg (pathMsg READ_FILE ''a'' (nextSendSeq ?p)))
      (\<lambda>p. proto_readFile p ''a'' []) (?p, ?d, ?p) = (r, (S', d', D'))"
    by (metis prod.exhaust)
  have len: "length ''a'' \<le> 65535" "length (wireMsg (pathMsg READ_FILE ''a'' (nextSendSeq ?p))) \<le> 300"
    by (simp_all add: wireMsg_def pathMsg_def encodeField_def FRAME_HEADER_SIZE_def)
  have "length (wireMsg (ackMsg True (nextSendSeq ?p)) @ wireMsg (ackMsg False (nextSendSeq ?p + 1))) \<le> ?j"
    by (simp add: seqs)
  from read_missing_desyncs [OF ok len(1) d(2) len(2) this ex] ex show ?thesis
    unfolding seqs freshSession_def by auto
qed

end
