(* ===== verification/Task_Queue.thy ===== *)
theory Task_Queue
  imports Main
begin

text \<open>
  The contract of a first-in first-out queue of tasks. Both the session of a connection and the thread
  pool of the server have such a queue; the locale states what a step of either may do to it, and what
  follows for every run.
\<close>

locale task_queue =
  fixes pending :: "'s \<Rightarrow> 'k list" and begun :: "'s \<Rightarrow> 'k list" and submitted :: "'s \<Rightarrow> 'k list" and step :: "'s \<Rightarrow> 's \<Rightarrow> bool"
  assumes step_queue: "step s s' \<Longrightarrow>
      submitted s' = submitted s \<and> begun s' = begun s \<and> pending s' = pending s \<or>
      (\<exists>k. submitted s' = submitted s @ [k] \<and> begun s' = begun s \<and> pending s' = pending s @ [k]) \<or>
      (\<exists>k. submitted s' = submitted s \<and> begun s' = begun s @ [k] \<and> pending s = k # pending s')"
begin

lemma order_step: "step s s' \<Longrightarrow> submitted s = begun s @ pending s \<Longrightarrow> submitted s' = begun s' @ pending s'"
  using step_queue [of s s'] by auto

lemma in_order: "step\<^sup>*\<^sup>* s s' \<Longrightarrow> submitted s = begun s @ pending s \<Longrightarrow> submitted s' = begun s' @ pending s'"
  by (induction rule: rtranclp_induct) (auto intro: order_step)

lemma grows: "step\<^sup>*\<^sup>* s s' \<Longrightarrow> \<exists>bs cs. begun s' = begun s @ bs \<and> submitted s' = submitted s @ cs"
proof (induction rule: rtranclp_induct)
  case (step s1 s2)
  then show ?case
    using step_queue [of s1 s2] by auto
qed simp

text \<open>A task is not overtaken: when it begins, everything that was queued before it has begun.\<close>

lemma not_overtaken:
  assumes "step\<^sup>*\<^sup>* s s'" and "submitted s = begun s @ pending s" and "pending s = before @ k # after"
    and "length (begun s) + length before < length (begun s')"
  shows "\<exists>bs. begun s' = begun s @ before @ k # bs"
proof -
  obtain bs cs where b: "begun s' = begun s @ bs" and c: "submitted s' = submitted s @ cs"
    using grows [OF assms(1)] by blast
  have "(begun s @ before @ k # after) @ cs = begun s @ bs @ pending s'"
    using in_order [OF assms(1,2)] b c assms(2,3) by simp
  then have eq: "(before @ [k]) @ after @ cs = bs @ pending s'"
    by simp
  have "length (before @ [k]) \<le> length bs"
    using assms(4) b by simp
  with eq have "take (length (before @ [k])) bs = before @ [k]"
    by (metis append_eq_append_conv_if append_take_drop_id)
  then have "bs = before @ k # drop (length (before @ [k])) bs"
    by (metis append.assoc append_Cons append_Nil append_take_drop_id)
  with b show ?thesis
    by metis
qed

end

end
