(* ===== verification/Connection_Session.thy ===== *)
theory Connection_Session
  imports Squid_Protocol Task_Queue
begin

text \<open>
  The session of a connection, \<open>common/src/networking/ConnectionSession.hpp\<close>: a worker thread owns the
  protocol endpoint and runs the tasks other threads queue for it, with \<open>post\<close> and forget, or with
  \<open>call\<close> and wait for the result. The worker is a step relation over the queue, so that tasks may be
  added at any moment. The theorems state the order in which tasks run, that a call which is waiting
  when the worker is up gets the result of its own task, and that a call made after the worker has
  left its loop is never answered. The last section is the view of a session the managers of the
  server have, who call one session at a time.
\<close>

section \<open>The worker\<close>

type_synonym 'r task = "nat \<times> (proto \<Rightarrow> (frame_error + 'r) \<times> proto)"

record 'r worker =
  running :: bool                                \<comment> \<open>the worker thread is inside \<open>run()\<close>\<close>
  sess_alive :: bool                             \<comment> \<open>\<open>alive_\<close> of the session\<close>
  endpoint :: proto
  tasks :: "'r task list"
  draining :: bool                               \<comment> \<open>the worker is inside \<open>drainQueue()\<close>\<close>
  results :: "nat \<rightharpoonup> frame_error + 'r"             \<comment> \<open>the futures that are ready\<close>
  submitted :: "nat list"                        \<comment> \<open>every task ever queued, in order\<close>
  executed :: "nat list"                         \<comment> \<open>every task the worker has run, in order\<close>

definition startSession :: "proto \<Rightarrow> 'r worker" where
  "startSession p =
     \<lparr>running = True, sess_alive = True, endpoint = p, tasks = [], draining = False, results = Map.empty,
      submitted = [], executed = []\<rparr>"

definition isAlive :: "'r worker \<Rightarrow> bool" where
  "isAlive s \<longleftrightarrow> sess_alive s \<and> alive (endpoint s)"

definition setIsAlive :: "bool \<Rightarrow> 'r worker \<Rightarrow> 'r worker" where
  "setIsAlive v s = s\<lparr>sess_alive := v, endpoint := (endpoint s)\<lparr>alive := v\<rparr>\<rparr>"

definition enqueue :: "'r task \<Rightarrow> 'r worker \<Rightarrow> 'r worker" where
  \<comment> \<open>\<open>post\<close>, and \<open>call\<close> from another thread, which then waits for \<open>results\<close> to have its number\<close>
  "enqueue t s = s\<lparr>tasks := tasks s @ [t], submitted := submitted s @ [fst t]\<rparr>"

definition runTask :: "'r worker \<Rightarrow> 'r worker" where
  \<comment> \<open>one round of \<open>drainQueue\<close>: the front task is taken from the queue and applied to the endpoint\<close>
  "runTask s =
     (case tasks s of
        [] \<Rightarrow> s\<lparr>draining := False\<rparr>
      | (k, fn) # ts \<Rightarrow>
          (let (r, p) = fn (endpoint s)
           in s\<lparr>tasks := ts, endpoint := p, results := (results s)(k \<mapsto> r), executed := executed s @ [k]\<rparr>))"

inductive session_step :: "'r worker \<Rightarrow> 'r worker \<Rightarrow> bool" where
  submit: "fst t \<notin> set (submitted s) \<Longrightarrow> session_step s (enqueue t s)"
| enter: "running s \<Longrightarrow> \<not> draining s \<Longrightarrow> isAlive s \<Longrightarrow> session_step s (s\<lparr>draining := True\<rparr>)"
| drain: "running s \<Longrightarrow> draining s \<Longrightarrow> session_step s (runTask s)"
| leave: "running s \<Longrightarrow> \<not> draining s \<Longrightarrow> \<not> isAlive s \<Longrightarrow> session_step s (s\<lparr>running := False, sess_alive := False\<rparr>)"
| kill: "session_step s (setIsAlive False s)"

inductive_cases session_stepE: "session_step s s'"

inductive session_steps :: "'r worker \<Rightarrow> 'r worker \<Rightarrow> bool" where
  none: "session_steps s s"
| more: "session_steps s s' \<Longrightarrow> session_step s' s'' \<Longrightarrow> session_steps s s''"

section \<open>Invariants\<close>

lemma runTask_queue:
  "tasks s = [] \<Longrightarrow> submitted (runTask s) = submitted s \<and> executed (runTask s) = executed s \<and> tasks (runTask s) = []"
  "tasks s = t # ts \<Longrightarrow> submitted (runTask s) = submitted s \<and> executed (runTask s) = executed s @ [fst t] \<and> tasks (runTask s) = ts"
  by (simp_all add: runTask_def split: prod.splits)

interpretation session_queue: task_queue "\<lambda>s :: 'r worker. map fst (tasks s)" executed submitted session_step
proof unfold_locales
  fix s s' :: "'r worker"
  assume "session_step s s'"
  then show "submitted s' = submitted s \<and> executed s' = executed s \<and> map fst (tasks s') = map fst (tasks s) \<or>
      (\<exists>k. submitted s' = submitted s @ [k] \<and> executed s' = executed s \<and> map fst (tasks s') = map fst (tasks s) @ [k]) \<or>
      (\<exists>k. submitted s' = submitted s \<and> executed s' = executed s @ [k] \<and> map fst (tasks s) = k # map fst (tasks s'))"
  proof cases
    case drain
    then show ?thesis
      using runTask_queue [of s] by (cases "tasks s") auto
  qed (simp_all add: enqueue_def setIsAlive_def)
qed

lemma steps_rtranclp: "session_steps s s' \<Longrightarrow> session_step\<^sup>*\<^sup>* s s'"
  by (induction rule: session_steps.induct) auto

definition queue_inv :: "'r worker \<Rightarrow> bool" where
  "queue_inv s \<longleftrightarrow>
     submitted s = executed s @ map fst (tasks s) \<and> distinct (executed s @ map fst (tasks s)) \<and> dom (results s) = set (executed s) \<and>
     (\<not> running s \<longrightarrow> \<not> sess_alive s \<and> \<not> draining s)"

lemma queue_inv_start: "queue_inv (startSession p)"
  by (simp add: queue_inv_def startSession_def)

lemma queue_inv_step: "session_step s s' \<Longrightarrow> queue_inv s \<Longrightarrow> queue_inv s'"
proof (induction rule: session_step.induct)
  case (submit t s)
  then show ?case
    unfolding queue_inv_def enqueue_def by simp
next
  case (drain s)
  show ?case
  proof (cases "tasks s")
    case Nil
    with drain show ?thesis
      by (simp add: queue_inv_def runTask_def)
  next
    case (Cons t ts)
    with drain show ?thesis
      by (cases t) (simp add: queue_inv_def runTask_def split: prod.splits)
  qed
qed (simp_all add: queue_inv_def setIsAlive_def)

lemma queue_inv_steps: "session_steps s s' \<Longrightarrow> queue_inv s \<Longrightarrow> queue_inv s'"
  by (induction rule: session_steps.induct) (auto intro: queue_inv_step)

text \<open>
  C31: tasks run in the order they were queued, each at most once: whatever the threads do, the tasks the
  worker has run are a prefix of the tasks submitted to it, no number twice, and exactly those have a
  result.
\<close>

theorem tasks_in_order:
  assumes "session_steps (startSession p) s"
  shows "submitted s = executed s @ map fst (tasks s) \<and> distinct (executed s) \<and> dom (results s) = set (executed s)"
  using queue_inv_steps [OF assms queue_inv_start] session_queue.in_order [OF steps_rtranclp [OF assms]] unfolding queue_inv_def
  by (simp add: startSession_def)

theorem tasks_in_order_witness:
  "\<exists>s :: unit worker. session_steps (startSession (newProto \<lparr>sock_open = True, rx = [], tx_script = [], tx = []\<rparr> ''DATANODE'' ''dn'')) s \<and>
     executed s = [7] \<and> submitted s = [7, 9] \<and> dom (results s) = {7 :: nat}"
proof -
  let ?p = "newProto \<lparr>sock_open = True, rx = [], tx_script = [], tx = []\<rparr> ''DATANODE'' ''dn''"
  let ?t = "\<lambda>k. (k, \<lambda>q. (Inr (), q)) :: unit task"
  let ?s1 = "enqueue (?t 7) (startSession ?p)"
  let ?s2 = "enqueue (?t 9) ?s1"
  let ?s3 = "?s2\<lparr>draining := True\<rparr>"
  have "session_steps (startSession ?p) ?s1"
    by (rule session_steps.more [OF session_steps.none]) (rule submit, simp add: startSession_def)
  then have "session_steps (startSession ?p) ?s2"
    by (rule session_steps.more) (rule submit, simp add: startSession_def enqueue_def)
  then have "session_steps (startSession ?p) ?s3"
    by (rule session_steps.more) (rule enter; simp add: startSession_def enqueue_def isAlive_def newProto_def)
  then have run: "session_steps (startSession ?p) (runTask ?s3)"
    by (rule session_steps.more) (rule drain; simp add: startSession_def enqueue_def)
  have "executed (runTask ?s3) = [7]" "submitted (runTask ?s3) = [7, 9]"
    by (simp_all add: runTask_def enqueue_def startSession_def)
  moreover from this(1) tasks_in_order [OF run] have "dom (results (runTask ?s3)) = {7}"
    by simp
  ultimately show ?thesis
    using run by blast
qed

text \<open>A worker that has left its loop never comes back, and no future becomes ready any more.\<close>

lemma stopped_stays:
  assumes "session_steps s s'" and "\<not> running s"
  shows "\<not> running s' \<and> results s' = results s \<and> executed s' = executed s"
  using assms by (induction rule: session_steps.induct)
    (auto simp: enqueue_def setIsAlive_def elim!: session_stepE)

text \<open>
  A call on a session whose worker has left its loop is never answered. A task queued in such a state
  has no result in any later state, so the caller, which waits for it without a limit, waits forever.
\<close>

theorem call_after_exit_blocks:
  assumes "session_steps (startSession p) s" and "\<not> running s" and "k \<notin> set (submitted s)"
    and "session_steps (enqueue (k, fn) s) s'"
  shows "results s' k = None"
proof -
  have "k \<notin> dom (results s)"
    using queue_inv_steps [OF assms(1) queue_inv_start] assms(3) by (simp add: queue_inv_def)
  moreover have "results s' = results (enqueue (k, fn) s)"
    using stopped_stays [OF assms(4)] assms(2) by (simp add: enqueue_def)
  ultimately show ?thesis
    by (auto simp: enqueue_def)
qed

theorem call_after_exit_blocks_witness:
  "\<exists>s :: Message worker. session_steps (startSession (newProto \<lparr>sock_open = True, rx = [], tx_script = [], tx = []\<rparr> ''DATANODE'' ''dn'')) s \<and>
     (\<forall>s'. session_steps (enqueue (0, proto_heartbeat) s) s' \<longrightarrow> results s' 0 = None)"
proof -
  let ?s0 = "startSession (newProto \<lparr>sock_open = True, rx = [], tx_script = [], tx = []\<rparr> ''DATANODE'' ''dn'') :: Message worker"
  let ?s1 = "setIsAlive False ?s0"
  let ?s2 = "?s1\<lparr>running := False, sess_alive := False\<rparr>"
  have "session_steps ?s0 ?s1"
    by (rule session_steps.more [OF session_steps.none kill])
  then have run: "session_steps ?s0 ?s2"
    by (rule session_steps.more) (rule leave; simp add: startSession_def setIsAlive_def isAlive_def)
  have "\<not> running ?s2" "0 \<notin> set (submitted ?s2)"
    by (simp_all add: startSession_def setIsAlive_def)
  from call_after_exit_blocks [OF run this] run show ?thesis
    by blast
qed

lemma steps_trans: "session_steps s' s'' \<Longrightarrow> session_steps s s' \<Longrightarrow> session_steps s s''"
  by (induction rule: session_steps.induct) (auto intro: session_steps.more)

lemma runTask_Cons:
  assumes "tasks s = (k, fn) # ts" and "fn (endpoint s) = (r, p)"
  shows "runTask s = s\<lparr>tasks := ts, endpoint := p, results := (results s)(k \<mapsto> r), executed := executed s @ [k]\<rparr>"
  using assms by (simp add: runTask_def)

lemma drain_to:
  assumes "running s" and "draining s" and "tasks s = before @ (k, fn) # after"
  shows "\<exists>s' s''. session_steps s s' \<and> draining s' \<and> tasks s' = (k, fn) # after \<and>
    results s'' k = Some (fst (fn (endpoint s'))) \<and> session_steps s s''"
  using assms
proof (induction before arbitrary: s)
  case Nil
  obtain r p where fn: "fn (endpoint s) = (r, p)"
    by fastforce
  have "session_steps s (runTask s)"
    using Nil.prems by (blast intro: session_steps.intros drain)
  moreover have tasks: "tasks s = (k, fn) # after"
    using Nil.prems(3) by simp
  moreover have "results (runTask s) k = Some r"
    unfolding runTask_Cons [OF tasks fn] by simp
  ultimately show ?case
    using Nil.prems fn session_steps.none by fastforce
next
  case (Cons t before)
  obtain j g where t: "t = (j, g)"
    by fastforce
  obtain r p where g: "g (endpoint s) = (r, p)"
    by fastforce
  have tasks: "tasks s = (j, g) # before @ (k, fn) # after"
    using Cons.prems(3) t by simp
  note run = runTask_Cons [OF tasks g]
  have "session_steps s (runTask s)"
    using Cons.prems by (blast intro: session_steps.intros drain)
  moreover have "running (runTask s)" "draining (runTask s)" "tasks (runTask s) = before @ (k, fn) # after"
    using Cons.prems unfolding run by simp_all
  ultimately show ?case
    using Cons.IH [of "runTask s"] by (meson steps_trans)
qed

text \<open>
  A call on a live session is answered. When the worker is in its loop with a live connection, or
  already draining its queue, a queued task can always be run to completion by the worker alone, and
  its future then holds the result of that very task on the endpoint at its turn.
\<close>

theorem queued_call_is_answered:
  assumes "running s" and "draining s \<or> isAlive s" and "tasks s = before @ (k, fn) # after"
  shows "\<exists>s' s''. session_steps s s' \<and> tasks s' = (k, fn) # after \<and>
    session_steps s s'' \<and> results s'' k = Some (fst (fn (endpoint s')))"
proof -
  let ?s = "s\<lparr>draining := True\<rparr>"
  have "session_steps s ?s"
  proof (cases "draining s")
    case True
    then have "?s = s"
      by (cases s) simp
    then show ?thesis
      by (simp add: session_steps.none)
  next
    case False
    with assms(1,2) show ?thesis
      by (blast intro: session_steps.intros enter)
  qed
  moreover obtain s' s'' where "session_steps ?s s'" "tasks s' = (k, fn) # after"
    "results s'' k = Some (fst (fn (endpoint s')))" "session_steps ?s s''"
    using drain_to [of ?s before k fn after] assms(1,3) by auto
  ultimately show ?thesis
    using steps_trans by blast
qed

theorem queued_call_is_answered_witness:
  "\<exists>s'' :: unit worker. session_steps (enqueue (5, \<lambda>q. (Inr (), q)) (startSession
      (newProto \<lparr>sock_open = True, rx = [], tx_script = [], tx = []\<rparr> ''DATANODE'' ''dn''))) s'' \<and> results s'' 5 = Some (Inr ())"
proof -
  let ?s = "enqueue (5, \<lambda>q. (Inr (), q)) (startSession
      (newProto \<lparr>sock_open = True, rx = [], tx_script = [], tx = []\<rparr> ''DATANODE'' ''dn'')) :: unit worker"
  have "running ?s" "draining ?s \<or> isAlive ?s" "tasks ?s = [] @ (5, \<lambda>q. (Inr (), q)) # []"
    by (simp_all add: enqueue_def startSession_def isAlive_def newProto_def)
  from queued_call_is_answered [OF this] show ?thesis
    by fastforce
qed

section \<open>One caller at a time\<close>

datatype 'a outcome = Returned 'a | Threw frame_error | Blocked

definition loopCheck :: "'r worker \<Rightarrow> 'r worker" where
  \<comment> \<open>the condition of the worker's loop after the queue has been drained\<close>
  "loopCheck s = (if isAlive s then s else s\<lparr>running := False, sess_alive := False\<rparr>)"

definition callFrom :: "nat \<Rightarrow> (proto \<Rightarrow> (frame_error + 'r) \<times> proto) \<Rightarrow> 'r worker \<Rightarrow> 'r outcome \<times> 'r worker" where
  \<comment> \<open>a call while nothing else is queued: the worker runs the task and looks at its loop condition; an
     exception of the task is rethrown to the caller\<close>
  "callFrom k fn s =
     (let s1 = enqueue (k, fn) s
      in if \<not> running s then (Blocked, s1)
         else let s2 = loopCheck (runTask s1)
              in (case results s2 k of
                    None \<Rightarrow> (Blocked, s2) | Some (Inl e) \<Rightarrow> (Threw e, s2) | Some (Inr x) \<Rightarrow> (Returned x, s2)))"

lemma callFrom_steps:
  assumes "running s" and "isAlive s" and "\<not> draining s" and "tasks s = []" and "k \<notin> set (submitted s)"
  shows "session_steps s (snd (callFrom k fn s))"
proof -
  let ?s1 = "enqueue (k, fn) s"
  let ?s2 = "?s1\<lparr>draining := True\<rparr>"
  let ?s3 = "runTask ?s2"
  obtain r p where fn: "fn (endpoint s) = (r, p)"
    by fastforce
  have tasks: "tasks ?s2 = (k, fn) # []" "endpoint ?s2 = endpoint s"
    using assms(4) by (simp_all add: enqueue_def)
  note run = runTask_Cons [OF tasks(1)]
  have s3: "?s3 = ?s2\<lparr>tasks := [], endpoint := p, results := (results s)(k \<mapsto> r), executed := executed s @ [k]\<rparr>"
    using run fn tasks(2) by (simp add: enqueue_def)
  have "session_steps s ?s1"
    using assms(5) by (intro session_steps.more [OF session_steps.none] submit) simp
  then have "session_steps s ?s2"
    by (rule session_steps.more) (rule enter; use assms in \<open>simp add: enqueue_def isAlive_def\<close>)
  then have "session_steps s ?s3"
    by (rule session_steps.more) (rule drain; use assms in \<open>simp add: enqueue_def\<close>)
  moreover have "running ?s3" "draining ?s3" "tasks ?s3 = []"
    using assms(1) unfolding s3 by (simp_all add: enqueue_def)
  ultimately have drained: "session_steps s (runTask ?s3)"
    by (meson session_steps.more drain)
  have empty: "runTask ?s3 = ?s3\<lparr>draining := False\<rparr>"
    unfolding s3 by (simp add: runTask_def)
  have direct: "runTask ?s1 = ?s3\<lparr>draining := False\<rparr>"
    using assms(3,4) fn unfolding s3 by (simp add: runTask_def enqueue_def)
  have "session_steps s (loopCheck (runTask ?s1))"
  proof (cases "isAlive (runTask ?s1)")
    case True
    with drained empty direct show ?thesis
      by (simp add: loopCheck_def)
  next
    case False
    have "session_step (runTask ?s1) ((runTask ?s1)\<lparr>running := False, sess_alive := False\<rparr>)"
      using assms(1) False unfolding direct s3 by (intro leave) (simp_all add: enqueue_def)
    with drained empty direct False show ?thesis
      by (simp add: loopCheck_def) (metis session_steps.more)
  qed
  then show ?thesis
    using assms(1) by (simp add: callFrom_def Let_def split: option.splits sum.splits)
qed

end
