(* ===== verification/Node_Session.thy ===== *)
theory Node_Session
  imports Datanode_Session Connection_Session
begin

text \<open>
  A data node as the managers of the server see it: the session of its connection together with the two
  endpoints and the disk behind it. The connection may be cut during any call, after any number of
  bytes in either direction, and stays cut; a call on a session whose worker has left its loop blocks.
  The laws at the end state what the replication manager relies on, call by call; they are derived from
  the byte-level theorems about one call.
\<close>

section \<open>The session of a data node\<close>

record node =
  n_name :: string               \<comment> \<open>the name the data node identified with\<close>
  n_run :: bool                  \<comment> \<open>the worker of the session is in its loop\<close>
  n_link :: bool                 \<comment> \<open>the connection still carries bytes\<close>
  n_ends :: session              \<comment> \<open>the endpoint of the server, the disk and the endpoint of the data node\<close>
  n_cuts :: "(nat \<times> nat) list"  \<comment> \<open>how many bytes the coming calls get through, each way; without an entry all\<close>

abbreviation server_end :: "node \<Rightarrow> proto" where
  "server_end nd \<equiv> fst (n_ends nd)"

abbreviation node_disk :: "node \<Rightarrow> disk" where
  "node_disk nd \<equiv> fst (snd (n_ends nd))"

definition outcome_of :: "frame_error + 'a \<Rightarrow> 'a outcome" where
  "outcome_of r = (case r of Inl e \<Rightarrow> Threw e | Inr x \<Rightarrow> Returned x)"

definition dropUnread :: "proto \<Rightarrow> proto" where
  \<comment> \<open>a reset connection delivers no byte that was not read before\<close>
  "dropUnread p = p\<lparr>chan := (chan p)\<lparr>rx := []\<rparr>\<rparr>"

definition node_call :: "bytes \<Rightarrow> (proto \<Rightarrow> (frame_error + 'a) \<times> proto) \<Rightarrow> node \<Rightarrow> 'a outcome \<times> node" where
  \<comment> \<open>\<open>session->call\<close>: the worker runs the task on its endpoint, then looks at its loop condition\<close>
  "node_call req fn nd =
     (if \<not> n_run nd then (Blocked, nd)
      else case n_ends nd of (S, d, D) \<Rightarrow>
        if \<not> n_link nd then
          (let (r, S') = fn (receiving S []) in (outcome_of r, nd\<lparr>n_run := alive S', n_ends := (S', d, D)\<rparr>))
        else
          (let (res, _, D1) = datanodeStep d (receiving D req);
               n = length (tx (chan D1)) - length (tx (chan D));
               (k, j) = (case n_cuts nd of [] \<Rightarrow> (length req, n) | c # _ \<Rightarrow> c);
               whole = (\<not> isl res \<and> length req \<le> k \<and> n \<le> j);
               (r, S', d', D') = exchange k j req fn (S, d, D)
           in (outcome_of r,
               nd\<lparr>n_run := alive S', n_link := whole, n_ends := (if whole then S' else dropUnread S', d', D'),
                  n_cuts := tl (n_cuts nd)\<rparr>)))"

definition node_isAlive :: "node \<Rightarrow> bool" where
  "node_isAlive nd \<longleftrightarrow> n_run nd \<and> alive (server_end nd)"

definition node_setIsAlive :: "bool \<Rightarrow> node \<Rightarrow> node" where
  \<comment> \<open>a session told to stop leaves its loop\<close>
  "node_setIsAlive v nd =
     (case n_ends nd of (S, d, D) \<Rightarrow> nd\<lparr>n_run := n_run nd \<and> v, n_ends := (S\<lparr>alive := v\<rparr>, d, D)\<rparr>)"

definition node_upload :: "Opcode \<Rightarrow> string \<Rightarrow> int \<Rightarrow> bytes \<Rightarrow> node \<Rightarrow> Message outcome \<times> node" where
  "node_upload op path version content nd =
     node_call (uploadBytes op path version (nextSendSeq (server_end nd)) content)
       (\<lambda>p. uploadCall op p path version content) nd"

definition node_createFile :: "string \<Rightarrow> int \<Rightarrow> bytes \<Rightarrow> node \<Rightarrow> Message outcome \<times> node" where
  "node_createFile = node_upload CREATE_FILE"

definition node_updateFile :: "string \<Rightarrow> int \<Rightarrow> bytes \<Rightarrow> node \<Rightarrow> Message outcome \<times> node" where
  "node_updateFile = node_upload UPDATE_FILE"

definition node_readFile :: "string \<Rightarrow> node \<Rightarrow> (Message \<times> bytes) outcome \<times> node" where
  \<comment> \<open>into an empty vector\<close>
  "node_readFile path nd =
     node_call (wireMsg (pathMsg READ_FILE path (nextSendSeq (server_end nd)))) (\<lambda>p. proto_readFile p path []) nd"

definition node_deleteFile :: "string \<Rightarrow> node \<Rightarrow> Message outcome \<times> node" where
  "node_deleteFile path nd =
     node_call (wireMsg (pathMsg DELETE_FILE path (nextSendSeq (server_end nd)))) (\<lambda>p. proto_deleteFile p path) nd"

definition node_heartbeat :: "node \<Rightarrow> Message outcome \<times> node" where
  "node_heartbeat nd = node_call (wireMsg (plainMsg HEARTBEAT (nextSendSeq (server_end nd)))) proto_heartbeat nd"

definition node_syncStatus :: "node \<Rightarrow> Message outcome \<times> node" where
  "node_syncStatus nd = node_call (wireMsg (plainMsg SYNC_STATUS (nextSendSeq (server_end nd)))) syncStatus nd"

section \<open>Calls on a connection that has lost its framing\<close>

definition bad_stream :: "proto \<Rightarrow> bool" where
  "bad_stream p \<longleftrightarrow> om_find (reorderBuffer p) (expectedRecvSeq p) = None \<and>
     (length (available p) < FRAME_HEADER_SIZE \<or> readU16 (take FRAME_HEADER_SIZE (available p)) \<noteq> SQUID_MAGIC)"

definition gives_up :: "(proto \<Rightarrow> (frame_error + 'a) \<times> proto) \<Rightarrow> ('a \<Rightarrow> bool) \<Rightarrow> bool" where
  \<comment> \<open>a call that reads from such a stream returns a negative answer on a dead endpoint\<close>
  "gives_up fn nack \<longleftrightarrow> (\<forall>p. bad_stream p \<longrightarrow> (\<exists>x p'. fn p = (Inr x, p') \<and> nack x \<and> \<not> alive p'))"

lemma bad_receive: "bad_stream p \<Longrightarrow> \<exists>p'. receiveAndParse p = (makeNack, p') \<and> \<not> alive p'"
  unfolding bad_stream_def by (rule desync_closes) auto

lemma sendFrame_rx:
  "available (sendFrame p f) = available p \<and> reorderBuffer (sendFrame p f) = reorderBuffer p \<and>
   expectedRecvSeq (sendFrame p f) = expectedRecvSeq p"
proof -
  let ?p = "p\<lparr>nextSendSeq := nextSendSeq p + 1\<rparr>" and ?f = "stampSeq f (nextSendSeq p)"
  obtain r c where s: "sendLoop (chan ?p) ?f 0 = (r, c)"
    by fastforce
  from sendLoop_law [OF s] have "rx_avail c = rx_avail (chan p)"
    using rx_side_avail [of c "chan p"] by simp
  with sendFrameLoop_sendLoop [of 0 ?p ?f] s show ?thesis
    by (simp add: sendFrame_def available_def)
qed

lemma bad_stream_send: "bad_stream p \<Longrightarrow> bad_stream (sendFrame p f)"
  using sendFrame_rx [of p f] by (simp add: bad_stream_def)

lemma gives_up_request:
  assumes "fr = Inr f" and "\<And>p. bad_stream p \<Longrightarrow> \<exists>p'. k p = (makeNack, p') \<and> \<not> alive p'"
  shows "gives_up (\<lambda>p. request p fr k) (\<lambda>m. m = makeNack)"
  unfolding gives_up_def
proof (intro allI impI)
  fix p assume "bad_stream p"
  from assms(2) [OF bad_stream_send [OF this, of f]] show "\<exists>x p'. request p fr k = (Inr x, p') \<and> x = makeNack \<and> \<not> alive p'"
    by (auto simp: request_def sendBuilt_def assms(1))
qed

lemma upload_frame: "length path \<le> 65535 \<Longrightarrow>
    \<exists>f. buildFrame op 0 [fieldString FILE_PATH path, fieldUint32 FILE_VERSION v] 0 = Inr f"
  using buildFrame_wire [of "[fieldString FILE_PATH path, fieldUint32 FILE_VERSION v]" op 0] by auto

lemma gives_up_upload:
  assumes "length path \<le> 65535" and "op = CREATE_FILE \<or> op = UPDATE_FILE"
  shows "gives_up (\<lambda>p. uploadCall op p path v content) (\<lambda>m. m = makeNack)"
proof -
  obtain f where "buildFrame op 0 [fieldString FILE_PATH path, fieldUint32 FILE_VERSION (u32_of_int v)] 0 = Inr f"
    using upload_frame [OF assms(1)] by blast
  then show ?thesis
    unfolding uploadCall_request [OF assms(2)]
    by (rule gives_up_request) (auto simp: uploadAfterRequest_def waitForAck_def dest!: bad_receive)
qed

lemma gives_up_simple:
  assumes "\<forall>f\<in>set fs. wf_field f" and "length fs \<le> 255"
  shows "gives_up (\<lambda>p. request p (buildFrame op 0 fs 0) receiveAndParse) (\<lambda>m. m = makeNack)"
proof -
  obtain f where "buildFrame op 0 fs 0 = Inr f"
    using buildFrame_wire [OF assms] by blast
  then show ?thesis
    by (rule gives_up_request) (rule bad_receive)
qed

lemma gives_up_delete: "length path \<le> 65535 \<Longrightarrow> gives_up (\<lambda>p. proto_deleteFile p path) (\<lambda>m. m = makeNack)"
  using gives_up_simple [of "[fieldString FILE_PATH path]" DELETE_FILE] by (simp add: proto_deleteFile_def deleteFileFormat_def)

lemma gives_up_heartbeat: "gives_up proto_heartbeat (\<lambda>m. m = makeNack)"
  using gives_up_simple [of "[]" HEARTBEAT] by (simp add: proto_heartbeat_def [abs_def] heartbeatFormat_def)

lemma gives_up_read:
  assumes "length path \<le> 65535"
  shows "gives_up (\<lambda>p. proto_readFile p path old) (\<lambda>(m, x). m = makeNack)"
  unfolding gives_up_def
proof (intro allI impI)
  fix p assume bad: "bad_stream p"
  obtain f where f: "readFileFormat path = Inr f"
    using buildFrame_wire [of "[fieldString FILE_PATH path]" READ_FILE 0] assms by (auto simp: readFileFormat_def)
  from bad_receive [OF bad_stream_send [OF bad, of f]]
  show "\<exists>x p'. proto_readFile p path old = (Inr x, p') \<and> (case x of (m, x) \<Rightarrow> m = makeNack) \<and> \<not> alive p'"
    by (auto simp: proto_readFile_def sendBuilt_def f waitForAck_def)
qed

lemma gives_up_sync: "gives_up syncStatus (\<lambda>m. m = makeNack)"
  unfolding gives_up_def
proof (intro allI impI)
  fix p assume bad: "bad_stream p"
  obtain f where f: "syncStatusFormat = Inr f"
    using buildFrame_wire [of "[]" SYNC_STATUS 0] by (auto simp: syncStatusFormat_def)
  obtain p' where "receiveAndParse (sendFrame p f) = (makeNack, p')" "\<not> alive p'"
    using bad_receive [OF bad_stream_send [OF bad]] by blast
  then have "syncLoop (sendFrame p f) = (Inr makeNack, p')"
    by (subst syncLoop.simps) simp
  with \<open>\<not> alive p'\<close> show "\<exists>x p'. syncStatus p = (Inr x, p') \<and> x = makeNack \<and> \<not> alive p'"
    by (simp add: syncStatus_def sendBuilt_def f)
qed

section \<open>The states of a session\<close>

definition poisoned :: "proto \<Rightarrow> proto \<Rightarrow> bool" where
  \<comment> \<open>after a read of a missing file: the end of the refusal is still unread at the server\<close>
  "poisoned S D \<longleftrightarrow>
     idle S (expectedRecvSeq S) (nextSendSeq S) \<and> 2 \<le> length (available S) \<and> available S ! 1 = 0 \<and>
     at_rest D (nextSendSeq S) (expectedRecvSeq S + 1)"

definition small_files :: "disk \<Rightarrow> bool" where
  "small_files d \<longleftrightarrow>
     (\<forall>p content. readDisk d p = Some content \<longrightarrow> p \<noteq> versionFilePath (root d) \<longrightarrow> length content \<le> unat FILETRANSFER_MAX_SIZE)"

definition node_ok :: "node \<Rightarrow> bool" where
  "node_ok nd = (case n_ends nd of (S, d, D) \<Rightarrow>
     storage_ok d \<and> small_files d \<and>
     (n_run nd \<longrightarrow> alive S \<and>
        (if n_link nd then session_ok (S, d, D) \<or> poisoned S D else reorderBuffer S = [] \<and> available S = [])))"

definition in_step :: "node \<Rightarrow> bool" where
  "in_step nd \<longleftrightarrow> n_run nd \<and> n_link nd \<and> session_ok (n_ends nd)"

definition healthy :: "node \<Rightarrow> bool" where
  \<comment> \<open>a session whose connection will not be cut\<close>
  "healthy nd \<longleftrightarrow> node_ok nd \<and> in_step nd \<and> n_cuts nd = []"

lemma poisoned_bad:
  assumes "poisoned S D"
  shows "bad_stream (receiving S extra)"
proof -
  have S: "idle S (expectedRecvSeq S) (nextSendSeq S)" "2 \<le> length (available S)" "available S ! 1 = 0"
    using assms by (simp_all add: poisoned_def)
  have av: "available (receiving S extra) = available S @ extra"
    using available_receiving_app [OF S(1)] .
  have "take FRAME_HEADER_SIZE (available (receiving S extra)) ! 1 = 0"
    using S(2,3) by (simp add: av FRAME_HEADER_SIZE_def nth_append)
  from magic_second_byte [OF this] S(1) show ?thesis
    by (simp add: bad_stream_def receiving_def idle_def)
qed

lemma starved_bad:
  assumes "reorderBuffer S = []" and "available S = []"
  shows "bad_stream (receiving S [])"
proof -
  have "available (receiving S []) = []"
    using assms(2) by (cases "sock_open (chan S)")
      (simp_all add: receiving_def available_def [of "p\<lparr>chan := c\<rparr>" for p c] rx_avail_def [of "c\<lparr>rx := r\<rparr>" for c r])
  with assms(1) show ?thesis
    by (simp add: bad_stream_def receiving_def FRAME_HEADER_SIZE_def)
qed

lemma exchange_disk: "exchange k j req fn (S, d, D) = (r, S', d', D') \<Longrightarrow> d' = fst (snd (datanodeStep d (receiving D (take k req))))"
  by (auto simp: exchange_def split: prod.splits)

lemma exchange_place: "exchange k j req fn (S, d, D) = (r, S', d', D') \<Longrightarrow> same_place d d'"
  by (auto simp: exchange_def dest: datanodeStep_place split: prod.splits)

definition answer_length :: "disk \<Rightarrow> proto \<Rightarrow> bytes \<Rightarrow> nat" where
  \<comment> \<open>how many bytes the data node sends back for a whole request\<close>
  "answer_length d D req =
     (let (_, _, D') = datanodeStep d (receiving D req) in length (tx (chan D')) - length (tx (chan D)))"

lemma node_call_linked:
  assumes "n_run nd" and "n_link nd" and "n_ends nd = (S, d, D)"
  shows "\<exists>k j r S' d' D' whole.
    exchange k j req fn (S, d, D) = (r, S', d', D') \<and>
    node_call req fn nd = (outcome_of r,
      nd\<lparr>n_run := alive S', n_link := whole, n_ends := (if whole then S' else dropUnread S', d', D'),
         n_cuts := tl (n_cuts nd)\<rparr>) \<and>
    (whole \<longrightarrow> length req \<le> k \<and> answer_length d D req \<le> j) \<and>
    (n_cuts nd = [] \<longrightarrow> k = length req \<and> j = answer_length d D req) \<and>
    (n_cuts nd = [] \<longrightarrow> \<not> isl (fst (datanodeStep d (receiving D req))) \<longrightarrow> whole)"
proof -
  obtain res d1 D1 where step: "datanodeStep d (receiving D req) = (res, d1, D1)"
    by (cases "datanodeStep d (receiving D req)")
  have n: "length (tx (chan D1)) - length (tx (chan D)) = answer_length d D req"
    by (simp add: answer_length_def step)
  let ?n = "answer_length d D req"
  obtain k j where kj: "(case n_cuts nd of [] \<Rightarrow> (length req, ?n) | c # _ \<Rightarrow> c) = (k, j)"
    by fastforce
  obtain r S' d' D' where ex: "exchange k j req fn (S, d, D) = (r, S', d', D')"
    by (cases "exchange k j req fn (S, d, D)")
  let ?whole = "\<not> isl res \<and> length req \<le> k \<and> ?n \<le> j"
  have "node_call req fn nd = (outcome_of r,
      nd\<lparr>n_run := alive S', n_link := ?whole, n_ends := (if ?whole then S' else dropUnread S', d', D'),
         n_cuts := tl (n_cuts nd)\<rparr>)"
    using assms kj ex by (cases "n_cuts nd") (simp_all add: node_call_def step n Let_def)
  moreover have "n_cuts nd = [] \<Longrightarrow> k = length req \<and> j = ?n"
    using kj by simp
  ultimately show ?thesis
    using ex step by (intro exI [of _ k] exI [of _ j] exI [of _ r] exI [of _ S'] exI [of _ d'] exI [of _ D'] exI [of _ ?whole]) auto
qed

text \<open>A session that is not in step returns a refusal from its next call and stops.\<close>

lemma call_out_of_step:
  assumes "n_run nd" and "node_ok nd" and "\<not> in_step nd" and "gives_up fn nack" and "n_ends nd = (S, d, D)"
  shows "\<exists>x nd'. node_call req fn nd = (Returned x, nd') \<and> nack x \<and> \<not> n_run nd' \<and>
    (node_disk nd' = d \<or>
     (\<exists>n k. at_rest D (nextSendSeq S) n \<and> node_disk nd' = fst (snd (datanodeStep d (receiving D (take k req))))))"
proof (cases "n_link nd")
  case False
  then have "bad_stream (receiving S [])"
    using assms(1,2,5) by (intro starved_bad) (auto simp: node_ok_def)
  with assms(4) obtain x S' where "fn (receiving S []) = (Inr x, S')" "nack x" "\<not> alive S'"
    unfolding gives_up_def by blast
  with False assms(1,5) show ?thesis
    by (simp add: node_call_def outcome_of_def)
next
  case True
  then have p: "poisoned S D"
    using assms(1-3,5) by (auto simp: node_ok_def in_step_def)
  obtain k j r S' d' D' whole where ex: "exchange k j req fn (S, d, D) = (r, S', d', D')"
    and call: "node_call req fn nd = (outcome_of r,
      nd\<lparr>n_run := alive S', n_link := whole, n_ends := (if whole then S' else dropUnread S', d', D'),
         n_cuts := tl (n_cuts nd)\<rparr>)"
    using node_call_linked [OF assms(1) True assms(5), of req fn] by blast
  from ex obtain extra where "fn (receiving S extra) = (r, S')"
    by (auto simp: exchange_def split: prod.splits)
  with assms(4) poisoned_bad [OF p] obtain x where "r = Inr x" "nack x" "\<not> alive S'"
    unfolding gives_up_def by (metis Pair_inject)
  with call exchange_disk [OF ex] p show ?thesis
    by (auto simp: poisoned_def outcome_of_def)
qed


section \<open>What a call leaves on the disk\<close>

definition stored_on :: "disk \<Rightarrow> string \<Rightarrow> (bytes \<times> int) option" where
  \<comment> \<open>content and version of a file\<close>
  "stored_on d path = map_option (\<lambda>content. (content, getFileVersion d path)) (readDisk d (resolvePath (root d) path))"

abbreviation stored :: "node \<Rightarrow> string \<Rightarrow> (bytes \<times> int) option" where
  "stored nd \<equiv> stored_on (node_disk nd)"

definition apart :: "disk \<Rightarrow> string \<Rightarrow> string \<Rightarrow> bool" where
  \<comment> \<open>two names that do not denote the same file\<close>
  "apart d p q \<longleftrightarrow> q \<noteq> p \<and> resolvePath (root d) q \<noteq> resolvePath (root d) p \<and> resolvePath (root d) q \<noteq> versionFilePath (root d)"

definition accepts :: "disk \<Rightarrow> string \<Rightarrow> bool" where
  \<comment> \<open>a name the data node can store a file under\<close>
  "accepts d path \<longleftrightarrow> user_path d path \<and> length path \<le> 65535 \<and> resolvePath (root d) path \<notin> set (unopenable d)"

definition disk_keeps :: "string \<Rightarrow> disk \<Rightarrow> disk \<Rightarrow> bool" where
  \<comment> \<open>a call about one file keeps the storage well-formed and every other file as it was\<close>
  "disk_keeps path d d' \<longleftrightarrow> storage_ok d' \<and> small_files d' \<and> same_place d d' \<and> (\<forall>q. apart d path q \<longrightarrow> stored_on d' q = stored_on d q)"

lemma disk_keeps_refl: "storage_ok d \<Longrightarrow> small_files d \<Longrightarrow> disk_keeps path d d"
  by (simp add: disk_keeps_def same_place_refl)

lemma disk_keepsI:
  assumes "storage_ok d'" and "small_files d" and "same_place d d'"
    and "\<forall>r. r \<noteq> resolvePath (root d) path \<and> r \<noteq> versionFilePath (root d) \<longrightarrow> readDisk d' r = readDisk d r"
    and "\<forall>q. q \<noteq> path \<longrightarrow> getFileVersion d' q = getFileVersion d q"
    and "\<forall>content. readDisk d' (resolvePath (root d) path) = Some content \<longrightarrow> length content \<le> unat FILETRANSFER_MAX_SIZE"
  shows "disk_keeps path d d'"
proof -
  have root: "root d' = root d"
    using assms(3) by (simp add: same_place_def)
  have "small_files d'"
    unfolding small_files_def root
  proof (intro allI impI)
    fix r content assume "readDisk d' r = Some content" "r \<noteq> versionFilePath (root d)"
    with assms(2,4,6) show "length content \<le> unat FILETRANSFER_MAX_SIZE"
      by (cases "r = resolvePath (root d) path") (auto simp: small_files_def)
  qed
  with assms(1,3-5) root show ?thesis
    by (auto simp: disk_keeps_def stored_on_def apart_def)
qed

definition upload_effect :: "string \<Rightarrow> int \<Rightarrow> bytes \<Rightarrow> disk \<Rightarrow> disk \<Rightarrow> bool" where
  \<comment> \<open>nothing, the file lost, or the file stored\<close>
  "upload_effect path v content d d' \<longleftrightarrow>
     d' = d \<or> readDisk d' = (readDisk d)(resolvePath (root d) path := None) \<or>
     d' = setFileVersion (writeDisk d (resolvePath (root d) path) content) path v"

definition upload_ok :: "string \<Rightarrow> int \<Rightarrow> bytes \<Rightarrow> disk \<Rightarrow> bool" where
  "upload_ok path v content d \<longleftrightarrow> accepts d path \<and> int_range v \<and> length content \<le> unat FILETRANSFER_MAX_SIZE"

lemma upload_stores:
  assumes "storage_ok d" and "upload_ok path v content d"
    and "d' = setFileVersion (writeDisk d (resolvePath (root d) path) content) path v"
  shows "storage_ok d' \<and> readDisk d' (resolvePath (root d) path) = Some content \<and>
    (\<forall>q. getFileVersion d' q = (if q = path then v else getFileVersion d q)) \<and>
    (\<forall>r. r \<noteq> resolvePath (root d) path \<and> r \<noteq> versionFilePath (root d) \<longrightarrow> readDisk d' r = readDisk d r)"
proof -
  let ?r = "resolvePath (root d) path" and ?d = "writeDisk d (resolvePath (root d) path) content"
  have args: "user_path d path" "plain_name path" "?r \<noteq> versionFilePath (root d)" "?r \<notin> set (unopenable d)" "int_range v"
    using assms(2) by (auto simp: upload_ok_def accepts_def user_path_def)
  have ok: "storage_ok ?d"
    using storage_ok_write [OF assms(1)] args by blast
  then have "\<forall>q. getFileVersion d' q = (if q = path then v else getFileVersion d q)"
    using args by (simp add: assms(3) storage_ok_def getFileVersion_setFileVersion getFileVersion_writeDisk)
  moreover have "storage_ok d'"
    using ok args by (simp add: assms(3) storage_ok_set)
  ultimately show ?thesis
    using args by (simp add: assms(3) readDisk_setFileVersion readDisk_writeDisk)
qed

lemma upload_effect_keeps:
  assumes "storage_ok d" and "small_files d" and "same_place d d'" and "upload_ok path v content d"
    and "upload_effect path v content d d'"
  shows "disk_keeps path d d'"
proof -
  have p: "resolvePath (root d) path \<noteq> versionFilePath (root d)" "length content \<le> unat FILETRANSFER_MAX_SIZE"
    using assms(4) by (auto simp: upload_ok_def accepts_def user_path_def)
  consider "d' = d" | "readDisk d' = (readDisk d)(resolvePath (root d) path := None)"
    | "d' = setFileVersion (writeDisk d (resolvePath (root d) path) content) path v"
    using assms(5) by (auto simp: upload_effect_def)
  then show ?thesis
  proof cases
    case 1
    with assms(1,2) show ?thesis
      by (simp add: disk_keeps_refl)
  next
    case 2
    have "getFileVersion d' = getFileVersion d"
      using assms(3) p(1) by (intro ext) (simp add: getFileVersion_def versionLines_def 2 same_place_def)
    with 2 storage_ok_lost [OF assms(1,3) 2 p(1)] assms(2,3) show ?thesis
      by (intro disk_keepsI) auto
  next
    case 3
    from upload_stores [OF assms(1,4) 3] p(2) assms(2,3) show ?thesis
      by (intro disk_keepsI) auto
  qed
qed

definition node_keeps :: "string \<Rightarrow> node \<Rightarrow> node \<Rightarrow> bool" where
  "node_keeps path nd nd' \<longleftrightarrow> node_ok nd' \<and> n_name nd' = n_name nd \<and> disk_keeps path (node_disk nd) (node_disk nd')"

lemma node_call_name: "n_name (snd (node_call req fn nd)) = n_name nd"
  by (auto simp: node_call_def Let_def split: prod.splits)

lemma available_dropUnread [simp]: "available (dropUnread p) = []"
  by (simp add: dropUnread_def available_def rx_avail_def)

lemma dropUnread_simps [simp]: "alive (dropUnread p) = alive p" "reorderBuffer (dropUnread p) = reorderBuffer p"
  by (simp_all add: dropUnread_def)

lemma node_ok_after:
  assumes "storage_ok d'" and "small_files d'" and "alive S' \<Longrightarrow> reorderBuffer S' = []"
    and "whole \<Longrightarrow> alive S' \<Longrightarrow> session_ok (S', d', D') \<or> poisoned S' D'"
    and "n_run nd' = alive S'" and "n_link nd' = whole" and "n_ends nd' = (if whole then S' else dropUnread S', d', D')"
  shows "node_ok nd'"
  using assms by (simp add: node_ok_def)

lemma node_ok_stopped: "storage_ok (node_disk nd) \<Longrightarrow> small_files (node_disk nd) \<Longrightarrow> \<not> n_run nd \<Longrightarrow> node_ok nd"
  by (auto simp: node_ok_def split: prod.splits)

lemma node_ok_disk: "node_ok nd \<Longrightarrow> storage_ok (node_disk nd) \<and> small_files (node_disk nd)"
  by (auto simp: node_ok_def split: prod.splits)

section \<open>The laws of the calls\<close>

lemma upload_args_ok: "storage_ok d \<Longrightarrow> upload_ok path v content d \<Longrightarrow> upload_args d path v content"
  by (simp add: upload_args_def upload_ok_def accepts_def storage_ok_def)

definition upload_keeps :: "string \<Rightarrow> int \<Rightarrow> bytes \<Rightarrow> disk \<Rightarrow> disk \<Rightarrow> bool" where
  \<comment> \<open>the file itself is as before, lost or replaced\<close>
  "upload_keeps path v content d d' \<longleftrightarrow>
     disk_keeps path d d' \<and> (stored_on d' path = stored_on d path \<or> stored_on d' path = None \<or> stored_on d' path = Some (content, v))"

lemma upload_effect_outcome:
  assumes "storage_ok d" and "small_files d" and "same_place d d'" and "upload_ok path v content d"
    and "upload_effect path v content d d'"
  shows "upload_keeps path v content d d'"
proof -
  have "stored_on d' path = Some (content, v)" if "d' = setFileVersion (writeDisk d (resolvePath (root d) path) content) path v"
    using upload_stores [OF assms(1,4) that] assms(3) by (simp add: stored_on_def same_place_def)
  with upload_effect_keeps [OF assms] assms(3,5) show ?thesis
    by (auto simp: upload_keeps_def upload_effect_def stored_on_def same_place_def)
qed

lemma serve_upload_effect:
  assumes "storage_ok d" and "small_files d" and "upload_ok path v content d" and "at_rest D s n"
    and "op = CREATE_FILE \<or> op = UPDATE_FILE"
  shows "upload_keeps path v content d (fst (snd (datanodeStep d (receiving D (take k (uploadBytes op path v s content))))))"
proof -
  obtain d' D' where step: "datanodeStep d (receiving D (take k (uploadBytes op path v s content))) = (Inr (), d', D')"
      "upload_effect path v content d d'"
    using serve_upload [OF upload_args_ok [OF assms(1,3)] assms(4,5), of k] by (auto simp: upload_effect_def split: if_splits)
  from upload_effect_outcome [OF assms(1,2) datanodeStep_place [OF step(1)] assms(3) step(2)] step(1) show ?thesis
    by simp
qed

lemma upload_answer:
  assumes "storage_ok d" and "upload_ok path v content d" and "at_rest D s n" and "op = CREATE_FILE \<or> op = UPDATE_FILE"
  shows "answer_length d D (uploadBytes op path v s content) = length (wireMsg (ackMsg True n) @ wireMsg (confirmMsg op v (n + 1)))"
    and "\<not> isl (fst (datanodeStep d (receiving D (uploadBytes op path v s content))))"
proof -
  let ?req = "uploadBytes op path v s content"
  have "length (wireMsg (versionMsg op path v s)) \<le> length ?req"
    by (simp add: uploadBytes_def)
  then obtain d' D' where "datanodeStep d (receiving D ?req) = (Inr (), d', D')"
      "tx (chan D') = tx (chan D) @ wireMsg (ackMsg True n) @ wireMsg (confirmMsg op v (n + 1))"
    using serve_upload [OF upload_args_ok [OF assms(1,2)] assms(3,4), of "length ?req"] by auto
  then show "answer_length d D ?req = length (wireMsg (ackMsg True n) @ wireMsg (confirmMsg op v (n + 1)))"
      "\<not> isl (fst (datanodeStep d (receiving D ?req)))"
    by (simp_all add: answer_length_def)
qed

text \<open>
  Every call follows one pattern. \<open>good\<close> is what the caller takes for success and \<open>P\<close> what it then knows
  about the disk; \<open>fine\<close> is the condition under which an uncut call succeeds.
\<close>

lemma node_call_law:
  assumes "node_ok nd" and "n_run nd" and ends: "n_ends nd = (S, d, D)" and "gives_up fn (\<lambda>x. \<not> good x)"
    and srv: "\<And>n k. at_rest D (nextSendSeq S) n \<Longrightarrow> K (fst (snd (datanodeStep d (receiving D (take k req)))))"
    and K: "K d" "\<And>d'. K d' \<Longrightarrow> storage_ok d' \<and> small_files d'"
    and exch: "\<And>k j r S' d' D'. at_rest S (nextSendSeq D) (nextSendSeq S) \<Longrightarrow> at_rest D (nextSendSeq S) (nextSendSeq D) \<Longrightarrow>
      exchange k j req fn (S, d, D) = (r, S', d', D') \<Longrightarrow>
      \<exists>x. r = Inr x \<and> (alive S' \<longrightarrow> reorderBuffer S' = []) \<and>
        (good x \<longrightarrow> P x d' \<and> (\<exists>n' s'. at_rest S' n' s' \<and> at_rest D' s' n')) \<and>
        (length req \<le> k \<and> answer_length d D req \<le> j \<longrightarrow> (fine \<longrightarrow> good x) \<and> (good x \<or> poisoned S' D' \<or> \<not> alive S'))"
    and served: "at_rest D (nextSendSeq S) (nextSendSeq D) \<Longrightarrow> fine \<Longrightarrow> \<not> isl (fst (datanodeStep d (receiving D req)))"
  shows "\<exists>x nd'. node_call req fn nd = (Returned x, nd') \<and> node_ok nd' \<and> n_name nd' = n_name nd \<and> K (node_disk nd') \<and>
    (good x \<longrightarrow> n_run nd' \<and> P x (node_disk nd')) \<and> (healthy nd \<and> fine \<longrightarrow> good x \<and> healthy nd')"
proof (cases "in_step nd")
  case False
  from call_out_of_step [OF assms(2,1) False assms(4) ends, of req] obtain x nd' where
    call: "node_call req fn nd = (Returned x, nd')" "\<not> good x" "\<not> n_run nd'"
    and disk: "node_disk nd' = d \<or> (\<exists>n k. at_rest D (nextSendSeq S) n \<and> node_disk nd' = fst (snd (datanodeStep d (receiving D (take k req)))))"
    by blast
  have keeps: "K (node_disk nd')"
    using disk srv K(1) by metis
  then have "node_ok nd'"
    using call(3) K(2) by (intro node_ok_stopped) simp_all
  then show ?thesis
    using call keeps node_call_name [of req fn nd] False by (auto simp: healthy_def)
next
  case True
  have run: "n_link nd" and rest: "at_rest S (nextSendSeq D) (nextSendSeq S)" "at_rest D (nextSendSeq S) (nextSendSeq D)"
    using True ends by (auto simp: in_step_def session_ok_def)
  obtain k j r S' d' D' whole where ex: "exchange k j req fn (S, d, D) = (r, S', d', D')"
    and call: "node_call req fn nd = (outcome_of r,
      nd\<lparr>n_run := alive S', n_link := whole, n_ends := (if whole then S' else dropUnread S', d', D'), n_cuts := tl (n_cuts nd)\<rparr>)"
      (is "_ = (_, ?nd)")
    and whole: "whole \<longrightarrow> length req \<le> k \<and> answer_length d D req \<le> j" "n_cuts nd = [] \<longrightarrow> k = length req \<and> j = answer_length d D req"
      "n_cuts nd = [] \<longrightarrow> \<not> isl (fst (datanodeStep d (receiving D req))) \<longrightarrow> whole"
    using node_call_linked [OF assms(2) run ends, of req fn] by blast
  from exch [OF rest ex] obtain x where x: "r = Inr x" "alive S' \<longrightarrow> reorderBuffer S' = []"
    "good x \<longrightarrow> P x d' \<and> (\<exists>n' s'. at_rest S' n' s' \<and> at_rest D' s' n')"
    "length req \<le> k \<and> answer_length d D req \<le> j \<longrightarrow> (fine \<longrightarrow> good x) \<and> (good x \<or> poisoned S' D' \<or> \<not> alive S')"
    by blast
  have keeps: "K d'"
    using srv [OF rest(2)] exchange_disk [OF ex] by simp
  then have ok: "storage_ok d'" "small_files d'"
    using K(2) by simp_all
  have sess: "good x \<Longrightarrow> session_ok (S', d', D') \<and> alive S'"
    using x(3) session_okI [OF ok(1)] by (auto simp: at_rest_def idle_def)
  have nd: "node_ok ?nd"
    by (rule node_ok_after [of d' S' whole D']) (use ok x(2,4) sess whole(1) in auto)
  have "healthy ?nd \<and> good x" if "healthy nd" "fine"
    using that sess nd x(4) whole served [OF rest(2)] by (auto simp: healthy_def in_step_def)
  with nd call x(1,3) keeps sess show ?thesis
    by (auto simp: outcome_of_def)
qed

lemma node_upload_law:
  assumes "node_ok nd" and "n_run nd" and "upload_ok path v content (node_disk nd)" and "op = CREATE_FILE \<or> op = UPDATE_FILE"
  shows "\<exists>m nd'. node_upload op path v content nd = (Returned m, nd') \<and> node_keeps path nd nd' \<and>
    upload_keeps path v content (node_disk nd) (node_disk nd') \<and>
    (isAck m \<longrightarrow> n_run nd' \<and> stored nd' path = Some (content, v)) \<and> (healthy nd \<longrightarrow> isAck m \<and> healthy nd')"
proof -
  obtain S d D where ends: "n_ends nd = (S, d, D)"
    by (cases "n_ends nd")
  let ?req = "uploadBytes op path v (nextSendSeq S) content" and ?fn = "\<lambda>p. uploadCall op p path v content"
  have ok: "storage_ok d" "small_files d" and args: "upload_ok path v content d"
    using node_ok_disk [OF assms(1)] assms(3) ends by simp_all
  have up: "gives_up ?fn (\<lambda>m. \<not> isAck m)"
    using gives_up_upload [OF _ assms(4), of path v content] args by (auto simp: gives_up_def upload_ok_def accepts_def)
  have "\<exists>m nd'. node_call ?req ?fn nd = (Returned m, nd') \<and>
      node_ok nd' \<and> n_name nd' = n_name nd \<and> upload_keeps path v content d (node_disk nd') \<and>
      (isAck m \<longrightarrow> n_run nd' \<and> stored_on (node_disk nd') path = Some (content, v)) \<and> (healthy nd \<and> True \<longrightarrow> isAck m \<and> healthy nd')"
  proof (rule node_call_law [OF assms(1,2) ends up])
    fix k j r S' d' D'
    assume rest: "at_rest S (nextSendSeq D) (nextSendSeq S)" "at_rest D (nextSendSeq S) (nextSendSeq D)"
      and ex: "exchange k j ?req ?fn (S, d, D) = (r, S', d', D')"
    have "stored_on d' path = Some (content, v)" if "d' = setFileVersion (writeDisk d (resolvePath (root d) path) content) path v"
      using upload_stores [OF ok(1) args that] exchange_place [OF ex] by (simp add: stored_on_def same_place_def)
    with upload_exchange [OF rest upload_args_ok [OF ok(1) args] assms(4) ex]
    show "\<exists>m. r = Inr m \<and> (alive S' \<longrightarrow> reorderBuffer S' = []) \<and>
        (isAck m \<longrightarrow> stored_on d' path = Some (content, v) \<and> (\<exists>n' s'. at_rest S' n' s' \<and> at_rest D' s' n')) \<and>
        (length ?req \<le> k \<and> answer_length d D ?req \<le> j \<longrightarrow> (True \<longrightarrow> isAck m) \<and> (isAck m \<or> poisoned S' D' \<or> \<not> alive S'))"
      unfolding upload_answer(1) [OF ok(1) args rest(2) assms(4)] by blast
  qed (use serve_upload_effect [OF ok args _ assms(4)] upload_answer(2) [OF ok(1) args _ assms(4)] disk_keeps_refl [OF ok]
      in \<open>auto simp: disk_keeps_def upload_keeps_def\<close>)
  then show ?thesis
    by (auto simp: node_upload_def node_keeps_def upload_keeps_def ends)
qed

lemma serve_read_disk:
  assumes "small_files d" and "user_path d path" and "length path \<le> 65535" and "at_rest D s n"
  shows "fst (snd (datanodeStep d (receiving D (take k (wireMsg (pathMsg READ_FILE path s)))))) = d"
proof (cases "readDisk d (resolvePath (root d) path)")
  case None
  from serve_read_missing [OF assms(4,3) None, of k] show ?thesis
    by auto
next
  case (Some content)
  then have "length content \<le> unat FILETRANSFER_MAX_SIZE"
    using assms(1,2) by (auto simp: small_files_def user_path_def)
  from serve_read [OF assms(4,3) Some this, of k] show ?thesis
    by auto
qed

lemma read_answer:
  assumes "at_rest D s n" and "length path \<le> 65535"
  shows "readDisk d (resolvePath (root d) path) = Some content \<Longrightarrow> length content \<le> unat FILETRANSFER_MAX_SIZE \<Longrightarrow>
      answer_length d D (wireMsg (pathMsg READ_FILE path s)) = length (readBytesOnWire content (getFileVersion d path) n) \<and>
      \<not> isl (fst (datanodeStep d (receiving D (wireMsg (pathMsg READ_FILE path s)))))"
    and "readDisk d (resolvePath (root d) path) = None \<Longrightarrow>
      answer_length d D (wireMsg (pathMsg READ_FILE path s)) = length (wireMsg (ackMsg True n) @ wireMsg (ackMsg False (n + 1)))"
  using serve_read [OF assms, of d content "length (wireMsg (pathMsg READ_FILE path s))"]
    serve_read_missing [OF assms, of d "length (wireMsg (pathMsg READ_FILE path s))"]
  by (auto simp: answer_length_def)

lemma refusal_tail: "2 \<le> length (drop 8 (wireMsg (ackMsg b q))) \<and> drop 8 (wireMsg (ackMsg b q)) ! 1 = 0"
  by (simp add: wireMsg_def frameHeader_def ackMsg_def encodeField_def pushU32_def pushU16_def)

lemma node_readFile_law:
  assumes "node_ok nd" and "n_run nd" and "user_path (node_disk nd) path" and "length path \<le> 65535"
  shows "\<exists>m x nd'. node_readFile path nd = (Returned (m, x), nd') \<and> node_ok nd' \<and> n_name nd' = n_name nd \<and>
    node_disk nd' = node_disk nd \<and>
    (isAck m \<longrightarrow> n_run nd' \<and> (\<exists>v. stored nd path = Some (x, v) \<and> getUint32 m FILE_VERSION 0 = u32_of_int v)) \<and>
    (healthy nd \<and> stored nd path \<noteq> None \<longrightarrow> isAck m \<and> healthy nd')"
proof -
  obtain S d D where ends: "n_ends nd = (S, d, D)"
    by (cases "n_ends nd")
  let ?req = "wireMsg (pathMsg READ_FILE path (nextSendSeq S))" and ?fn = "\<lambda>p. proto_readFile p path []"
  have ok: "storage_ok d" "small_files d" and path: "user_path d path"
    using node_ok_disk [OF assms(1)] assms(3) ends by simp_all
  have up: "gives_up ?fn (\<lambda>y. \<not> (case y of (m, x) \<Rightarrow> isAck m))"
    using gives_up_read [OF assms(4), of "[]"] by (fastforce simp: gives_up_def)
  have small: "length content \<le> unat FILETRANSFER_MAX_SIZE" if "readDisk d (resolvePath (root d) path) = Some content" for content
    using that ok(2) path by (auto simp: small_files_def user_path_def)
  have "\<exists>y nd'. node_call ?req ?fn nd = (Returned y, nd') \<and> node_ok nd' \<and> n_name nd' = n_name nd \<and> node_disk nd' = d \<and>
      ((case y of (m, x) \<Rightarrow> isAck m) \<longrightarrow> n_run nd' \<and>
         (case y of (m, x) \<Rightarrow> \<exists>v. stored_on d path = Some (x, v) \<and> getUint32 m FILE_VERSION 0 = u32_of_int v)) \<and>
      (healthy nd \<and> stored_on d path \<noteq> None \<longrightarrow> (case y of (m, x) \<Rightarrow> isAck m) \<and> healthy nd')"
  proof (rule node_call_law [OF assms(1,2) ends up])
    fix k j r S' d' D'
    assume rest: "at_rest S (nextSendSeq D) (nextSendSeq S)" "at_rest D (nextSendSeq S) (nextSendSeq D)"
      and ex: "exchange k j ?req ?fn (S, d, D) = (r, S', d', D')"
    show "\<exists>y. r = Inr y \<and> (alive S' \<longrightarrow> reorderBuffer S' = []) \<and>
        ((case y of (m, x) \<Rightarrow> isAck m) \<longrightarrow>
          (case y of (m, x) \<Rightarrow> \<exists>v. stored_on d path = Some (x, v) \<and> getUint32 m FILE_VERSION 0 = u32_of_int v) \<and>
          (\<exists>n' s'. at_rest S' n' s' \<and> at_rest D' s' n')) \<and>
        (length ?req \<le> k \<and> answer_length d D ?req \<le> j \<longrightarrow> (stored_on d path \<noteq> None \<longrightarrow> (case y of (m, x) \<Rightarrow> isAck m)) \<and>
          ((case y of (m, x) \<Rightarrow> isAck m) \<or> poisoned S' D' \<or> \<not> alive S'))"
    proof (cases "readDisk d (resolvePath (root d) path)")
      case None
      from read_missing_exchange [OF rest assms(4) None ex] refusal_tail [of False "nextSendSeq D + 1"] show ?thesis
        unfolding read_answer(2) [OF rest(2) assms(4) None]
        by (auto simp: stored_on_def None poisoned_def idle_def at_rest_def)
    next
      case (Some content)
      from read_exchange [OF rest assms(4) Some small [OF Some] ex] obtain m x where
        m: "r = Inr (m, x)" "alive S' \<longrightarrow> reorderBuffer S' = []"
        "isAck m \<longrightarrow> m = ackVersionMsg True (getFileVersion d path) (nextSendSeq D + 1) \<and> x = content \<and>
           at_rest S' (nextSendSeq D + 2) (nextSendSeq S + 1) \<and> at_rest D' (nextSendSeq S + 1) (nextSendSeq D + 2)"
        "length ?req \<le> k \<and> length (readBytesOnWire content (getFileVersion d path) (nextSendSeq D)) \<le> j \<longrightarrow> isAck m"
        by blast
      have "isAck m \<Longrightarrow> getUint32 m FILE_VERSION 0 = u32_of_int (getFileVersion d path)"
        using m(3) by simp
      with m read_answer(1) [OF rest(2) assms(4) Some small [OF Some]] show ?thesis
        by (auto simp: stored_on_def Some)
    qed
  next
    fix n k assume "at_rest D (nextSendSeq S) n"
    then show "fst (snd (datanodeStep d (receiving D (take k ?req)))) = d"
      by (rule serve_read_disk [OF ok(2) path assms(4)])
  next
    assume "at_rest D (nextSendSeq S) (nextSendSeq D)" "stored_on d path \<noteq> None"
    with read_answer(1) [OF this(1) assms(4)] small show "\<not> isl (fst (datanodeStep d (receiving D ?req)))"
      by (auto simp: stored_on_def)
  qed (use ok in simp_all)
  then show ?thesis
    by (auto simp: node_readFile_def ends)
qed

lemma serve_single:
  assumes "at_rest D s n" and "wf_msg m" and "seq m = s"
    and "\<And>D1. at_rest D1 (s + 1) n \<Longrightarrow> \<exists>D2. snd (datanodeHandler 0 d D1 m) = (Inr (), d2, D2) \<and> sends D1 1 (wireMsg ans) D2"
  shows "fst (snd (datanodeStep d (receiving D (take k (wireMsg m))))) \<in> {d, d2}"
    and "answer_length d D (wireMsg m) = length (wireMsg ans)" "\<not> isl (fst (datanodeStep d (receiving D (wireMsg m))))"
proof -
  have step: "\<exists>D'. datanodeStep d (receiving D (take k (wireMsg m))) = (Inr (), if length (wireMsg m) \<le> k then d2 else d, D') \<and>
      (length (wireMsg m) \<le> k \<longrightarrow> tx (chan D') = tx (chan D) @ wireMsg ans)" for k
  proof -
    obtain D1 where "datanodeStep d (receiving D (take k (wireMsg m))) =
        (if k < length (wireMsg m) then (Inr (), d, D1) else snd (datanodeHandler 0 d D1 m))"
        "tx (chan D1) = tx (chan D)" "k < length (wireMsg m) \<or> at_rest D1 (s + 1) n"
      using serve_message [OF assms(1-3), of d k] by auto
    with assms(4) [of D1] show ?thesis
      using sends_simps(4) by auto
  qed
  from step [of k] show "fst (snd (datanodeStep d (receiving D (take k (wireMsg m))))) \<in> {d, d2}"
    by auto
  from step [of "length (wireMsg m)"]
  show "answer_length d D (wireMsg m) = length (wireMsg ans)" "\<not> isl (fst (datanodeStep d (receiving D (wireMsg m))))"
    by (auto simp: answer_length_def)
qed

lemma delete_served:
  "at_rest D1 t n \<Longrightarrow>
   \<exists>D2. snd (datanodeHandler 0 d D1 (pathMsg DELETE_FILE path s)) = (Inr (), snd (deleteFileAndVersion d path), D2) \<and>
     sends D1 1 (wireMsg (ackMsg True n)) D2"
  by (rule ack_served) (simp_all add: datanodeHandler_def responseDispatcher_def requestDispatcher_def)

lemma delete_keeps:
  assumes "storage_ok d" and "small_files d" and "user_path d path"
  shows "disk_keeps path d (snd (deleteFileAndVersion d path)) \<and> stored_on (snd (deleteFileAndVersion d path)) path = None"
proof (cases "readDisk d (resolvePath (root d) path)")
  case None
  let ?d = "snd (removeDisk d (resolvePath (root d) path))"
  have del: "snd (deleteFileAndVersion d path) = ?d" and read: "readDisk ?d = readDisk d" and root: "root ?d = root d"
    using None assms(1) by (auto simp: deleteFileAndVersion_def deleteFile_def removeDisk_def readDisk_def om_has_def
        storage_ok_def disk_ok_def fun_eq_iff Let_def split: prod.splits)
  have "getFileVersion ?d = getFileVersion d"
    by (intro ext) (simp add: getFileVersion_def versionLines_def read root)
  then have "disk_keeps path d ?d"
    using storage_ok_delete [OF assms(1,3)] assms(2) deleteFileAndVersion_place [of d path] None
    by (intro disk_keepsI) (simp_all add: del read)
  then show ?thesis
    by (simp add: del stored_on_def read root None)
next
  case (Some c)
  obtain ok' d' where del: "deleteFileAndVersion d path = (ok', d')"
    by (cases "deleteFileAndVersion d path")
  have d: "disk_ok d" "version_disk_ok d" "resolvePath (root d) path \<noteq> versionFilePath (root d)"
    using assms by (simp_all add: storage_ok_def user_path_def)
  note law = deleteFileAndVersion_law [OF d Some del]
  have place: "same_place d d'"
    using deleteFileAndVersion_place [of d path] del by simp
  have "disk_keeps path d d'"
    using storage_ok_delete [OF assms(1,3)] assms(2) place law d(3) by (intro disk_keepsI) (simp_all add: del)
  with law(3) [OF d(3)] place show ?thesis
    by (simp add: del stored_on_def same_place_def)
qed

lemma node_deleteFile_law:
  assumes "node_ok nd" and "n_run nd" and "user_path (node_disk nd) path" and "length path \<le> 65535"
  shows "\<exists>m nd'. node_deleteFile path nd = (Returned m, nd') \<and> node_keeps path nd nd' \<and>
    (isAck m \<longrightarrow> n_run nd' \<and> stored nd' path = None) \<and> (healthy nd \<longrightarrow> isAck m \<and> healthy nd')"
proof -
  obtain S d D where ends: "n_ends nd = (S, d, D)"
    by (cases "n_ends nd")
  let ?m = "pathMsg DELETE_FILE path (nextSendSeq S)" and ?fn = "\<lambda>p. proto_deleteFile p path"
  have ok: "storage_ok d" "small_files d" and path: "user_path d path"
    using node_ok_disk [OF assms(1)] assms(3) ends by simp_all
  note keeps = delete_keeps [OF ok path]
  have up: "gives_up ?fn (\<lambda>m. \<not> isAck m)"
    using gives_up_delete [OF assms(4)] by (fastforce simp: gives_up_def)
  have m: "wf_msg ?m" "seq ?m = nextSendSeq S"
    using assms(4) by simp_all
  have srv: "fst (snd (datanodeStep d (receiving D (take k (wireMsg ?m))))) \<in> {d, snd (deleteFileAndVersion d path)}"
      "answer_length d D (wireMsg ?m) = length (wireMsg (ackMsg True n))" "\<not> isl (fst (datanodeStep d (receiving D (wireMsg ?m))))"
    if "at_rest D (nextSendSeq S) n" for n k
    using serve_single [OF that m, of d "snd (deleteFileAndVersion d path)" "ackMsg True n"] delete_served by blast+
  have "\<exists>m nd'. node_call (wireMsg ?m) ?fn nd = (Returned m, nd') \<and>
      node_ok nd' \<and> n_name nd' = n_name nd \<and> disk_keeps path d (node_disk nd') \<and>
      (isAck m \<longrightarrow> n_run nd' \<and> stored_on (node_disk nd') path = None) \<and> (healthy nd \<and> True \<longrightarrow> isAck m \<and> healthy nd')"
  proof (rule node_call_law [OF assms(1,2) ends up])
    fix k j r S' d' D'
    assume rest: "at_rest S (nextSendSeq D) (nextSendSeq S)" "at_rest D (nextSendSeq S) (nextSendSeq D)"
      and ex: "exchange k j (wireMsg ?m) ?fn (S, d, D) = (r, S', d', D')"
    from delete_exchange [OF rest assms(4) ex] keeps
    show "\<exists>m. r = Inr m \<and> (alive S' \<longrightarrow> reorderBuffer S' = []) \<and>
        (isAck m \<longrightarrow> stored_on d' path = None \<and> (\<exists>n' s'. at_rest S' n' s' \<and> at_rest D' s' n')) \<and>
        (length (wireMsg ?m) \<le> k \<and> answer_length d D (wireMsg ?m) \<le> j \<longrightarrow> (True \<longrightarrow> isAck m) \<and> (isAck m \<or> poisoned S' D' \<or> \<not> alive S'))"
      unfolding srv(2) [OF rest(2)] by (auto simp: at_rest_reorder split: if_splits)
  next
    fix n k assume "at_rest D (nextSendSeq S) n"
    from srv(1) [OF this, of k] keeps disk_keeps_refl [OF ok, of path]
    show "disk_keeps path d (fst (snd (datanodeStep d (receiving D (take k (wireMsg ?m))))))"
      by auto
  qed (use srv(3) disk_keeps_refl [OF ok] in \<open>auto simp: disk_keeps_def\<close>)
  then show ?thesis
    by (simp add: node_deleteFile_def node_keeps_def ends)
qed

lemma plain_ok: "wf_opcode op \<Longrightarrow> wf_msg (plainMsg op s)" "seq (plainMsg op s) = s"
  by (simp_all add: plainMsg_def wf_msg_def)

lemma node_heartbeat_law:
  assumes "node_ok nd" and "n_run nd"
  shows "\<exists>m nd'. node_heartbeat nd = (Returned m, nd') \<and> node_ok nd' \<and> n_name nd' = n_name nd \<and> node_disk nd' = node_disk nd \<and>
    (isAck m \<longrightarrow> n_run nd') \<and> (healthy nd \<longrightarrow> isAck m \<and> healthy nd')"
proof -
  obtain S d D where ends: "n_ends nd = (S, d, D)"
    by (cases "n_ends nd")
  let ?m = "plainMsg HEARTBEAT (nextSendSeq S)"
  have ok: "storage_ok d" "small_files d"
    using node_ok_disk [OF assms(1)] ends by simp_all
  have up: "gives_up proto_heartbeat (\<lambda>m. \<not> isAck m)"
    using gives_up_heartbeat by (fastforce simp: gives_up_def)
  have reply: "\<exists>D2. snd (datanodeHandler 0 d D1 ?m) = (Inr (), d, D2) \<and> sends D1 1 (wireMsg (ackMsg True n)) D2"
    if "at_rest D1 (nextSendSeq S + 1) n" for D1 n
    using that by (rule ack_served) (simp add: plainMsg_def datanodeHandler_def responseDispatcher_def requestDispatcher_def)
  have srv: "fst (snd (datanodeStep d (receiving D (take k (wireMsg ?m))))) \<in> {d, d}"
      "answer_length d D (wireMsg ?m) = length (wireMsg (ackMsg True n))" "\<not> isl (fst (datanodeStep d (receiving D (wireMsg ?m))))"
    if "at_rest D (nextSendSeq S) n" for n k
    using serve_single [OF that, of ?m d d "ackMsg True n"] reply plain_ok [of HEARTBEAT] by auto
  have "\<exists>m nd'. node_call (wireMsg ?m) proto_heartbeat nd = (Returned m, nd') \<and>
      node_ok nd' \<and> n_name nd' = n_name nd \<and> node_disk nd' = d \<and>
      (isAck m \<longrightarrow> n_run nd' \<and> True) \<and> (healthy nd \<and> True \<longrightarrow> isAck m \<and> healthy nd')"
  proof (rule node_call_law [OF assms ends up])
    fix k j r S' d' D'
    assume rest: "at_rest S (nextSendSeq D) (nextSendSeq S)" "at_rest D (nextSendSeq S) (nextSendSeq D)"
      and ex: "exchange k j (wireMsg ?m) proto_heartbeat (S, d, D) = (r, S', d', D')"
    from heartbeat_exchange [OF rest ex]
    show "\<exists>m. r = Inr m \<and> (alive S' \<longrightarrow> reorderBuffer S' = []) \<and>
        (isAck m \<longrightarrow> True \<and> (\<exists>n' s'. at_rest S' n' s' \<and> at_rest D' s' n')) \<and>
        (length (wireMsg ?m) \<le> k \<and> answer_length d D (wireMsg ?m) \<le> j \<longrightarrow> (True \<longrightarrow> isAck m) \<and> (isAck m \<or> poisoned S' D' \<or> \<not> alive S'))"
      unfolding srv(2) [OF rest(2)] by (auto simp: at_rest_reorder split: if_splits)
  qed (use srv(1,3) ok in auto)
  then show ?thesis
    by (simp add: node_heartbeat_def ends)
qed

lemma serve_sync_unfit:
  assumes "at_rest D s n" and "\<not> listing_fits d"
  shows "\<exists>res D'. datanodeStep d (receiving D (take k (wireMsg (plainMsg SYNC_STATUS s)))) = (res, d, D') \<and> tx (chan D') = tx (chan D)"
proof -
  let ?fs = "versionMapFields (getFileVersionMapDisk d)"
  have entry: "e \<in> set m \<Longrightarrow> fieldString FILE_ENTRY (fst e) \<in> set (versionMapFields m)" for e m
    by (induction m) (auto simp: versionMapFields_def)
  have "length (fst e) \<le> 65535" if "e \<in> set (getFileVersionMapDisk d)" "\<forall>f\<in>set ?fs. length (fvalue f) \<le> 65535" for e
    using bspec [OF that(2) entry [OF that(1)]] by (simp add: fieldString_def)
  moreover have "2 * l \<le> 255 \<Longrightarrow> l \<le> 127" for l :: nat
    by simp
  ultimately have "\<not> (length ?fs \<le> 255 \<and> (\<forall>f\<in>set ?fs. length (fvalue f) \<le> 65535))"
    using assms(2) unfolding listing_fits_def length_versionMapFields by blast
  then obtain e where "responseFileVersionMap (getFileVersionMapDisk d) = Inl e"
    unfolding buildFrame_Inr_iff [of RESPONSE FLAG_RESPONSE ?fs 0, symmetric] responseFileVersionMap_def by (metis sum.exhaust)
  then have refuse: "snd (datanodeHandler 0 d D1 (plainMsg SYNC_STATUS s)) = (Inl e, d, D1)" for D1
    by (simp add: plainMsg_def datanodeHandler_def responseDispatcher_def requestDispatcher_def responseVersionMap_def
        sendBuilt_def sentDone_def)
  from serve_message [OF assms(1) plain_ok, of SYNC_STATUS d k] refuse show ?thesis
    by (auto split: if_splits)
qed

lemma sync_unfit_exchange:
  assumes "at_rest S n s" and "at_rest D s n" and "\<not> listing_fits d"
    and "exchange k j (wireMsg (plainMsg SYNC_STATUS s)) syncStatus (S, d, D) = (r, S', d', D')"
  shows "r = Inr makeNack \<and> \<not> alive S'"
proof -
  obtain res D1 where "datanodeStep d (receiving D (take k (wireMsg (plainMsg SYNC_STATUS s)))) = (res, d, D1)" "tx (chan D1) = tx (chan D)"
    using serve_sync_unfit [OF assms(2,3), of k] by blast
  with assms(4) have "syncStatus (receiving S []) = (r, S')"
    by (auto simp: exchange_def split: prod.splits)
  moreover have "bad_stream (receiving S [])"
    using assms(1) by (intro starved_bad) (simp_all add: at_rest_def idle_def)
  ultimately show ?thesis
    using gives_up_sync unfolding gives_up_def by (metis Pair_inject)
qed

lemma node_syncStatus_law:
  assumes "node_ok nd" and "n_run nd"
  shows "\<exists>m nd'. node_syncStatus nd = (Returned m, nd') \<and> node_ok nd' \<and> n_name nd' = n_name nd \<and> node_disk nd' = node_disk nd \<and>
    (if m \<noteq> makeNack then n_run nd' \<and> isResponse m \<and> getFileVersionMap m = getFileVersionMapDisk (node_disk nd) else getFileVersionMap m = []) \<and>
    (healthy nd \<and> listing_fits (node_disk nd) \<longrightarrow> m \<noteq> makeNack \<and> healthy nd')"
proof -
  obtain S d D where ends: "n_ends nd = (S, d, D)"
    by (cases "n_ends nd")
  let ?m = "plainMsg SYNC_STATUS (nextSendSeq S)" and ?ans = "\<lambda>n. mapMsg (getFileVersionMapDisk d) n"
  have ok: "storage_ok d" "small_files d"
    using node_ok_disk [OF assms(1)] ends by simp_all
  have up: "gives_up syncStatus (\<lambda>m. \<not> m \<noteq> makeNack)"
    using gives_up_sync by simp
  have reply: "\<exists>D2. snd (datanodeHandler 0 d D1 ?m) = (Inr (), d, D2) \<and> sends D1 1 (wireMsg (?ans n)) D2"
    if "listing_fits d" "at_rest D1 (nextSendSeq S + 1) n" for D1 n
    using that sync_served by (simp add: plainMsg_def)
  have srv: "fst (snd (datanodeStep d (receiving D (take k (wireMsg ?m))))) \<in> {d, d}"
      "answer_length d D (wireMsg ?m) = length (wireMsg (?ans n))" "\<not> isl (fst (datanodeStep d (receiving D (wireMsg ?m))))"
    if "listing_fits d" "at_rest D (nextSendSeq S) n" for n k
    using serve_single [OF that(2), of ?m d d "?ans n"] reply [OF that(1)] plain_ok [of SYNC_STATUS] by auto
  have "\<exists>m nd'. node_call (wireMsg ?m) syncStatus nd = (Returned m, nd') \<and>
      node_ok nd' \<and> n_name nd' = n_name nd \<and> node_disk nd' = d \<and>
      (m \<noteq> makeNack \<longrightarrow> n_run nd' \<and> isResponse m \<and> getFileVersionMap m = getFileVersionMapDisk d) \<and>
      (healthy nd \<and> listing_fits d \<longrightarrow> m \<noteq> makeNack \<and> healthy nd')"
  proof (rule node_call_law [OF assms ends up])
    fix k j r S' d' D'
    assume rest: "at_rest S (nextSendSeq D) (nextSendSeq S)" "at_rest D (nextSendSeq S) (nextSendSeq D)"
      and ex: "exchange k j (wireMsg ?m) syncStatus (S, d, D) = (r, S', d', D')"
    show "\<exists>m. r = Inr m \<and> (alive S' \<longrightarrow> reorderBuffer S' = []) \<and>
        (m \<noteq> makeNack \<longrightarrow> (isResponse m \<and> getFileVersionMap m = getFileVersionMapDisk d) \<and> (\<exists>n' s'. at_rest S' n' s' \<and> at_rest D' s' n')) \<and>
        (length (wireMsg ?m) \<le> k \<and> answer_length d D (wireMsg ?m) \<le> j \<longrightarrow>
          (listing_fits d \<longrightarrow> m \<noteq> makeNack) \<and> (m \<noteq> makeNack \<or> poisoned S' D' \<or> \<not> alive S'))"
    proof (cases "listing_fits d")
      case True
      have "?ans q \<noteq> makeNack" for q
        using mapMsg_not_nack .
      with sync_exchange [OF rest True ex] mapMsg_answer [OF True] srv(2) [OF True rest(2)] show ?thesis
        by (auto simp: at_rest_reorder split: if_splits)
    next
      case False
      with sync_unfit_exchange [OF rest False ex] show ?thesis
        by auto
    qed
  next
    fix n k assume "at_rest D (nextSendSeq S) n"
    then show "fst (snd (datanodeStep d (receiving D (take k (wireMsg ?m))))) = d"
      using srv(1) [of n k] serve_sync_unfit [of D "nextSendSeq S" n d k] by (cases "listing_fits d") auto
  qed (use srv(3) ok in auto)
  moreover have "getFileVersionMap makeNack = []"
    by (simp add: getFileVersionMap_def fieldBool_def)
  ultimately show ?thesis
    by (auto simp: node_syncStatus_def ends)
qed

end
