(* ===== verification/State_Manager.thy ===== *)
theory State_Manager
  imports File_Manager
begin

text \<open>
  The durable state of a server: \<open>server/src/state_manager.hpp\<close> keeps the version map and the
  replication map, \<open>common/src/filesystem/epoch_store.hpp\<close> the leadership epoch, each in a text file
  below the storage root that is replaced by writing a temporary file and renaming it. The model
  has the parser and the printer of every file, and the disks a crash in the middle of a write can
  leave behind.
\<close>

section \<open>Replacing a file\<close>

definition tmpPath :: "string \<Rightarrow> string" where
  "tmpPath dst = dst @ ''.tmp''"

definition renameDisk :: "disk \<Rightarrow> string \<Rightarrow> string \<Rightarrow> disk" where
  "renameDisk d src dst =
     (case readDisk d src of None \<Rightarrow> d | Some content \<Rightarrow> d\<lparr>files := om_put dst content (om_erase src (files d))\<rparr>)"

definition atomicWrite :: "disk \<Rightarrow> string \<Rightarrow> bytes \<Rightarrow> disk" where
  \<comment> \<open>a temporary file that cannot be opened ends the call; a rename that is refused removes it\<close>
  "atomicWrite d dst content =
     (let tmp = tmpPath dst
      in if tmp \<in> set (unopenable d) then d
         else let d1 = writeDisk d tmp content
              in if dst \<in> set (unopenable d) then snd (removeDisk d1 tmp) else renameDisk d1 tmp dst)"

definition atomicWriteStates :: "disk \<Rightarrow> string \<Rightarrow> bytes \<Rightarrow> disk list" where
  \<comment> \<open>the disks a crash during \<open>atomicWrite\<close> can leave: nothing done yet, any part of the temporary file
     written, everything done\<close>
  "atomicWriteStates d dst content =
     d # map (\<lambda>k. writeDisk d (tmpPath dst) (take k content)) [0..<Suc (length content)] @ [atomicWrite d dst content]"

definition replaceable :: "disk \<Rightarrow> string \<Rightarrow> bool" where
  "replaceable d dst \<longleftrightarrow> disk_ok d \<and> dst \<notin> set (unopenable d) \<and> tmpPath dst \<notin> set (unopenable d)"

lemma tmpPath_neq [simp]: "tmpPath p \<noteq> p" "p \<noteq> tmpPath p"
  by (auto simp: tmpPath_def)

lemma atomicWrite_simps [simp]:
  "root (atomicWrite d dst c) = root d" "unopenable (atomicWrite d dst c) = unopenable d"
  by (simp_all add: atomicWrite_def Let_def renameDisk_def removeDisk_def split: option.splits)

lemma disk_ok_atomicWrite [simp]: "disk_ok d \<Longrightarrow> disk_ok (atomicWrite d dst c)"
  by (auto simp: atomicWrite_def Let_def renameDisk_def removeDisk_def disk_ok_def writeDisk_def split: option.splits)

lemma readDisk_atomicWrite:
  assumes "replaceable d dst" and "q \<noteq> tmpPath dst"
  shows "readDisk (atomicWrite d dst c) q = (if q = dst then Some c else readDisk d q)"
  using assms
  by (auto simp: replaceable_def atomicWrite_def Let_def renameDisk_def readDisk_def writeDisk_def disk_ok_def)

lemma replaceable_atomicWrite [simp]: "replaceable d p \<Longrightarrow> replaceable (atomicWrite d q c) p"
  by (simp add: replaceable_def)

lemma crash_states:
  assumes "replaceable d dst" and "d' \<in> set (atomicWriteStates d dst c)" and "q \<noteq> tmpPath dst"
  shows "readDisk d' q = readDisk d q \<or> readDisk d' q = readDisk (atomicWrite d dst c) q"
  using assms by (auto simp: atomicWriteStates_def readDisk_writeDisk)

lemma partial_write_state:
  "k \<le> length c \<Longrightarrow> writeDisk d (tmpPath dst) (take k c) \<in> set (atomicWriteStates d dst c)"
  unfolding atomicWriteStates_def by (auto simp del: upt_Suc intro!: image_eqI [of _ _ k])

lemma crash_root: "d' \<in> set (atomicWriteStates d dst c) \<Longrightarrow> root d' = root d"
  by (auto simp: atomicWriteStates_def)

lemma crash_other:
  assumes "replaceable d dst" and "d' \<in> set (atomicWriteStates d dst c)" and "q \<noteq> tmpPath dst" and "q \<noteq> dst"
  shows "readDisk d' q = readDisk d q"
  using crash_states [OF assms(1-3)] readDisk_atomicWrite [OF assms(1,3), of c] assms(4) by auto

section \<open>The version map\<close>

definition versionPath :: "disk \<Rightarrow> string" where
  "versionPath d = path_append (path_append (root d) ''.squid'') ''fileVersions.txt''"

definition replicationPath :: "disk \<Rightarrow> string" where
  "replicationPath d = path_append (path_append (root d) ''.squid'') ''replicationMap.txt''"

definition fileLines :: "disk \<Rightarrow> string \<Rightarrow> string list" where
  \<comment> \<open>the lines of a file that can be opened\<close>
  "fileLines d p = (case readDisk d p of None \<Rightarrow> [] | Some content \<Rightarrow> getlines (string_of_bytes content))"

definition splitEntry :: "string \<Rightarrow> (string \<times> string) option" where
  \<comment> \<open>comments and lines without a space are skipped, the others are cut at their last space\<close>
  "splitEntry line =
     (if line = [] \<or> hd line = CHR ''#'' then None
      else case rfind_char (CHR '' '') line of
             None \<Rightarrow> None | Some sp \<Rightarrow> Some (take sp line, drop (Suc sp) line))"

definition versionEntry :: "string \<Rightarrow> (string \<times> int) option" where
  "versionEntry line =
     (case splitEntry line of None \<Rightarrow> None
      | Some (path, s) \<Rightarrow> (case stoi s of None \<Rightarrow> None | Some version \<Rightarrow> Some (path, version)))"

definition loadEntries :: "(string \<Rightarrow> (string \<times> 'v) option) \<Rightarrow> string list \<Rightarrow> (string, 'v) omap" where
  "loadEntries parse ls = fold (\<lambda>line m. case parse line of None \<Rightarrow> m | Some (p, v) \<Rightarrow> om_put p v m) ls []"

definition loadVersionMap :: "disk \<Rightarrow> (string, int) omap" where
  "loadVersionMap d = loadEntries versionEntry (fileLines d (versionPath d))"

definition showVersion :: "string \<times> int \<Rightarrow> string" where
  "showVersion = (\<lambda>(path, ver). path @ '' '' @ show_int ver)"

definition saveVersionMap :: "disk \<Rightarrow> (string, int) omap \<Rightarrow> disk" where
  "saveVersionMap d versionMap = atomicWrite d (versionPath d) (bytes_of_string (unlines (map showVersion versionMap)))"

section \<open>The replication map\<close>

definition parseNodes :: "string \<Rightarrow> string oset" where
  \<comment> \<open>the comma-separated names; empty ones are dropped\<close>
  "parseNodes nodeList = os_of_list (filter (\<lambda>tok. tok \<noteq> []) (split_on (CHR '','') nodeList))"

definition replicationEntry :: "string \<Rightarrow> (string \<times> string oset) option" where
  "replicationEntry line = map_option (\<lambda>(path, nodeList). (path, parseNodes nodeList)) (splitEntry line)"

definition loadReplicationMap :: "disk \<Rightarrow> (string, string oset) omap" where
  "loadReplicationMap d = loadEntries replicationEntry (fileLines d (replicationPath d))"

definition showReplicas :: "string \<times> string oset \<Rightarrow> string" where
  "showReplicas = (\<lambda>(path, nodes). path @ '' '' @ join_with (CHR '','') nodes)"

definition saveReplicationMap :: "disk \<Rightarrow> (string, string oset) omap \<Rightarrow> disk" where
  "saveReplicationMap d repMap =
     atomicWrite d (replicationPath d) (bytes_of_string (unlines (map showReplicas repMap)))"

section \<open>The epoch\<close>

definition epochPath :: "disk \<Rightarrow> string" where
  "epochPath d = path_append (path_append (root d) ''.squid'') ''epoch.txt''"

definition read_u32 :: "string \<Rightarrow> u32" where
  \<comment> \<open>the value left by \<open>stream >> uint32_t\<close>: zero without digits, the largest value on overflow\<close>
  "read_u32 s =
     (let (neg, s') = read_sign (skip_ws s); n = digits_val (takeWhile is_digit s')
      in if takeWhile is_digit s' = [] then 0 else if n \<ge> 2 ^ 32 then - 1
         else if neg then - of_nat n else of_nat n)"

definition loadEpoch :: "disk \<Rightarrow> u32" where
  "loadEpoch d = (case readDisk d (epochPath d) of None \<Rightarrow> 0 | Some content \<Rightarrow> read_u32 (string_of_bytes content))"

definition epochText :: "u32 \<Rightarrow> bytes" where
  "epochText epoch = bytes_of_string (show_nat (unat epoch) @ endl)"

definition saveEpoch :: "disk \<Rightarrow> u32 \<Rightarrow> disk" where
  "saveEpoch d epoch = atomicWrite d (epochPath d) (epochText epoch)"

section \<open>Reading back what was written\<close>

lemma loadEntries_shown:
  assumes "om_ok m" and "\<forall>e\<in>set m. parse (enc e) = Some e"
  shows "loadEntries parse (map enc m) = m"
proof -
  have "fold (\<lambda>line m. case parse line of None \<Rightarrow> m | Some (p, v) \<Rightarrow> om_put p v m) (map enc xs) m0 =
      fold (\<lambda>(k, v). om_put k v) xs m0" if "\<forall>e\<in>set xs. parse (enc e) = Some e" for xs m0
    using that by (induction xs arbitrary: m0) auto
  with assms om_rebuild [OF assms(1)] show ?thesis
    by (simp add: loadEntries_def)
qed

lemma splitEntry_shown:
  assumes "\<not> starts_with (\<lambda>c. c = CHR ''#'') p" and "CHR '' '' \<notin> set s"
  shows "splitEntry (p @ CHR '' '' # s) = Some (p, s)"
  using assms rfind_char_app [of "CHR '' ''" s p] by (cases p) (simp_all add: splitEntry_def)

definition entry_path :: "string \<Rightarrow> bool" where
  \<comment> \<open>a path the state files can hold: one line that is not a comment\<close>
  "entry_path p \<longleftrightarrow> CHR 0x0A \<notin> set p \<and> \<not> starts_with (\<lambda>c. c = CHR ''#'') p"

definition node_name :: "string \<Rightarrow> bool" where
  "node_name n \<longleftrightarrow> n \<noteq> [] \<and> CHR 0x0A \<notin> set n \<and> CHR '' '' \<notin> set n \<and> CHR '','' \<notin> set n"

lemma show_int_no_blank: "CHR '' '' \<notin> set (show_int v)"
  using show_int_not_space [of "CHR '' ''" v] space_is_space by blast

lemma versionEntry_shown:
  assumes "entry_path p" and "int_range v"
  shows "versionEntry (showVersion (p, v)) = Some (p, v)"
  using assms splitEntry_shown [of p "show_int v"] show_int_no_blank
  by (simp add: versionEntry_def showVersion_def entry_path_def)

lemma join_nodes:
  assumes "\<forall>n\<in>set ns. node_name n"
  shows "CHR 0x0A \<notin> set (join_with (CHR '','') ns)" and "CHR '' '' \<notin> set (join_with (CHR '','') ns)"
  using assms set_join_with [of "CHR '',''" ns] by (auto simp: node_name_def)

lemma parseNodes_shown:
  assumes "os_ok ns" and "\<forall>n\<in>set ns. node_name n"
  shows "parseNodes (join_with (CHR '','') ns) = ns"
proof (cases "ns = []")
  case True
  then show ?thesis
    by (simp add: parseNodes_def os_of_list_def)
next
  case False
  with assms(2) have "split_on (CHR '','') (join_with (CHR '','') ns) = ns"
    by (intro split_on_join) (auto simp: node_name_def)
  moreover have "filter (\<lambda>tok. tok \<noteq> []) ns = ns"
    using assms(2) by (intro filter_True) (auto simp: node_name_def)
  ultimately show ?thesis
    using os_of_list_id [OF assms(1)] by (simp add: parseNodes_def)
qed

lemma replicationEntry_shown:
  assumes "entry_path p" and "os_ok ns" and "\<forall>n\<in>set ns. node_name n"
  shows "replicationEntry (showReplicas (p, ns)) = Some (p, ns)"
  using assms splitEntry_shown [of p "join_with (CHR '','') ns"] join_nodes [OF assms(3)] parseNodes_shown
  by (simp add: replicationEntry_def showReplicas_def entry_path_def)

lemma path_append_inject [simp]: "path_append a x = path_append a y \<longleftrightarrow> x = y"
  by (simp add: path_append_def)

lemma tmpPath_path_append: "tmpPath (path_append a x) = path_append a (x @ ''.tmp'')"
  by (simp add: tmpPath_def path_append_def)

lemma state_paths [simp]:
  "versionPath d \<noteq> replicationPath d" "replicationPath d \<noteq> versionPath d"
  "versionPath d \<noteq> tmpPath (replicationPath d)" "replicationPath d \<noteq> tmpPath (versionPath d)"
  "tmpPath (versionPath d) \<noteq> tmpPath (replicationPath d)"
  by (simp_all add: versionPath_def replicationPath_def tmpPath_path_append)

lemma state_paths_root:
  "root d' = root d \<Longrightarrow> versionPath d' = versionPath d \<and> replicationPath d' = replicationPath d \<and> epochPath d' = epochPath d"
  by (simp add: versionPath_def replicationPath_def epochPath_def)

lemma fileLines_written:
  assumes "readDisk d p = Some (bytes_of_string (unlines ls))" and "\<forall>l\<in>set ls. CHR 0x0A \<notin> set l"
  shows "fileLines d p = ls"
  using assms by (simp add: fileLines_def getlines_unlines)

definition versions_ok :: "(string, int) omap \<Rightarrow> bool" where
  "versions_ok m \<longleftrightarrow> om_ok m \<and> (\<forall>(p, v)\<in>set m. entry_path p \<and> int_range v)"

definition replicas_ok :: "(string, string oset) omap \<Rightarrow> bool" where
  "replicas_ok m \<longleftrightarrow> om_ok m \<and> (\<forall>(p, ns)\<in>set m. entry_path p \<and> os_ok ns \<and> (\<forall>n\<in>set ns. node_name n))"

lemma loadVersionMap_written:
  assumes "readDisk d (versionPath d) = Some (bytes_of_string (unlines (map showVersion m)))" and "versions_ok m"
  shows "loadVersionMap d = m"
proof -
  have "\<forall>l\<in>set (map showVersion m). CHR 0x0A \<notin> set l"
    using assms(2) show_int_no_newline by (auto simp: versions_ok_def showVersion_def entry_path_def)
  from fileLines_written [OF assms(1) this] assms(2) show ?thesis
    by (auto simp: loadVersionMap_def versions_ok_def versionEntry_shown intro!: loadEntries_shown)
qed

lemma loadReplicationMap_written:
  assumes "readDisk d (replicationPath d) = Some (bytes_of_string (unlines (map showReplicas m)))" and "replicas_ok m"
  shows "loadReplicationMap d = m"
proof -
  have "\<forall>l\<in>set (map showReplicas m). CHR 0x0A \<notin> set l"
    using assms(2) join_nodes(1) by (fastforce simp: replicas_ok_def showReplicas_def entry_path_def)
  from fileLines_written [OF assms(1) this] assms(2) show ?thesis
    by (auto simp: loadReplicationMap_def replicas_ok_def replicationEntry_shown intro!: loadEntries_shown)
qed

lemma load_same_files:
  "readDisk d' (versionPath d) = readDisk d (versionPath d) \<Longrightarrow> root d' = root d \<Longrightarrow> loadVersionMap d' = loadVersionMap d"
  "readDisk d' (replicationPath d) = readDisk d (replicationPath d) \<Longrightarrow> root d' = root d \<Longrightarrow>
     loadReplicationMap d' = loadReplicationMap d"
  using state_paths_root [of d' d] by (simp_all add: loadVersionMap_def loadReplicationMap_def fileLines_def)

section \<open>Saving both maps\<close>

definition saveMaps :: "disk \<Rightarrow> (string, int) omap \<Rightarrow> (string, string oset) omap \<Rightarrow> disk" where
  "saveMaps d versionMap repMap = saveReplicationMap (saveVersionMap d versionMap) repMap"

definition saveMapsStates :: "disk \<Rightarrow> (string, int) omap \<Rightarrow> (string, string oset) omap \<Rightarrow> disk list" where
  \<comment> \<open>the disks a crash while saving both maps can leave\<close>
  "saveMapsStates d vm rm =
     (let d1 = saveVersionMap d vm
      in atomicWriteStates d (versionPath d) (bytes_of_string (unlines (map showVersion vm))) @
         atomicWriteStates d1 (replicationPath d1) (bytes_of_string (unlines (map showReplicas rm))))"

definition state_writable :: "disk \<Rightarrow> bool" where
  "state_writable d \<longleftrightarrow> replaceable d (versionPath d) \<and> replaceable d (replicationPath d)"

lemma load_saveVersionMap:
  assumes "state_writable d" and "versions_ok vm"
  shows "loadVersionMap (saveVersionMap d vm) = vm"
    and "loadReplicationMap (saveVersionMap d vm) = loadReplicationMap d"
    and "root (saveVersionMap d vm) = root d" and "state_writable (saveVersionMap d vm)"
proof -
  let ?d = "saveVersionMap d vm"
  show r: "root ?d = root d"
    by (simp add: saveVersionMap_def)
  note p = state_paths_root [OF r]
  show "loadVersionMap ?d = vm"
    using assms p by (intro loadVersionMap_written) (simp_all add: state_writable_def saveVersionMap_def readDisk_atomicWrite)
  show "loadReplicationMap ?d = loadReplicationMap d"
    using assms r by (intro load_same_files(2)) (simp_all add: state_writable_def saveVersionMap_def readDisk_atomicWrite)
  show "state_writable ?d"
    using assms(1) p by (simp add: state_writable_def saveVersionMap_def)
qed

lemma load_saveReplicationMap:
  assumes "state_writable d" and "replicas_ok rm"
  shows "loadReplicationMap (saveReplicationMap d rm) = rm"
    and "loadVersionMap (saveReplicationMap d rm) = loadVersionMap d"
    and "root (saveReplicationMap d rm) = root d" and "state_writable (saveReplicationMap d rm)"
proof -
  let ?d = "saveReplicationMap d rm"
  show r: "root ?d = root d"
    by (simp add: saveReplicationMap_def)
  note p = state_paths_root [OF r]
  show "loadReplicationMap ?d = rm"
    using assms p
    by (intro loadReplicationMap_written) (simp_all add: state_writable_def saveReplicationMap_def readDisk_atomicWrite)
  show "loadVersionMap ?d = loadVersionMap d"
    using assms r by (intro load_same_files(1)) (simp_all add: state_writable_def saveReplicationMap_def readDisk_atomicWrite)
  show "state_writable ?d"
    using assms(1) p by (simp add: state_writable_def saveReplicationMap_def)
qed

lemma load_saveMaps:
  assumes "state_writable d" and "versions_ok vm" and "replicas_ok rm"
  shows "loadVersionMap (saveMaps d vm rm) = vm" and "loadReplicationMap (saveMaps d vm rm) = rm"
    and "root (saveMaps d vm rm) = root d" and "state_writable (saveMaps d vm rm)"
  using load_saveVersionMap [OF assms(1,2)] load_saveReplicationMap [of "saveVersionMap d vm" rm] assms(3)
  by (simp_all add: saveMaps_def)

text \<open>
  C38: a server that restarts loads the maps it saved last: saving the version map and the replication
  map and loading them again gives both back, for paths that fit on a line and do not begin with a
  hash sign, and for node names without blanks and commas.
\<close>

theorem state_roundtrip:
  assumes "state_writable d" and "versions_ok vm" and "replicas_ok rm"
  shows "loadVersionMap (saveMaps d vm rm) = vm \<and> loadReplicationMap (saveMaps d vm rm) = rm"
  using load_saveMaps [OF assms] by simp

theorem state_roundtrip_witness:
  "loadReplicationMap (saveMaps (newFileManager ''/srv'') [(''my file'', 3)] [(''my file'', [''dn1'', ''dn2''])]) =
     [(''my file'', [''dn1'', ''dn2''])]"
proof -
  have "state_writable (newFileManager ''/srv'')" "versions_ok [(''my file'', 3)]"
    "replicas_ok [(''my file'', [''dn1'', ''dn2''])]"
    by code_simp+
  from state_roundtrip [OF this] show ?thesis ..
qed

lemma crash_saveVersionMap:
  assumes "state_writable d" and "versions_ok vm"
    and "d' \<in> set (atomicWriteStates d (versionPath d) (bytes_of_string (unlines (map showVersion vm))))"
  shows "loadReplicationMap d' = loadReplicationMap d \<and> (loadVersionMap d' = loadVersionMap d \<or> loadVersionMap d' = vm)"
proof -
  have r: "replaceable d (versionPath d)"
    using assms(1) by (simp add: state_writable_def)
  have "loadReplicationMap d' = loadReplicationMap d"
    using crash_other [OF r assms(3)] crash_root [OF assms(3)] by (intro load_same_files) simp_all
  moreover have "loadVersionMap d' = loadVersionMap d \<or> loadVersionMap d' = loadVersionMap (saveVersionMap d vm)"
    using crash_states [OF r assms(3) tmpPath_neq(2)] load_same_files(1) [of d' d] load_same_files(1) [of d' "saveVersionMap d vm"]
      crash_root [OF assms(3)] load_saveVersionMap(3) [OF assms(1,2)] state_paths_root [of "saveVersionMap d vm" d]
    by (metis saveVersionMap_def)
  ultimately show ?thesis
    using load_saveVersionMap(1) [OF assms(1,2)] by simp
qed

lemma crash_saveReplicationMap:
  assumes "state_writable d" and "replicas_ok rm"
    and "d' \<in> set (atomicWriteStates d (replicationPath d) (bytes_of_string (unlines (map showReplicas rm))))"
  shows "loadVersionMap d' = loadVersionMap d \<and> (loadReplicationMap d' = loadReplicationMap d \<or> loadReplicationMap d' = rm)"
proof -
  have r: "replaceable d (replicationPath d)"
    using assms(1) by (simp add: state_writable_def)
  have "loadVersionMap d' = loadVersionMap d"
    using crash_other [OF r assms(3)] crash_root [OF assms(3)] by (intro load_same_files) simp_all
  moreover have "loadReplicationMap d' = loadReplicationMap d \<or> loadReplicationMap d' = loadReplicationMap (saveReplicationMap d rm)"
    using crash_states [OF r assms(3) tmpPath_neq(2)] load_same_files(2) [of d' d] load_same_files(2) [of d' "saveReplicationMap d rm"]
      crash_root [OF assms(3)] load_saveReplicationMap(3) [OF assms(1,2)] state_paths_root [of "saveReplicationMap d rm" d]
    by (metis saveReplicationMap_def)
  ultimately show ?thesis
    using load_saveReplicationMap(1) [OF assms(1,2)] by simp
qed



lemma read_u32_shown: "read_u32 (show_nat (unat e) @ endl) = e"
proof -
  have "is_digit (hd (show_nat (unat e)))"
    using show_nat_digits [of "hd (show_nat (unat e))" "unat e"] by simp
  then have "read_sign (skip_ws (show_nat (unat e) @ endl)) = (False, show_nat (unat e) @ endl)"
    by (simp add: read_sign_digit digit_not_space)
  moreover have "takeWhile is_digit (show_nat (unat e) @ endl) = show_nat (unat e)"
    using show_nat_digits by (intro takeWhile_app) (auto simp: endl_def is_digit_def)
  moreover have "unat e < 2 ^ 32"
    using unsigned_less [of e, where ?'a = nat] by simp
  ultimately show ?thesis
    by (simp add: read_u32_def)
qed

lemma saved_epoch: "replaceable d (epochPath d) \<Longrightarrow> loadEpoch (saveEpoch d e) = e"
  using read_u32_shown state_paths_root [of "saveEpoch d e" d] readDisk_atomicWrite [of d "epochPath d" "epochPath d"]
  by (simp add: loadEpoch_def saveEpoch_def epochText_def)

text \<open>
  The epoch is durable. The stored epoch is the last one saved, and a crash while saving leaves the
  previous epoch or the new one, never another value.
\<close>

theorem epoch_durable:
  assumes "replaceable d (epochPath d)"
  shows "loadEpoch (saveEpoch d e) = e \<and>
    (\<forall>d'\<in>set (atomicWriteStates d (epochPath d) (epochText e)). loadEpoch d' \<in> {loadEpoch d, e})"
proof -
  have new: "loadEpoch d' = e" if "root d' = root d" "readDisk d' (epochPath d) = Some (epochText e)" for d'
    using that state_paths_root [of d' d] read_u32_shown by (simp add: loadEpoch_def epochText_def)
  have old: "loadEpoch d' = loadEpoch d" if "root d' = root d" "readDisk d' (epochPath d) = readDisk d (epochPath d)" for d'
    using that state_paths_root [of d' d] by (simp add: loadEpoch_def)
  have written: "readDisk (atomicWrite d (epochPath d) (epochText e)) (epochPath d) = Some (epochText e)"
    using readDisk_atomicWrite [OF assms] by simp
  have "loadEpoch d' \<in> {loadEpoch d, e}" if "d' \<in> set (atomicWriteStates d (epochPath d) (epochText e))" for d'
    using crash_states [OF assms that tmpPath_neq(2)] new [OF crash_root [OF that]] old [OF crash_root [OF that]]
    unfolding written by blast
  then show ?thesis
    using new written by (simp add: saveEpoch_def)
qed

theorem epoch_durable_witness: "loadEpoch (saveEpoch (newFileManager ''/srv'') 7) = 7"
proof -
  have "replaceable (newFileManager ''/srv'') (epochPath (newFileManager ''/srv''))"
    by code_simp
  from epoch_durable [OF this] show ?thesis
    by blast
qed

end
