(* ===== verification/Server_State.thy ===== *)
theory Server_State
  imports Node_Session State_Manager
begin

text \<open>
  The state the managers of the server share: the endpoint maps, the sessions behind them, the lock map,
  the replication map, the version map and the disk of the server. Session pointers are numbers, so
  that two maps can refer to the same session; no map of the server ever holds a null pointer. The
  section on fan-out has the loop the replication manager runs over the holders of a file, and the
  locale \<open>replica_call\<close> with what that loop guarantees for any call on a replica.
\<close>

section \<open>Sessions of clients and standbys\<close>

datatype posted =
    PushCreate string int bytes
  | PushUpdate string int bytes
  | PushDelete string
  | PostDelta u8 string int "string list" u32
  | PostHb u32
  | PostRelease string
  | PostAck

definition runPost :: "posted \<Rightarrow> proto \<Rightarrow> (frame_error + unit) \<times> proto" where
  \<comment> \<open>what the worker of the session does with a posted task\<close>
  "runPost t p =
     (case t of
        PushCreate path version content \<Rightarrow> pushCreateFile p path version content
      | PushUpdate path version content \<Rightarrow> pushUpdateFile p path version content
      | PushDelete path \<Rightarrow> pushDeleteFile p path
      | PostDelta op path version names epoch \<Rightarrow> sendStateDelta p op path version names epoch
      | PostHb epoch \<Rightarrow> sendLeaderHb p epoch
      | PostRelease path \<Rightarrow> (case proto_releaseLock p path of (Inl e, p1) \<Rightarrow> (Inl e, p1) | (Inr _, p1) \<Rightarrow> (Inr (), p1))
      | PostAck \<Rightarrow> response p True)"

record peer =
  p_name :: string
  p_run :: bool              \<comment> \<open>the worker of the session is in its loop\<close>
  p_end :: proto
  p_posts :: "posted list"   \<comment> \<open>tasks the worker has not run yet\<close>
  p_suspended :: bool        \<comment> \<open>the worker does not read from the connection\<close>

definition peer_isAlive :: "peer \<Rightarrow> bool" where
  "peer_isAlive c \<longleftrightarrow> p_run c \<and> alive (p_end c)"

fun drainPosts :: "posted list \<Rightarrow> proto \<Rightarrow> (frame_error + unit) \<times> proto" where
  \<comment> \<open>an exception of a posted task is not caught by anyone\<close>
  "drainPosts [] p = (Inr (), p)"
| "drainPosts (t # ts) p = (case runPost t p of (Inl e, p1) \<Rightarrow> (Inl e, p1) | (Inr _, p1) \<Rightarrow> drainPosts ts p1)"

definition peer_call :: "(proto \<Rightarrow> (frame_error + 'a) \<times> proto) \<Rightarrow> peer \<Rightarrow> 'a outcome \<times> peer" where
  \<comment> \<open>the call waits for the tasks before it; when one of those throws the process ends, so that the call
     does not come back either\<close>
  "peer_call fn c =
     (if \<not> p_run c then (Blocked, c)
      else case drainPosts (p_posts c) (p_end c) of
             (Inl e, p1) \<Rightarrow> (Blocked, c\<lparr>p_run := False, p_end := p1\<rparr>)
           | (Inr _, p1) \<Rightarrow>
               (let (r, p2) = fn p1 in (outcome_of r, c\<lparr>p_run := alive p2, p_end := p2, p_posts := []\<rparr>)))"

definition peer_drain :: "peer \<Rightarrow> unit outcome \<times> peer" where
  \<comment> \<open>one round of the worker without reading\<close>
  "peer_drain = peer_call (\<lambda>p. (Inr (), p))"

definition peer_setIsAlive :: "bool \<Rightarrow> peer \<Rightarrow> peer" where
  "peer_setIsAlive v c = c\<lparr>p_run := p_run c \<and> v, p_end := (p_end c)\<lparr>alive := v\<rparr>\<rparr>"

section \<open>The state of the server\<close>

record FileLock =
  fl_path :: string
  fl_locked :: bool
  fl_holder :: string
  fl_expires :: int

datatype pooled =
    RollbackDelete nat string    \<comment> \<open>delete the file again on a node that had acknowledged it\<close>
  | ForgetClient string

record server =
  sv_factor :: int
  sv_epoch :: u32
  sv_disk :: disk
  sv_nodes :: "(string, nat) omap"
  sv_clients :: "(string, nat) omap"
  sv_sessions :: "nat \<Rightarrow> node"
  sv_peers :: "nat \<Rightarrow> peer"
  sv_locks :: "(string, FileLock) omap"
  sv_replicas :: "(string, (string, nat) omap) omap"
  sv_versions :: "(string, int) omap"
  sv_standbys :: "(string, nat) omap option"
  sv_pool :: "pooled list"

definition noNode :: node where
  \<comment> \<open>what stands at a number no session has yet\<close>
  "noNode = \<lparr>n_name = [], n_run = False, n_link = False, n_ends = freshSession (newFileManager []), n_cuts = []\<rparr>"

definition newNode :: "string \<Rightarrow> disk \<Rightarrow> node" where
  \<comment> \<open>the session of a data node after the handshake, over a connection that will not be cut\<close>
  "newNode name d =
     \<lparr>n_name = name, n_run = True, n_link = True,
      n_ends = (newProto freshChannel ''DATANODE'' name, d, newProto freshChannel ''DATANODE'' name), n_cuts = []\<rparr>"

definition noPeer :: peer where
  "noPeer = \<lparr>p_name = [], p_run = False, p_end = newProto freshChannel [] [], p_posts = [], p_suspended = False\<rparr>"

definition newServer :: "int \<Rightarrow> u32 \<Rightarrow> disk \<Rightarrow> server" where
  \<comment> \<open>a server that starts: the version map is loaded, no session is restored\<close>
  "newServer factor epoch d =
     \<lparr>sv_factor = factor, sv_epoch = epoch, sv_disk = d, sv_nodes = [], sv_clients = [], sv_sessions = (\<lambda>_. noNode),
      sv_peers = (\<lambda>_. noPeer), sv_locks = [], sv_replicas = [], sv_versions = loadVersionMap d, sv_standbys = None,
      sv_pool = []\<rparr>"

definition om_get :: "('k, ('j, 'v) omap) omap \<Rightarrow> 'k \<Rightarrow> ('j, 'v) omap" where
  \<comment> \<open>\<open>operator[]\<close> on a map of maps\<close>
  "om_get m k = (case om_find m k of None \<Rightarrow> [] | Some v \<Rightarrow> v)"

definition bindO :: "'a outcome \<times> 's \<Rightarrow> ('a \<Rightarrow> 's \<Rightarrow> 'b outcome \<times> 's) \<Rightarrow> 'b outcome \<times> 's" where
  \<comment> \<open>an exception leaves the calling function, a blocked call never comes back\<close>
  "bindO r k = (case r of (Returned x, s) \<Rightarrow> k x s | (Threw e, s) \<Rightarrow> (Threw e, s) | (Blocked, s) \<Rightarrow> (Blocked, s))"

lemma bindO_simps [simp]:
  "bindO (Returned x, s) k = k x s" "bindO (Threw e, s) k = (Threw e, s)" "bindO (Blocked, s) k = (Blocked, s)"
  by (simp_all add: bindO_def)

lemma bindO_snd:
  assumes "\<And>x s1. m = (Returned x, s1) \<Longrightarrow> P (snd (k x s1))" and "P (snd m)"
  shows "P (snd (bindO m k))"
proof -
  obtain r s1 where m: "m = (r, s1)"
    by fastforce
  with assms show ?thesis
    by (cases r) auto
qed

definition sessionCall :: "nat \<Rightarrow> (node \<Rightarrow> 'a outcome \<times> node) \<Rightarrow> server \<Rightarrow> 'a outcome \<times> server" where
  "sessionCall i f s = (let (r, nd) = f (sv_sessions s i) in (r, s\<lparr>sv_sessions := (sv_sessions s)(i := nd)\<rparr>))"

definition peerCall :: "nat \<Rightarrow> (proto \<Rightarrow> (frame_error + 'a) \<times> proto) \<Rightarrow> server \<Rightarrow> 'a outcome \<times> server" where
  "peerCall i fn s = (let (r, c) = peer_call fn (sv_peers s i) in (r, s\<lparr>sv_peers := (sv_peers s)(i := c)\<rparr>))"

definition postTo :: "posted \<Rightarrow> nat \<Rightarrow> server \<Rightarrow> server" where
  "postTo t i s = s\<lparr>sv_peers := (sv_peers s)(i := (sv_peers s i)\<lparr>p_posts := p_posts (sv_peers s i) @ [t]\<rparr>)\<rparr>"

section \<open>Fan-out\<close>

fun fanOut :: "('n \<Rightarrow> bool) \<Rightarrow> ('n \<Rightarrow> Message outcome \<times> 'n) \<Rightarrow> (string \<times> nat) list \<Rightarrow> (nat \<Rightarrow> 'n) \<Rightarrow>
    ((string \<times> nat) \<times> Message) list outcome \<times> (nat \<Rightarrow> 'n)" where
  \<comment> \<open>call one live replica after the other and collect the answers\<close>
  "fanOut up call [] st = (Returned [], st)"
| "fanOut up call (e # es) st =
     (if \<not> up (st (snd e)) then fanOut up call es st
      else let (r, n) = call (st (snd e))
           in bindO (r, st(snd e := n)) (\<lambda>m st1.
                bindO (fanOut up call es st1) (\<lambda>answers st2. (Returned ((e, m) # answers), st2))))"

definition acked :: "((string \<times> nat) \<times> Message) list \<Rightarrow> (string \<times> nat) list" where
  "acked answers = map fst (filter (\<lambda>(e, m). isAck m) answers)"

text \<open>
  What the fan-out relies on: a call on a live replica that satisfies the precondition returns, its
  effect holds when it is acknowledged, and a replica in good condition acknowledges.
\<close>

locale replica_call =
  fixes up :: "'n \<Rightarrow> bool" and pre :: "'n \<Rightarrow> bool" and call :: "'n \<Rightarrow> Message outcome \<times> 'n"
    and step :: "'n \<Rightarrow> 'n \<Rightarrow> bool" and effect :: "'n \<Rightarrow> bool" and good :: "'n \<Rightarrow> bool"
  assumes returns: "pre n \<Longrightarrow> up n \<Longrightarrow>
      \<exists>m n'. call n = (Returned m, n') \<and> step n n' \<and> (isAck m \<longrightarrow> effect n') \<and> (good n \<longrightarrow> isAck m \<and> good n')"
    and step_refl: "pre n \<Longrightarrow> step n n"
    and good_up: "good n \<Longrightarrow> up n"
begin

lemma fanOut_law:
  assumes "distinct (map snd es)" and "\<forall>e\<in>set es. pre (st (snd e))"
  shows "\<exists>answers st'. fanOut up call es st = (Returned answers, st') \<and>
    map fst answers = filter (\<lambda>e. up (st (snd e))) es \<and>
    (\<forall>e\<in>set (acked answers). effect (st' (snd e))) \<and>
    (\<forall>e\<in>set es. step (st (snd e)) (st' (snd e)) \<and> (good (st (snd e)) \<longrightarrow> e \<in> set (acked answers) \<and> good (st' (snd e)))) \<and>
    (\<forall>i. i \<notin> snd ` set es \<longrightarrow> st' i = st i)"
  using assms
proof (induction es arbitrary: st)
  case (Cons e es)
  let ?i = "snd e"
  have fresh: "?i \<notin> snd ` set es" and dist: "distinct (map snd es)"
    using Cons.prems(1) by auto
  show ?case
  proof (cases "up (st ?i)")
    case False
    have "\<forall>e\<in>set es. pre (st (snd e))"
      using Cons.prems(2) by simp
    from Cons.IH [OF dist this] obtain answers st' where ih:
      "fanOut up call es st = (Returned answers, st')" "map fst answers = filter (\<lambda>e. up (st (snd e))) es"
      "\<forall>e\<in>set (acked answers). effect (st' (snd e))"
      "\<forall>e\<in>set es. step (st (snd e)) (st' (snd e)) \<and> (good (st (snd e)) \<longrightarrow> e \<in> set (acked answers) \<and> good (st' (snd e)))"
      "\<forall>i. i \<notin> snd ` set es \<longrightarrow> st' i = st i"
      by blast
    moreover have "st' ?i = st ?i"
      using ih(5) fresh by blast
    ultimately show ?thesis
      using False step_refl Cons.prems(2) good_up by auto
  next
    case True
    obtain m n where call: "call (st ?i) = (Returned m, n)" "step (st ?i) n" "isAck m \<longrightarrow> effect n"
      "good (st ?i) \<longrightarrow> isAck m \<and> good n"
      using returns [OF _ True] Cons.prems(2) by auto
    let ?st = "st(?i := n)"
    have same: "?st (snd f) = st (snd f)" if "f \<in> set es" for f
      using fresh that by (metis fun_upd_other image_eqI)
    then have "\<forall>f\<in>set es. pre (?st (snd f))"
      using Cons.prems(2) by simp
    from Cons.IH [OF dist this] obtain answers st' where ih:
      "fanOut up call es ?st = (Returned answers, st')" "map fst answers = filter (\<lambda>f. up (?st (snd f))) es"
      "\<forall>f\<in>set (acked answers). effect (st' (snd f))"
      "\<forall>f\<in>set es. step (?st (snd f)) (st' (snd f)) \<and> (good (?st (snd f)) \<longrightarrow> f \<in> set (acked answers) \<and> good (st' (snd f)))"
      "\<forall>i. i \<notin> snd ` set es \<longrightarrow> st' i = ?st i"
      by blast
    have run: "fanOut up call (e # es) st = (Returned ((e, m) # answers), st')"
      using True call(1) ih(1) by simp
    have e: "st' ?i = n"
      using ih(5) fresh by simp
    have fst: "map fst answers = filter (\<lambda>f. up (st (snd f))) es"
      unfolding ih(2) using same by (intro filter_cong refl) simp
    show ?thesis
      using run e fst call ih(3,5) ih(4) same True
      by (intro exI [of _ "(e, m) # answers"] exI [of _ st']) (auto simp: acked_def)
  qed
qed (simp add: acked_def)

end

text \<open>The three calls the replication manager fans out, on the sessions of data nodes.\<close>

lemma node_keeps_refl: "node_ok nd \<Longrightarrow> node_keeps path nd nd"
  using node_ok_disk [of nd] by (simp add: node_keeps_def disk_keeps_refl)

definition upload_step :: "string \<Rightarrow> int \<Rightarrow> bytes \<Rightarrow> node \<Rightarrow> node \<Rightarrow> bool" where
  "upload_step path v content nd nd' \<longleftrightarrow>
     node_keeps path nd nd' \<and> (stored nd' path = stored nd path \<or> stored nd' path = None \<or> stored nd' path = Some (content, v))"

lemma upload_step_refl: "node_ok nd \<Longrightarrow> upload_step path v content nd nd"
  by (simp add: upload_step_def node_keeps_refl)

lemma healthy_isAlive: "healthy nd \<Longrightarrow> node_isAlive nd"
  by (auto simp: healthy_def in_step_def node_isAlive_def node_ok_def split: prod.splits)

lemma node_isAlive_run: "node_isAlive nd \<Longrightarrow> n_run nd"
  by (simp add: node_isAlive_def)

lemma newNode_healthy: "storage_ok d \<Longrightarrow> small_files d \<Longrightarrow> healthy (newNode name d)"
  by (simp add: healthy_def node_ok_def in_step_def newNode_def session_ok_def at_rest_def idle_def newProto_def freshChannel_def
      tx_ready_def available_def rx_avail_def)

lemma newNode_simps [simp]: "n_name (newNode name d) = name" "node_disk (newNode name d) = d" "n_run (newNode name d)"
  by (simp_all add: newNode_def)

lemma upload_returns:
  assumes "node_ok nd \<and> upload_ok path v content (node_disk nd)" and "node_isAlive nd" and "op = CREATE_FILE \<or> op = UPDATE_FILE"
  shows "\<exists>m nd'. node_upload op path v content nd = (Returned m, nd') \<and> upload_step path v content nd nd' \<and>
    (isAck m \<longrightarrow> n_run nd' \<and> stored nd' path = Some (content, v)) \<and> (healthy nd \<longrightarrow> isAck m \<and> healthy nd')"
  using node_upload_law [OF conjunct1 [OF assms(1)] node_isAlive_run [OF assms(2)] conjunct2 [OF assms(1)] assms(3)]
  unfolding upload_step_def upload_keeps_def by blast

interpretation creates: replica_call node_isAlive "\<lambda>nd. node_ok nd \<and> upload_ok path v content (node_disk nd)"
  "node_createFile path v content" "upload_step path v content" "\<lambda>nd. n_run nd \<and> stored nd path = Some (content, v)" healthy for path v content
  by unfold_locales (simp_all add: node_createFile_def upload_returns upload_step_refl healthy_isAlive)

interpretation updates: replica_call node_isAlive "\<lambda>nd. node_ok nd \<and> upload_ok path v content (node_disk nd)"
  "node_updateFile path v content" "upload_step path v content" "\<lambda>nd. n_run nd \<and> stored nd path = Some (content, v)" healthy for path v content
  by unfold_locales (simp_all add: node_updateFile_def upload_returns upload_step_refl healthy_isAlive)

interpretation deletes: replica_call node_isAlive
  "\<lambda>nd. node_ok nd \<and> user_path (node_disk nd) path \<and> length path \<le> 65535"
  "node_deleteFile path" "node_keeps path" "\<lambda>nd. n_run nd \<and> stored nd path = None" healthy for path
  using node_deleteFile_law [of _ path]
  by unfold_locales (auto simp: node_keeps_refl healthy_isAlive dest: node_isAlive_run)

end
