(* ===== verification/Cluster_Config.thy ===== *)
theory Cluster_Config
  imports File_Manager
begin

text \<open>
  The cluster configuration of \<open>common/src/config/ClusterConfig.hpp\<close>: the list of servers in order of
  priority, the timing parameters, the queries on the order and the parser of the configuration file.
  The lemmas give the order its algebra (any two configured servers are ordered, one way) and show that
  the parser reads back a configuration written in its own format.
\<close>

section \<open>The configuration and its queries\<close>

record ServerEntry =
  se_name :: string
  se_ip :: string
  se_port :: int

record ClusterConfig =
  servers :: "ServerEntry list"
  replication_factor :: int
  heartbeat_interval_ms :: int
  heartbeat_timeout_ms :: int
  reconnect_attempts :: int
  reconnect_delay_ms :: int
  promotion_probe_attempts :: int
  promotion_probe_delay_ms :: int

definition defaultConfig :: ClusterConfig where
  "defaultConfig =
     \<lparr>servers = [], replication_factor = 2, heartbeat_interval_ms = 500, heartbeat_timeout_ms = 1500,
      reconnect_attempts = 3, reconnect_delay_ms = 500, promotion_probe_attempts = 3,
      promotion_probe_delay_ms = 200\<rparr>"

fun priorityFrom :: "int \<Rightarrow> ServerEntry list \<Rightarrow> string \<Rightarrow> int" where
  "priorityFrom i [] name = -1"
| "priorityFrom i (s # ss) name = (if se_name s = name then i else priorityFrom (i + 1) ss name)"

definition priorityOf :: "ClusterConfig \<Rightarrow> string \<Rightarrow> int" where
  "priorityOf cfg name = priorityFrom 0 (servers cfg) name"

definition higherPriorityThan :: "ClusterConfig \<Rightarrow> string \<Rightarrow> ServerEntry list" where
  "higherPriorityThan cfg name = takeWhile (\<lambda>s. se_name s \<noteq> name) (servers cfg)"

definition findServer :: "ClusterConfig \<Rightarrow> string \<Rightarrow> ServerEntry option" where
  "findServer cfg name = List.find (\<lambda>s. se_name s = name) (servers cfg)"

definition validConfig :: "ClusterConfig \<Rightarrow> bool" where
  "validConfig cfg \<longleftrightarrow> servers cfg \<noteq> []"

definition isPrimary :: "ClusterConfig \<Rightarrow> string \<Rightarrow> bool" where
  "isPrimary cfg name \<longleftrightarrow> servers cfg \<noteq> [] \<and> se_name (hd (servers cfg)) = name"

definition standalone :: "string \<Rightarrow> int \<Rightarrow> string \<Rightarrow> ClusterConfig" where
  "standalone ip port name = defaultConfig\<lparr>servers := [\<lparr>se_name = name, se_ip = ip, se_port = port\<rparr>]\<rparr>"

section \<open>The parser\<close>

definition ltrim :: "string \<Rightarrow> string" where
  "ltrim s = dropWhile is_space s"

definition rtrim :: "string \<Rightarrow> string" where
  "rtrim s = rev (dropWhile is_space (rev s))"

fun rfind_str :: "string \<Rightarrow> string \<Rightarrow> nat option" where
  \<comment> \<open>\<open>string::rfind\<close> of a string\<close>
  "rfind_str pat [] = (if pat = [] then Some 0 else None)"
| "rfind_str pat (c # s) =
     (case rfind_str pat s of Some i \<Rightarrow> Some (Suc i)
      | None \<Rightarrow> if take (length pat) (c # s) = pat then Some 0 else None)"

definition stripComment :: "string \<Rightarrow> string \<Rightarrow> string" where
  "stripComment marker value = (case rfind_str marker value of None \<Rightarrow> value | Some pos \<Rightarrow> rtrim (take pos value))"

definition serverLine :: "string \<Rightarrow> string \<Rightarrow> ServerEntry option" where
  \<comment> \<open>\<open>key = ip:port\<close>; no value for an entry the parser rejects\<close>
  "serverLine key value =
     (case rfind_char (CHR '':'') value of None \<Rightarrow> None
      | Some colon \<Rightarrow>
          (case stoi (drop (Suc colon) value) of None \<Rightarrow> None
           | Some port \<Rightarrow> Some \<lparr>se_name = key, se_ip = take colon value, se_port = port\<rparr>))"

definition replicationLine :: "string \<Rightarrow> string \<Rightarrow> ClusterConfig \<Rightarrow> ClusterConfig" where
  "replicationLine key value cfg =
     (case stoi value of None \<Rightarrow> cfg
      | Some v \<Rightarrow>
          if key = ''replication_factor'' then cfg\<lparr>replication_factor := v\<rparr>
          else if key = ''heartbeat_interval_ms'' then cfg\<lparr>heartbeat_interval_ms := v\<rparr>
          else if key = ''heartbeat_timeout_ms'' then cfg\<lparr>heartbeat_timeout_ms := v\<rparr>
          else if key = ''reconnect_attempts'' then cfg\<lparr>reconnect_attempts := v\<rparr>
          else if key = ''reconnect_delay_ms'' then cfg\<lparr>reconnect_delay_ms := v\<rparr>
          else if key = ''promotion_probe_attempts'' then cfg\<lparr>promotion_probe_attempts := v\<rparr>
          else if key = ''promotion_probe_delay_ms'' then cfg\<lparr>promotion_probe_delay_ms := v\<rparr>
          else cfg)"

definition configLine :: "string \<Rightarrow> string \<times> ClusterConfig \<Rightarrow> string \<times> ClusterConfig" where
  \<comment> \<open>one line of the file; the state is the current section and the configuration so far\<close>
  "configLine raw st =
     (let (section_name, cfg) = st; line = rtrim (ltrim raw)
      in if line = [] \<or> hd line = CHR ''#'' \<or> hd line = CHR '';'' then st
         else if hd line = CHR ''['' \<and> last line = CHR '']'' then (butlast (tl line), cfg)
         else case find_char (CHR ''='') line of
                None \<Rightarrow> st
              | Some eq \<Rightarrow>
                  (let key = rtrim (ltrim (take eq line));
                       value = stripComment '' #'' (stripComment '' ;'' (rtrim (ltrim (drop (Suc eq) line))))
                   in if section_name = ''servers'' then
                        (case serverLine key value of
                           None \<Rightarrow> st | Some e \<Rightarrow> (section_name, cfg\<lparr>servers := servers cfg @ [e]\<rparr>))
                      else if section_name = ''replication'' then (section_name, replicationLine key value cfg)
                      else st))"

datatype config_error = CannotOpen

definition parseConfig :: "string \<Rightarrow> ClusterConfig" where
  "parseConfig content = snd (fold configLine (getlines content) ('''', defaultConfig))"

definition fromFile :: "disk \<Rightarrow> string \<Rightarrow> config_error + ClusterConfig" where
  \<comment> \<open>a file that cannot be opened makes the parser throw\<close>
  "fromFile d path =
     (case readDisk d path of None \<Rightarrow> Inl CannotOpen | Some content \<Rightarrow> Inr (parseConfig (string_of_bytes content)))"

section \<open>The order of the servers\<close>

lemma takeWhile_names: "map se_name (takeWhile (\<lambda>s. se_name s \<noteq> name) ss) = takeWhile (\<lambda>n. n \<noteq> name) (map se_name ss)"
  by (induction ss) auto

lemma priorityFrom_takeWhile:
  "priorityFrom i ss name =
    (if name \<in> set (map se_name ss) then i + int (length (takeWhile (\<lambda>n. n \<noteq> name) (map se_name ss))) else -1)"
  by (induction ss arbitrary: i) auto

lemma higher_names: "se_name ` set (higherPriorityThan cfg name) = set (takeWhile (\<lambda>n. n \<noteq> name) (map se_name (servers cfg)))"
  unfolding higherPriorityThan_def takeWhile_names [symmetric] by simp

lemma priorityOf_configured:
  "name \<in> set (map se_name (servers cfg)) \<Longrightarrow>
   priorityOf cfg name = int (length (takeWhile (\<lambda>n. n \<noteq> name) (map se_name (servers cfg))))"
  by (simp add: priorityOf_def priorityFrom_takeWhile)

lemma takeWhile_before:
  "a \<in> set ns \<Longrightarrow> b \<in> set ns \<Longrightarrow> a \<noteq> b \<Longrightarrow>
   a \<in> set (takeWhile (\<lambda>n. n \<noteq> b) ns) \<longleftrightarrow> length (takeWhile (\<lambda>n. n \<noteq> a) ns) < length (takeWhile (\<lambda>n. n \<noteq> b) ns)"
  by (induction ns) auto

lemma takeWhile_index_inj:
  "a \<in> set ns \<Longrightarrow> b \<in> set ns \<Longrightarrow> length (takeWhile (\<lambda>n. n \<noteq> a) ns) = length (takeWhile (\<lambda>n. n \<noteq> b) ns) \<Longrightarrow> a = b"
  by (induction ns) (auto split: if_splits)

lemma one_is_higher:
  assumes "a \<in> se_name ` set (servers cfg)" and "b \<in> se_name ` set (servers cfg)" and "a \<noteq> b"
  shows "a \<in> se_name ` set (higherPriorityThan cfg b) \<or> b \<in> se_name ` set (higherPriorityThan cfg a)"
proof -
  have "a \<in> set (map se_name (servers cfg))" "b \<in> set (map se_name (servers cfg))"
    using assms(1,2) by simp_all
  from takeWhile_before [OF this assms(3)] takeWhile_before [OF this(2,1) assms(3) [symmetric]]
    takeWhile_index_inj [OF this] assms(3) show ?thesis
    unfolding higher_names by linarith
qed

text \<open>
  Any two configured servers are ordered, one way: the name of exactly one of them is among the
  servers of higher priority than the other, and the numeric priorities agree with that order.
\<close>

theorem priority_total:
  assumes "a \<in> se_name ` set (servers cfg)" and "b \<in> se_name ` set (servers cfg)" and "a \<noteq> b"
  shows "(a \<in> se_name ` set (higherPriorityThan cfg b)) \<noteq> (b \<in> se_name ` set (higherPriorityThan cfg a)) \<and>
    (a \<in> se_name ` set (higherPriorityThan cfg b) \<longleftrightarrow> priorityOf cfg a < priorityOf cfg b)"
proof -
  let ?ns = "map se_name (servers cfg)"
  have in_ns: "a \<in> set ?ns" "b \<in> set ?ns"
    using assms(1,2) by simp_all
  from takeWhile_before [OF this assms(3)] takeWhile_before [OF in_ns(2,1) assms(3) [symmetric]]
    takeWhile_index_inj [OF in_ns] assms(3)
  show ?thesis
    unfolding higher_names priorityOf_configured [OF in_ns(1)] priorityOf_configured [OF in_ns(2)] by linarith
qed

theorem priority_total_witness:
  "let cfg = defaultConfig\<lparr>servers := [\<lparr>se_name = ''s1'', se_ip = ''10.0.0.1'', se_port = 9000\<rparr>,
                                     \<lparr>se_name = ''s2'', se_ip = ''10.0.0.2'', se_port = 9000\<rparr>]\<rparr>
   in ''s1'' \<in> se_name ` set (higherPriorityThan cfg ''s2'') \<and> priorityOf cfg ''s1'' < priorityOf cfg ''s2''"
proof -
  let ?cfg = "defaultConfig\<lparr>servers := [\<lparr>se_name = ''s1'', se_ip = ''10.0.0.1'', se_port = 9000\<rparr>,
                                     \<lparr>se_name = ''s2'', se_ip = ''10.0.0.2'', se_port = 9000\<rparr>]\<rparr>"
  have "''s1'' \<in> se_name ` set (servers ?cfg)" "''s2'' \<in> se_name ` set (servers ?cfg)" "''s1'' \<noteq> ''s2''"
    by simp_all
  from priority_total [OF this] show ?thesis
    by (simp add: higherPriorityThan_def)
qed

section \<open>Reading back a configuration file\<close>

definition showSetting :: "string \<Rightarrow> string \<Rightarrow> string" where
  "showSetting key value = key @ '' = '' @ value"

definition showServer :: "ServerEntry \<Rightarrow> string" where
  "showServer e = showSetting (se_name e) (se_ip e @ '':'' @ show_int (se_port e))"

definition showReplication :: "ClusterConfig \<Rightarrow> string list" where
  "showReplication cfg =
     [showSetting ''replication_factor'' (show_int (replication_factor cfg)),
      showSetting ''heartbeat_interval_ms'' (show_int (heartbeat_interval_ms cfg)),
      showSetting ''heartbeat_timeout_ms'' (show_int (heartbeat_timeout_ms cfg)),
      showSetting ''reconnect_attempts'' (show_int (reconnect_attempts cfg)),
      showSetting ''reconnect_delay_ms'' (show_int (reconnect_delay_ms cfg)),
      showSetting ''promotion_probe_attempts'' (show_int (promotion_probe_attempts cfg)),
      showSetting ''promotion_probe_delay_ms'' (show_int (promotion_probe_delay_ms cfg))]"

definition showConfig :: "ClusterConfig \<Rightarrow> string" where
  \<comment> \<open>a configuration in the format the parser documents\<close>
  "showConfig cfg = unlines (''[servers]'' # map showServer (servers cfg) @ ''[replication]'' # showReplication cfg)"

definition setting_key :: "string \<Rightarrow> bool" where
  "setting_key k \<longleftrightarrow> plain_name k \<and> CHR ''='' \<notin> set k \<and> hd k \<notin> {CHR ''#'', CHR '';'', CHR ''[''}"

definition config_ok :: "ClusterConfig \<Rightarrow> bool" where
  "config_ok cfg \<longleftrightarrow>
     (\<forall>e\<in>set (servers cfg). setting_key (se_name e) \<and> (\<forall>c\<in>set (se_ip e). \<not> is_space c) \<and> int_range (se_port e)) \<and>
     int_range (replication_factor cfg) \<and> int_range (heartbeat_interval_ms cfg) \<and> int_range (heartbeat_timeout_ms cfg) \<and>
     int_range (reconnect_attempts cfg) \<and> int_range (reconnect_delay_ms cfg) \<and>
     int_range (promotion_probe_attempts cfg) \<and> int_range (promotion_probe_delay_ms cfg)"

lemma trim_id:
  assumes "s \<noteq> []" and "\<not> is_space (hd s)" and "\<not> is_space (last s)"
  shows "rtrim (ltrim s) = s"
proof -
  have "ltrim s = s"
    using assms by (cases s) (simp_all add: ltrim_def)
  moreover have "rtrim s = s"
    using assms(1,3) by (cases s rule: rev_cases) (simp_all add: rtrim_def)
  ultimately show ?thesis
    by simp
qed

lemma plain_ends: "plain_name s \<Longrightarrow> s \<noteq> [] \<and> \<not> is_space (hd s) \<and> \<not> is_space (last s)"
  by (simp add: plain_name_def)

lemma trim_plain [simp]: "plain_name s \<Longrightarrow> rtrim (ltrim s) = s"
  using plain_ends by (intro trim_id) blast+

lemma ltrim_blank: "plain_name s \<Longrightarrow> rtrim (ltrim (CHR '' '' # s)) = s"
  using trim_plain [of s] by (simp add: ltrim_def)

lemma rtrim_blank:
  assumes "plain_name s"
  shows "rtrim (ltrim (s @ '' '')) = s"
proof -
  have "ltrim (s @ '' '') = s @ '' ''"
    using plain_ends [OF assms] by (cases s) (simp_all add: ltrim_def)
  moreover have "rtrim (s @ '' '') = rtrim s"
    by (simp add: rtrim_def)
  moreover have "rtrim s = s"
    using plain_ends [OF assms] by (cases s rule: rev_cases) (simp_all add: rtrim_def)
  ultimately show ?thesis
    by simp
qed

lemma rfind_str_None: "c \<notin> set s \<Longrightarrow> rfind_str (c # pat) s = None"
  by (induction s) auto

lemma stripComment_plain [simp]: "plain_name s \<Longrightarrow> stripComment (CHR '' '' # m) s = s"
  unfolding stripComment_def plain_name_def using rfind_str_None [of "CHR '' ''" s m] space_is_space by fastforce

lemma find_char_app: "c \<notin> set p \<Longrightarrow> find_char c (p @ c # s) = Some (length p)"
  using takeWhile_app [of p "\<lambda>x. x \<noteq> c" "c # s"] by (fastforce simp: find_char_def)

lemma plain_show_int [simp]: "plain_name (show_int v)"
  using show_int_not_space by (auto simp: plain_name_def)

lemma configLine_setting:
  assumes "setting_key key" and "plain_name value"
  shows "configLine (showSetting key value) (section_name, cfg) =
    (if section_name = ''servers'' then
       (case serverLine key value of
          None \<Rightarrow> (section_name, cfg) | Some e \<Rightarrow> (section_name, cfg\<lparr>servers := servers cfg @ [e]\<rparr>))
     else if section_name = ''replication'' then (section_name, replicationLine key value cfg)
     else (section_name, cfg))"
proof -
  let ?line = "showSetting key value"
  have key: "plain_name key" "CHR ''='' \<notin> set key" "hd key \<notin> {CHR ''#'', CHR '';'', CHR ''[''}"
    using assms(1) by (simp_all add: setting_key_def)
  have line: "?line = (key @ '' '') @ CHR ''='' # CHR '' '' # value"
    by (simp add: showSetting_def)
  have ends: "?line \<noteq> []" "hd ?line = hd key" "last ?line = last value"
    using plain_ends [OF key(1)] plain_ends [OF assms(2)] by (simp_all add: showSetting_def)
  then have "rtrim (ltrim ?line) = ?line"
    using plain_ends [OF key(1)] plain_ends [OF assms(2)] by (intro trim_id) simp_all
  moreover have "find_char (CHR ''='') ?line = Some (Suc (length key))"
    unfolding line using key(2) find_char_app [of "CHR ''=''" "key @ '' ''"] by simp
  moreover have "take (Suc (length key)) ?line = key @ '' ''" "drop (Suc (Suc (length key))) ?line = CHR '' '' # value"
    by (simp_all add: line)
  ultimately show ?thesis
    using ends key(3) rtrim_blank [OF key(1)] ltrim_blank [OF assms(2)] stripComment_plain [OF assms(2)]
    by (simp add: configLine_def)
qed

lemma serverLine_shown:
  assumes "int_range (se_port e)"
  shows "serverLine (se_name e) (se_ip e @ CHR '':'' # show_int (se_port e)) = Some e"
proof -
  have "CHR '':'' \<notin> set (show_int v)" for v
  proof
    assume "CHR '':'' \<in> set (show_int v)"
    then have "is_digit (CHR '':'')"
      using show_nat_digits by (auto simp: show_int_def split: if_splits)
    then show False
      by (simp add: is_digit_def)
  qed
  from rfind_char_app [OF this] assms show ?thesis
    by (simp add: serverLine_def)
qed

lemma parse_servers:
  assumes "\<forall>e\<in>set es. setting_key (se_name e) \<and> (\<forall>c\<in>set (se_ip e). \<not> is_space c) \<and> int_range (se_port e)"
  shows "fold configLine (map showServer es) (''servers'', cfg) = (''servers'', cfg\<lparr>servers := servers cfg @ es\<rparr>)"
  using assms
proof (induction es arbitrary: cfg)
  case (Cons e es)
  have "\<not> is_space (CHR '':'')"
    by (simp add: is_space_def)
  then have "plain_name (se_ip e @ CHR '':'' # show_int (se_port e))"
    using Cons.prems show_int_not_space by (auto simp: plain_name_def)
  with Cons show ?case
    by (simp add: showServer_def configLine_setting serverLine_shown)
qed simp

lemma configLine_section:
  "configLine ''[servers]'' st = (''servers'', snd st)" "configLine ''[replication]'' st = (''replication'', snd st)"
proof -
  have "plain_name ''[servers]''" "plain_name ''[replication]''"
    by code_simp+
  then show "configLine ''[servers]'' st = (''servers'', snd st)" "configLine ''[replication]'' st = (''replication'', snd st)"
    by (simp_all add: configLine_def split: prod.splits)
qed

lemma replication_keys:
  "setting_key ''replication_factor''" "setting_key ''heartbeat_interval_ms''" "setting_key ''heartbeat_timeout_ms''"
  "setting_key ''reconnect_attempts''" "setting_key ''reconnect_delay_ms''" "setting_key ''promotion_probe_attempts''"
  "setting_key ''promotion_probe_delay_ms''"
  by code_simp+

lemma parse_replication:
  assumes "config_ok cfg"
  shows "fold configLine (showReplication cfg) (''replication'', cfg') = (''replication'', cfg\<lparr>servers := servers cfg'\<rparr>)"
  using assms
  by (simp add: showReplication_def configLine_setting replication_keys replicationLine_def config_ok_def)

lemma shown_lines:
  assumes "config_ok cfg"
  shows "\<forall>l\<in>set (''[servers]'' # map showServer (servers cfg) @ ''[replication]'' # showReplication cfg). CHR 0x0A \<notin> set l"
proof -
  have plain: "CHR 0x0A \<notin> set (showSetting k v)" if "setting_key k" "plain_name v" for k v
    using that plain_no_newline [of k] plain_no_newline [of v] by (simp add: showSetting_def setting_key_def)
  have "CHR 0x0A \<notin> set (showServer e)" if "e \<in> set (servers cfg)" for e
  proof -
    have "\<not> is_space (CHR '':'')"
      by (simp add: is_space_def)
    then have "plain_name (se_ip e @ CHR '':'' # show_int (se_port e))"
      using assms that show_int_not_space by (auto simp: plain_name_def config_ok_def)
    with assms that plain show ?thesis
      by (simp add: showServer_def config_ok_def)
  qed
  moreover have "\<forall>l\<in>set (showReplication cfg). CHR 0x0A \<notin> set l"
    using plain replication_keys by (simp add: showReplication_def)
  ultimately show ?thesis
    by auto
qed

text \<open>
  A configuration written in the documented format is read back as it was, the servers in the order of
  the file; a file that cannot be opened is an error.
\<close>

theorem config_roundtrip:
  assumes "config_ok cfg" and "readDisk d path = Some (bytes_of_string (showConfig cfg))"
  shows "fromFile d path = Inr cfg \<and> (readDisk d other = None \<longrightarrow> fromFile d other = Inl CannotOpen)"
proof -
  have "getlines (showConfig cfg) = ''[servers]'' # map showServer (servers cfg) @ ''[replication]'' # showReplication cfg"
    unfolding showConfig_def by (rule getlines_unlines [OF shown_lines [OF assms(1)]])
  moreover have "fold configLine (map showServer (servers cfg)) (''servers'', defaultConfig) =
      (''servers'', defaultConfig\<lparr>servers := servers cfg\<rparr>)"
    using parse_servers [of "servers cfg" defaultConfig] assms(1) by (simp add: config_ok_def defaultConfig_def)
  ultimately have "parseConfig (showConfig cfg) = cfg"
    using parse_replication [OF assms(1)] by (simp add: parseConfig_def configLine_section)
  with assms(2) show ?thesis
    by (simp add: fromFile_def)
qed

theorem config_roundtrip_witness:
  "let cfg = standalone ''127.0.0.1'' 9000 ''server1''
   in fromFile (writeDisk (newFileManager ''/srv'') ''/etc/squid.conf'' (bytes_of_string (showConfig cfg))) ''/etc/squid.conf'' = Inr cfg"
proof -
  let ?cfg = "standalone ''127.0.0.1'' 9000 ''server1''"
  let ?d = "writeDisk (newFileManager ''/srv'') ''/etc/squid.conf'' (bytes_of_string (showConfig ?cfg))"
  have "config_ok ?cfg"
    by code_simp
  moreover have "readDisk ?d ''/etc/squid.conf'' = Some (bytes_of_string (showConfig ?cfg))"
    by (simp add: readDisk_writeDisk newFileManager_def createFileVersionFile_def split: option.splits)
  ultimately show ?thesis
    using config_roundtrip [of ?cfg ?d "''/etc/squid.conf''"] by simp
qed

end
