(* ===== verification/Peer_Connection.thy ===== *)
theory Peer_Connection
  imports Server_State Cluster_Config
begin

text \<open>
  The side that connects to a server: \<open>common/src/peer/peer.cpp\<close>, the base of clients and data nodes,
  with the naming of data nodes of \<open>datanode/src/datanode.cpp\<close>. Connecting to an address is not code of
  the program: the state has a list with what the coming attempts yield, a connection or nothing.
\<close>

section \<open>State\<close>

datatype connect_error = NotReachable | HandshakeFailed | NoServer | BadFrame frame_error

record endpoint_proc =
  ep_type :: string
  ep_name :: string
  ep_ip :: string
  ep_port :: int
  ep_session :: "peer option"
  ep_epoch :: u32                    \<comment> \<open>the highest epoch seen\<close>
  ep_config :: ClusterConfig
  ep_dials :: "channel option list"  \<comment> \<open>what the coming connection attempts yield\<close>

definition dial :: "('x endpoint_proc_scheme) \<Rightarrow> channel option \<times> 'x endpoint_proc_scheme" where
  "dial e = (case ep_dials e of [] \<Rightarrow> (None, e) | c # cs \<Rightarrow> (c, e\<lparr>ep_dials := cs\<rparr>))"

definition ep_isAlive :: "'x endpoint_proc_scheme \<Rightarrow> bool" where
  "ep_isAlive e \<longleftrightarrow> (case ep_session e of None \<Rightarrow> False | Some c \<Rightarrow> peer_isAlive c)"

section \<open>Connecting\<close>

definition performHandshake :: "channel \<Rightarrow> 'x endpoint_proc_scheme \<Rightarrow> (frame_error + channel option) \<times> 'x endpoint_proc_scheme" where
  \<comment> \<open>the channel after a handshake that succeeded\<close>
  "performHandshake c e =
     (let (identify, p1) = receiveAndParse (newProto c (ep_type e) (ep_name e))
      in if \<not> alive p1 \<or> opcode identify \<noteq> IDENTIFY then (Inr None, e)
         else case responseIdent p1 (ep_type e) (ep_name e) of
                (Inl err, p2) \<Rightarrow> (Inl err, e)
              | (Inr _, p2) \<Rightarrow>
                  if \<not> alive p2 then (Inr None, e)
                  else let (ack, p3) = receiveAndParse p2
                       in if \<not> alive p3 \<or> \<not> isAck ack then (Inr None, e)
                          else let serverEpoch = getUint32 ack EPOCH 0
                               in if serverEpoch < ep_epoch e
                                  then (case sendNackStaleEpoch p3 (ep_epoch e) of (Inl err, _) \<Rightarrow> (Inl err, e) | (Inr _, _) \<Rightarrow> (Inr None, e))
                                  else (Inr (Some (chan p3)), if serverEpoch > ep_epoch e then e\<lparr>ep_epoch := serverEpoch\<rparr> else e))"

definition openSession :: "channel \<Rightarrow> 'x endpoint_proc_scheme \<Rightarrow> 'x endpoint_proc_scheme" where
  "openSession c e =
     e\<lparr>ep_session := Some \<lparr>p_name = ep_name e, p_run = True, p_end = newProto c (ep_type e) (ep_name e), p_posts = [], p_suspended = False\<rparr>\<rparr>"

definition connectToServer :: "'x endpoint_proc_scheme \<Rightarrow> (connect_error + unit) \<times> 'x endpoint_proc_scheme" where
  "connectToServer e =
     (case dial e of
        (None, e1) \<Rightarrow> (Inl NotReachable, e1)
      | (Some c, e1) \<Rightarrow>
          (case performHandshake c e1 of
             (Inl err, e2) \<Rightarrow> (Inl (BadFrame err), e2)
           | (Inr None, e2) \<Rightarrow> (Inl HandshakeFailed, e2)
           | (Inr (Some c'), e2) \<Rightarrow> (Inr (), openSession c' e2)))"

fun failoverRound :: "ServerEntry list \<Rightarrow> 'x endpoint_proc_scheme \<Rightarrow> (connect_error + bool) \<times> 'x endpoint_proc_scheme" where
  \<comment> \<open>one pass over the configured servers, in the order of their priority\<close>
  "failoverRound [] e = (Inr False, e)"
| "failoverRound (entry # entries) e =
     (case dial e of
        (None, e1) \<Rightarrow> failoverRound entries e1
      | (Some c, e1) \<Rightarrow>
          (case performHandshake c e1 of
             (Inl err, e2) \<Rightarrow> (Inl (BadFrame err), e2)
           | (Inr None, e2) \<Rightarrow> failoverRound entries e2
           | (Inr (Some c'), e2) \<Rightarrow> (Inr True, openSession c' (e2\<lparr>ep_ip := se_ip entry, ep_port := se_port entry\<rparr>))))"

fun failoverLoop :: "nat \<Rightarrow> ServerEntry list \<Rightarrow> 'x endpoint_proc_scheme \<Rightarrow> (connect_error + unit) \<times> 'x endpoint_proc_scheme" where
  "failoverLoop 0 entries e = (Inl NoServer, e)"
| "failoverLoop (Suc attempts) entries e =
     (case failoverRound entries e of
        (Inl err, e1) \<Rightarrow> (Inl err, e1)
      | (Inr True, e1) \<Rightarrow> (Inr (), e1)
      | (Inr False, e1) \<Rightarrow> failoverLoop attempts entries e1)"

definition connectWithFailover :: "ClusterConfig \<Rightarrow> 'x endpoint_proc_scheme \<Rightarrow> (connect_error + unit) \<times> 'x endpoint_proc_scheme" where
  "connectWithFailover cfg e = failoverLoop (nat (max 1 (reconnect_attempts cfg))) (servers cfg) (e\<lparr>ep_config := cfg\<rparr>)"

definition disconnect :: "'x endpoint_proc_scheme \<Rightarrow> unit outcome \<times> 'x endpoint_proc_scheme" where
  \<comment> \<open>a session that is alive is told to close first\<close>
  "disconnect e =
     (case ep_session e of
        None \<Rightarrow> (Returned (), e)
      | Some c \<Rightarrow>
          (let e1 = e\<lparr>ep_session := None\<rparr>
           in if peer_isAlive c
              then (case fst (peer_call closeConn c) of Returned _ \<Rightarrow> (Returned (), e1) | Threw err \<Rightarrow> (Threw err, e1) | Blocked \<Rightarrow> (Blocked, e1))
              else (Returned (), e1)))"

definition reconnect :: "'x endpoint_proc_scheme \<Rightarrow> (connect_error + unit) outcome \<times> 'x endpoint_proc_scheme" where
  "reconnect e =
     bindO (disconnect e) (\<lambda>_ e1.
       let (r, e2) = (if validConfig (ep_config e1) then connectWithFailover (ep_config e1) e1 else connectToServer e1)
       in (Returned r, e2))"

section \<open>Data nodes\<close>

definition generateName :: "string \<Rightarrow> int \<Rightarrow> string" where
  "generateName ip port = ''DATANODE_'' @ map (\<lambda>c. if c = CHR ''.'' then CHR ''_'' else c) ip @ ''_'' @ show_int port"

definition newDataNode :: "string \<Rightarrow> int \<Rightarrow> channel option list \<Rightarrow> endpoint_proc" where
  "newDataNode ip port dials =
     \<lparr>ep_type = ''DATANODE'', ep_name = generateName ip port, ep_ip = ip, ep_port = port, ep_session = None, ep_epoch = 0,
      ep_config = defaultConfig, ep_dials = dials\<rparr>"

fun datanodeLoop :: "nat \<Rightarrow> 'x endpoint_proc_scheme \<Rightarrow> unit outcome \<times> 'x endpoint_proc_scheme" where
  \<comment> \<open>that many rounds of the main loop: a lost connection is opened again, a failure to do so only logged\<close>
  "datanodeLoop 0 e = (Returned (), e)"
| "datanodeLoop (Suc n) e =
     (if ep_isAlive e then datanodeLoop n e
      else case reconnect e of (Blocked, e1) \<Rightarrow> (Blocked, e1) | (_, e1) \<Rightarrow> datanodeLoop n e1)"

definition datanodeRun :: "nat \<Rightarrow> 'x endpoint_proc_scheme \<Rightarrow> (connect_error + unit) outcome \<times> 'x endpoint_proc_scheme" where
  \<comment> \<open>only the first connection may fail\<close>
  "datanodeRun n e =
     (case (if ep_isAlive e then (Inr (), e) else connectToServer e) of
        (Inl err, e1) \<Rightarrow> (Returned (Inl err), e1)
      | (Inr _, e1) \<Rightarrow> bindO (datanodeLoop n e1) (\<lambda>_ e2. (Returned (Inr ()), e2)))"

section \<open>Connecting concerns the connection only\<close>

lemma dial_more: "endpoint_proc.more (snd (dial e)) = endpoint_proc.more e"
  by (simp add: dial_def split: list.splits)

lemma performHandshake_more: "endpoint_proc.more (snd (performHandshake c e)) = endpoint_proc.more e"
  by (auto simp: performHandshake_def Let_def split: prod.splits sum.splits)

lemma openSession_more [simp]: "endpoint_proc.more (openSession c e) = endpoint_proc.more e"
  by (simp add: openSession_def)

lemma connectToServer_more: "endpoint_proc.more (snd (connectToServer e)) = endpoint_proc.more e"
proof -
  obtain r e1 where d: "dial e = (r, e1)"
    by fastforce
  with dial_more [of e] have "endpoint_proc.more e1 = endpoint_proc.more e"
    by simp
  with d show ?thesis
    using performHandshake_more [of _ e1]
    by (auto simp: connectToServer_def split: option.splits prod.splits sum.splits) (metis snd_conv)+
qed

lemma failoverRound_more: "endpoint_proc.more (snd (failoverRound entries e)) = endpoint_proc.more e"
proof (induction entries arbitrary: e)
  case (Cons entry entries)
  obtain r e1 where d: "dial e = (r, e1)" "endpoint_proc.more e1 = endpoint_proc.more e"
    using dial_more [of e] by (cases "dial e") simp
  show ?case
  proof (cases r)
    case None
    with d Cons show ?thesis
      by simp
  next
    case (Some c)
    obtain x e2 where h: "performHandshake c e1 = (x, e2)" "endpoint_proc.more e2 = endpoint_proc.more e1"
      using performHandshake_more [of c e1] by (cases "performHandshake c e1") simp
    with d Some Cons show ?thesis
      by (cases x) (auto split: option.splits)
  qed
qed simp

lemma failoverLoop_more: "endpoint_proc.more (snd (failoverLoop n entries e)) = endpoint_proc.more e"
proof (induction n arbitrary: e)
  case (Suc n)
  obtain r e1 where "failoverRound entries e = (r, e1)" "endpoint_proc.more e1 = endpoint_proc.more e"
    using failoverRound_more [of entries e] by (cases "failoverRound entries e") simp
  with Suc show ?case
    by (cases r) (auto split: bool.splits)
qed simp

lemma disconnect_more: "endpoint_proc.more (snd (disconnect e)) = endpoint_proc.more e"
  by (auto simp: disconnect_def Let_def split: option.splits outcome.splits)

lemma reconnect_more: "endpoint_proc.more (snd (reconnect e)) = endpoint_proc.more e"
proof -
  obtain r e1 where d: "disconnect e = (r, e1)" "endpoint_proc.more e1 = endpoint_proc.more e"
    using disconnect_more [of e] by (cases "disconnect e") simp
  moreover have "endpoint_proc.more (snd (if validConfig (ep_config e1) then connectWithFailover (ep_config e1) e1 else connectToServer e1)) =
      endpoint_proc.more e1"
    by (simp add: connectWithFailover_def failoverLoop_more connectToServer_more)
  ultimately show ?thesis
    by (cases r) (simp_all add: reconnect_def Let_def case_prod_unfold)
qed

section \<open>The handshake\<close>

definition identMsg :: "string \<Rightarrow> string \<Rightarrow> u32 \<Rightarrow> Message" where
  "identMsg type name s =
     \<lparr>opcode = RESPONSE, flags = FLAG_RESPONSE, seq = s, payloadLen = 0, mfields = [fieldString NODE_TYPE type, fieldString PROCESS_NAME name]\<rparr>"

definition serverHello :: bytes where
  \<comment> \<open>what a server sends during the handshake: the request to identify and the acknowledgement\<close>
  "serverHello = wireMsg (plainMsg IDENTIFY 0) @ wireMsg (ackMsg True 1)"

lemma ackMsg_no_epoch: "getUint32 (ackMsg b s) EPOCH 0 = 0"
  by (simp add: ackMsg_def accessor_defs fieldBool_def)

lemma fresh_idle: "tx_ready c \<Longrightarrow> idle (newProto c type name) 0 0"
  by (simp add: idle_def newProto_def)

lemma handshake_run:
  assumes "tx_ready c" and "rx_avail c = serverHello @ rest" and "length (ep_type e) \<le> 65535" and "length (ep_name e) \<le> 65535"
  shows "\<exists>c'. performHandshake c e = (if ep_epoch e = 0 then (Inr (Some c'), e) else (Inr None, e)) \<and> rx_avail c' = rest \<and> tx_ready c' \<and>
    tx c' = tx c @ wireMsg (identMsg (ep_type e) (ep_name e) 0)"
proof -
  let ?p = "newProto c (ep_type e) (ep_name e)"
  have p: "idle ?p 0 0" "available ?p = wireMsg (plainMsg IDENTIFY 0) @ wireMsg (ackMsg True 1) @ rest"
    using assms(1,2) fresh_idle by (simp_all add: serverHello_def available_def newProto_def)
  obtain p1 where p1: "receiveAndParse ?p = (plainMsg IDENTIFY 0, p1)" "available p1 = wireMsg (ackMsg True 1) @ rest" "idle p1 1 0" "tx (chan p1) = tx c"
    using idle_receive [OF p(1,2)] plain_ok [of IDENTIFY 0] by (auto simp: newProto_def)
  have fs: "\<forall>f\<in>set [fieldString NODE_TYPE (ep_type e), fieldString PROCESS_NAME (ep_name e)]. wf_field f"
    using assms(3,4) by simp
  obtain p2 where p2: "responseIdent p1 (ep_type e) (ep_name e) = (Inr (), p2)" "sends p1 1 (wireMsg (identMsg (ep_type e) (ep_name e) 0)) p2"
    using sendBuilt_sends [OF _ fs, of p1 RESPONSE FLAG_RESPONSE] p1(3)
    by (auto simp: idle_def responseIdent_def responseIdentity_def identMsg_def)
  have i2: "idle p2 1 1" "available p2 = wireMsg (ackMsg True 1) @ rest" "tx (chan p2) = tx c @ wireMsg (identMsg (ep_type e) (ep_name e) 0)"
    using idle_sends [OF p1(3) p2(2)] sends_simps [OF p2(2)] p1(2,4) by simp_all
  obtain p3 where p3: "receiveAndParse p2 = (ackMsg True 1, p3)" "available p3 = rest" "idle p3 (1 + 1) 1" "tx (chan p3) = tx (chan p2)"
    using idle_receive [OF i2(1,2)] by auto
  have nack: "\<exists>q. sendNackStaleEpoch p3 (ep_epoch e) = (Inr (), q)"
    using sendBuilt_sends [of p3 "[fieldUint32 EPOCH (ep_epoch e)]" NACK_STALE_EPOCH 0] p3(3)
    by (auto simp: idle_def sendNackStaleEpoch_def nackStaleEpochFormat_def)
  have alive: "alive p1" "alive p2" "alive p3"
    using p1(3) i2(1) p3(3) by (simp_all add: idle_def)
  have "performHandshake c e = (if ep_epoch e = 0 then (Inr (Some (chan p3)), e) else (Inr None, e))"
    using p1(1) p2(1) p3(1) nack alive
    by (auto simp: performHandshake_def ackMsg_no_epoch plainMsg_def word_gt_0 Let_def)
  then show ?thesis
    using p3 i2(3) by (intro exI [of _ "chan p3"]) (auto simp: available_def idle_def)
qed

section \<open>Failover\<close>

lemma failoverRound_app:
  "failoverRound (xs @ ys) e = (case failoverRound xs e of (Inr False, e1) \<Rightarrow> failoverRound ys e1 | r \<Rightarrow> r)"
  by (induction xs arbitrary: e) (auto split: prod.splits option.splits sum.splits bool.splits)

lemma failoverLoop_concat:
  "failoverLoop n entries e =
     (case failoverRound (concat (replicate n entries)) e of
        (Inl err, e1) \<Rightarrow> (Inl err, e1) | (Inr True, e1) \<Rightarrow> (Inr (), e1) | (Inr False, e1) \<Rightarrow> (Inl NoServer, e1))"
  by (induction n arbitrary: e) (auto simp: failoverRound_app split: prod.splits sum.splits bool.splits)

lemma failoverRound_reaches:
  assumes "ep_dials e = replicate k None @ Some c # rest" and "k < length entries"
    and "performHandshake c (e\<lparr>ep_dials := rest\<rparr>) = (Inr (Some c'), e2)"
  shows "failoverRound entries e = (Inr True, openSession c' (e2\<lparr>ep_ip := se_ip (entries ! k), ep_port := se_port (entries ! k)\<rparr>))"
  using assms
proof (induction entries arbitrary: k e)
  case (Cons entry entries)
  show ?case
  proof (cases k)
    case 0
    with Cons.prems show ?thesis
      by (simp add: dial_def)
  next
    case (Suc k')
    let ?e = "e\<lparr>ep_dials := replicate k' None @ Some c # rest\<rparr>"
    have "failoverRound entries ?e = (Inr True, openSession c' (e2\<lparr>ep_ip := se_ip (entries ! k'), ep_port := se_port (entries ! k')\<rparr>))"
      using Cons.prems Suc by (intro Cons.IH) simp_all
    with Cons.prems(1) Suc show ?thesis
      by (simp add: dial_def)
  qed
qed simp

lemma nth_concat_replicate:
  "k < n * length xs \<Longrightarrow> concat (replicate n xs) ! k = xs ! (k mod length xs)"
proof (induction n arbitrary: k)
  case (Suc n)
  show ?case
  proof (cases "k < length xs")
    case False
    with Suc.prems have "k - length xs < n * length xs"
      by simp
    from Suc.IH [OF this] False show ?thesis
      by (simp add: nth_append le_mod_geq)
  qed (simp add: nth_append)
qed simp

text \<open>
  C20: failover reaches the first server that answers. However many attempts fail before, as long as they
  are fewer than the configured rounds allow, the endpoint connects to the server whose turn it is when
  a connection comes about and the handshake succeeds, and keeps the address of that server.
\<close>

theorem failover_reaches_server:
  assumes "ep_dials e = replicate k None @ Some c # rest" and "k < nat (max 1 (reconnect_attempts cfg)) * length (servers cfg)"
    and "performHandshake c (e\<lparr>ep_config := cfg, ep_dials := rest\<rparr>) = (Inr (Some c'), e2)"
  shows "let entry = servers cfg ! (k mod length (servers cfg))
         in connectWithFailover cfg e = (Inr (), openSession c' (e2\<lparr>ep_ip := se_ip entry, ep_port := se_port entry\<rparr>)) \<and>
            ep_isAlive (snd (connectWithFailover cfg e))"
proof -
  let ?es = "concat (replicate (nat (max 1 (reconnect_attempts cfg))) (servers cfg))" and ?e = "e\<lparr>ep_config := cfg\<rparr>"
  have k: "k < length ?es"
    using assms(2) by (simp add: length_concat sum_list_replicate)
  have "failoverRound ?es ?e = (Inr True, openSession c' (e2\<lparr>ep_ip := se_ip (?es ! k), ep_port := se_port (?es ! k)\<rparr>))"
    using assms(1,3) by (intro failoverRound_reaches [OF _ k]) simp_all
  then show ?thesis
    using nth_concat_replicate [OF assms(2)]
    by (simp add: connectWithFailover_def failoverLoop_concat Let_def ep_isAlive_def openSession_def peer_isAlive_def newProto_def)
qed

definition demoCluster :: ClusterConfig where
  "demoCluster = defaultConfig\<lparr>servers := [\<lparr>se_name = ''s1'', se_ip = ''10.0.0.1'', se_port = 1\<rparr>, \<lparr>se_name = ''s2'', se_ip = ''10.0.0.2'', se_port = 2\<rparr>],
     reconnect_attempts := 3\<rparr>"

definition demoNode :: "channel option list \<Rightarrow> endpoint_proc" where
  "demoNode dials = (newDataNode ''10.0.0.1'' 1 dials)\<lparr>ep_name := ''n1''\<rparr>"

definition helloChannel :: channel where
  "helloChannel = freshChannel\<lparr>rx := [RecvBytes serverHello]\<rparr>"

lemma hello_ready: "tx_ready helloChannel" "rx_avail helloChannel = serverHello @ []"
  by (simp_all add: helloChannel_def freshChannel_def tx_ready_def rx_avail_def)

theorem failover_reaches_server_witness:
  "ep_ip (snd (connectWithFailover demoCluster (demoNode [None, None, None, Some helloChannel]))) = ''10.0.0.2'' \<and>
   fst (connectWithFailover demoCluster (demoNode [None, None, None, Some helloChannel])) = Inr ()"
proof -
  let ?e = "demoNode [None, None, None, Some helloChannel]"
  have len: "length (ep_type (?e\<lparr>ep_config := demoCluster, ep_dials := []\<rparr>)) \<le> 65535"
      "length (ep_name (?e\<lparr>ep_config := demoCluster, ep_dials := []\<rparr>)) \<le> 65535"
    by (simp_all add: demoNode_def newDataNode_def)
  obtain c' where h: "performHandshake helloChannel (?e\<lparr>ep_config := demoCluster, ep_dials := []\<rparr>) =
      (Inr (Some c'), ?e\<lparr>ep_config := demoCluster, ep_dials := []\<rparr>)"
    using handshake_run [OF hello_ready len] by (auto simp: demoNode_def newDataNode_def)
  have a: "ep_dials ?e = replicate 3 None @ Some helloChannel # []"
      "3 < nat (max 1 (reconnect_attempts demoCluster)) * length (servers demoCluster)"
    by (simp_all add: demoNode_def newDataNode_def demoCluster_def numeral_eq_Suc)
  have "se_ip (servers demoCluster ! (3 mod length (servers demoCluster))) = ''10.0.0.2''"
    by (simp add: demoCluster_def flip: numeral_2_eq_2)
  with failover_reaches_server [OF a h] show ?thesis
    by (simp add: Let_def openSession_def)
qed

lemma performHandshake_dials: "ep_dials (snd (performHandshake c e)) = ep_dials e"
  by (auto simp: performHandshake_def Let_def split: prod.splits sum.splits)

lemma failoverRound_dials:
  "\<exists>k \<le> length entries. ep_dials (snd (failoverRound entries e)) = drop k (ep_dials e)" for e :: "'x endpoint_proc_scheme"
proof (induction entries arbitrary: e)
  case (Cons entry entries)
  obtain d e1 where d: "dial e = (d, e1)" "ep_dials e1 = drop 1 (ep_dials e)"
    by (cases "ep_dials e") (auto simp: dial_def)
  have next1: "\<exists>k \<le> length (entry # entries). ep_dials (snd (failoverRound entries e2)) = drop k (ep_dials e)" if "ep_dials e2 = drop 1 (ep_dials e)" for e2 :: "'x endpoint_proc_scheme"
    using Cons [of e2] that by (auto intro: exI [of _ "Suc _"])
  show ?case
  proof (cases d)
    case None
    with d next1 show ?thesis
      by simp
  next
    case (Some c)
    obtain r e2 where h: "performHandshake c e1 = (r, e2)" "ep_dials e2 = drop 1 (ep_dials e)"
      using performHandshake_dials [of c e1] d(2) by (cases "performHandshake c e1") simp
    have "ep_dials (snd (failoverRound (entry # entries) e)) = drop 1 (ep_dials e) \<or>
        failoverRound (entry # entries) e = failoverRound entries e2"
      using d(1) Some h by (auto simp: openSession_def split: sum.splits option.splits)
    then show ?thesis
      using next1 [OF h(2)] by (auto intro: exI [of _ 1])
  qed
qed simp

text \<open>
  Failover gives up. It makes at most as many connection attempts as the configured number of rounds
  over the configured servers, and it reports failure exactly when no session has been opened.
\<close>

theorem failover_gives_up:
  fixes e :: "'x endpoint_proc_scheme"
  assumes "ep_session e = None"
  shows "(\<exists>k \<le> nat (max 1 (reconnect_attempts cfg)) * length (servers cfg).
       ep_dials (snd (connectWithFailover cfg e)) = drop k (ep_dials e)) \<and>
     (isl (fst (connectWithFailover cfg e)) \<longleftrightarrow> ep_session (snd (connectWithFailover cfg e)) = None)"
proof -
  let ?es = "concat (replicate (nat (max 1 (reconnect_attempts cfg))) (servers cfg))" and ?e = "e\<lparr>ep_config := cfg\<rparr>"
  have len: "length ?es = nat (max 1 (reconnect_attempts cfg)) * length (servers cfg)"
    by (simp add: length_concat sum_list_replicate)
  have hs: "ep_session (snd (performHandshake c e)) = ep_session e" for c and e :: "'x endpoint_proc_scheme"
    by (auto simp: performHandshake_def Let_def split: prod.splits sum.splits)
  have dl: "ep_session (snd (dial e)) = ep_session e" for e :: "'x endpoint_proc_scheme"
    by (simp add: dial_def split: list.splits)
  have sess: "ep_session e = None \<Longrightarrow> fst (failoverRound es e) = Inr True \<longleftrightarrow> ep_session (snd (failoverRound es e)) \<noteq> None" for es and e :: "'x endpoint_proc_scheme"
  proof (induction es arbitrary: e)
    case (Cons x es)
    obtain d e1 where d: "dial e = (d, e1)" "ep_session e1 = None"
      using dl [of e] Cons.prems by (cases "dial e") simp
    show ?case
    proof (cases d)
      case (Some c)
      obtain r e2 where "performHandshake c e1 = (r, e2)" "ep_session e2 = None"
        using hs [of c e1] d(2) by (cases "performHandshake c e1") simp
      with d Some Cons.IH [of e2] show ?thesis
        by (auto simp: openSession_def split: sum.splits option.splits)
    qed (use d Cons.IH [of e1] in simp)
  qed simp
  obtain r e1 where run: "failoverRound ?es ?e = (r, e1)"
    by fastforce
  have "r = Inr True \<longleftrightarrow> ep_session e1 \<noteq> None"
    using sess [of ?e ?es] assms run by simp
  moreover obtain k where "k \<le> length ?es" "ep_dials e1 = drop k (ep_dials e)"
    using failoverRound_dials [of ?es ?e] run by auto
  ultimately show ?thesis
    unfolding len [symmetric] by (cases r) (auto simp: connectWithFailover_def failoverLoop_concat run split: bool.splits)
qed

theorem failover_gives_up_witness:
  "ep_dials (snd (connectWithFailover demoCluster (demoNode (replicate 7 None)))) \<noteq> [] \<and>
   isl (fst (connectWithFailover demoCluster (demoNode (replicate 7 None))))"
proof -
  let ?e = "demoNode (replicate 7 None)"
  have "ep_session ?e = None" "ep_dials ?e = replicate 7 None" "nat (max 1 (reconnect_attempts demoCluster)) * length (servers demoCluster) = 6"
    by (simp_all add: demoNode_def newDataNode_def demoCluster_def)
  moreover have "ep_session (snd (connectWithFailover demoCluster ?e)) = None"
    by (simp add: connectWithFailover_def demoCluster_def demoNode_def newDataNode_def dial_def numeral_eq_Suc)
  ultimately show ?thesis
    using failover_gives_up [of ?e demoCluster] by auto
qed

end
