(* ===== verification/Squid_Client.thy ===== *)
theory Squid_Client
  imports Peer_Connection
begin

text \<open>
  The client library: \<open>client/src/client.cpp\<close>. A client is an endpoint that connects to a server and
  keeps the version of every file it has heard of. Its session has a worker that runs the requests of
  the program and reads the frames the server pushes in between; the program above the client is told
  of pushes by a handler, which is an argument here, with its state in the record.
\<close>

section \<open>State\<close>

record 'a client = endpoint_proc +
  cl_versions :: "(string, int) omap"
  cl_app :: 'a                          \<comment> \<open>what the push handler works on\<close>

type_synonym 'a push_handler = "Message \<Rightarrow> bytes \<Rightarrow> 'a \<Rightarrow> 'a"

definition newClient :: "string \<Rightarrow> int \<Rightarrow> string \<Rightarrow> channel option list \<Rightarrow> 'a \<Rightarrow> 'a client" where
  "newClient ip port name dials app =
     \<lparr>ep_type = ''CLIENT'', ep_name = name, ep_ip = ip, ep_port = port, ep_session = None, ep_epoch = 0,
      ep_config = defaultConfig, ep_dials = dials, cl_versions = [], cl_app = app\<rparr>"

definition clientVersion :: "string \<Rightarrow> 'a client \<Rightarrow> int" where
  "clientVersion path cl = (case om_find (cl_versions cl) path of Some v \<Rightarrow> v | None \<Rightarrow> -1)"

definition setClientVersion :: "string \<Rightarrow> int \<Rightarrow> 'a client \<Rightarrow> 'a client" where
  "setClientVersion path version cl = cl\<lparr>cl_versions := om_put path version (cl_versions cl)\<rparr>"

definition deleteClientVersion :: "string \<Rightarrow> 'a client \<Rightarrow> 'a client" where
  "deleteClientVersion path cl = cl\<lparr>cl_versions := om_erase path (cl_versions cl)\<rparr>"

definition setVersionFromAck :: "string \<Rightarrow> Message \<Rightarrow> 'a client \<Rightarrow> 'a client" where
  "setVersionFromAck path ack cl =
     (if \<not> isAck ack then cl
      else let v = getUint32 ack FILE_VERSION 0xFFFFFFFF
           in if v \<noteq> 0xFFFFFFFF then setClientVersion path (int_of_u32 v) cl else cl)"

section \<open>Pushes\<close>

definition mapSession :: "(peer \<Rightarrow> peer) \<Rightarrow> 'a client \<Rightarrow> 'a client" where
  "mapSession f cl = cl\<lparr>ep_session := map_option f (ep_session cl)\<rparr>"

definition handlePush :: "'a push_handler \<Rightarrow> Message \<Rightarrow> peer \<Rightarrow> 'a client \<Rightarrow> 'a client" where
  \<comment> \<open>on the worker of the session, whose state is the third argument\<close>
  "handlePush h message c cl =
     (let path = getString message FILE_PATH '''';
          cl0 = cl\<lparr>ep_session := Some c\<rparr>;
          tell = (\<lambda>content cl. cl\<lparr>cl_app := h message content (cl_app cl)\<rparr>)
      in if opcode message = PUSH_CREATE_FILE \<or> opcode message = PUSH_UPDATE_FILE then
           (let (_, content, p1) = receiveFileData (p_end c) [];
                version = int_of_u32 (getUint32 message FILE_VERSION 0);
                cl1 = cl\<lparr>ep_session := Some (c\<lparr>p_end := p1\<rparr>)\<rparr>;
                cl2 = (if path \<noteq> [] then setClientVersion path version cl1 else cl1)
            in tell content cl2)
         else if opcode message = PUSH_DELETE_FILE then
           (let cl1 = tell [] cl0 in if path \<noteq> [] then deleteClientVersion path cl1 else cl1)
         else if opcode message = RELEASE_LOCK then tell [] cl0
         else if opcode message = HEARTBEAT then cl\<lparr>ep_session := Some (c\<lparr>p_posts := p_posts c @ [PostAck]\<rparr>)\<rparr>
         else if opcode message = CLOSE then cl\<lparr>ep_session := Some (peer_setIsAlive False c)\<rparr>
         else if opcode message = NACK_STALE_EPOCH then tell [] (cl\<lparr>ep_session := Some (peer_setIsAlive False c)\<rparr>)
         else cl0)"

definition workerRead :: "'a push_handler \<Rightarrow> 'a client \<Rightarrow> 'a client" where
  \<comment> \<open>the worker reads one frame, if it is still there to do so, and looks at its loop condition\<close>
  "workerRead h cl =
     (case ep_session cl of
        None \<Rightarrow> cl
      | Some c \<Rightarrow>
          if \<not> p_run c then cl
          else let (m, p1) = receiveAndParse (p_end c)
               in if \<not> alive p1 then cl\<lparr>ep_session := Some (c\<lparr>p_run := False, p_end := p1\<rparr>)\<rparr>
                  else mapSession (\<lambda>c. c\<lparr>p_run := p_run c \<and> alive (p_end c)\<rparr>) (handlePush h m (c\<lparr>p_end := p1\<rparr>) cl))"

fun workerReads :: "'a push_handler \<Rightarrow> nat \<Rightarrow> 'a client \<Rightarrow> 'a client" where
  "workerReads h 0 cl = cl"
| "workerReads h (Suc n) cl = workerReads h n (workerRead h cl)"

section \<open>Requests\<close>

definition onSession :: "(proto \<Rightarrow> (frame_error + 'b) \<times> proto) \<Rightarrow> 'a client \<Rightarrow> 'b option outcome \<times> 'a client" where
  \<comment> \<open>a call on the session; without a session nothing happens\<close>
  "onSession fn cl =
     (case ep_session cl of
        None \<Rightarrow> (Returned None, cl)
      | Some c \<Rightarrow> (let (r, c') = peer_call fn c; cl1 = cl\<lparr>ep_session := Some c'\<rparr>
                  in (case r of Returned x \<Rightarrow> Returned (Some x) | Threw e \<Rightarrow> Threw e | Blocked \<Rightarrow> Blocked, cl1)))"

definition messageOr :: "Message option \<Rightarrow> Message" where
  \<comment> \<open>\<open>return {}\<close> without a session\<close>
  "messageOr r = (case r of None \<Rightarrow> emptyMessage | Some m \<Rightarrow> m)"

definition client_syncStatus :: "'a client \<Rightarrow> Message outcome \<times> 'a client" where
  "client_syncStatus cl =
     bindO (onSession syncStatus cl) (\<lambda>r cl1.
       let response = messageOr r
       in if r = None \<or> \<not> isResponse response then (Returned response, cl1)
          else (Returned response, cl1\<lparr>cl_versions := fold (\<lambda>(p, v). om_put p v) (getFileVersionMap response) (cl_versions cl1)\<rparr>))"

definition ensureConnected :: "'a client \<Rightarrow> bool outcome \<times> 'a client" where
  \<comment> \<open>a failure to connect is logged, a failure of the status request is not caught\<close>
  "ensureConnected cl =
     (if ep_isAlive cl then (Returned True, cl)
      else case reconnect cl of
             (Blocked, cl1) \<Rightarrow> (Blocked, cl1)
           | (Threw _, cl1) \<Rightarrow> (Returned False, cl1)
           | (Returned (Inl _), cl1) \<Rightarrow> (Returned False, cl1)
           | (Returned (Inr _), cl1) \<Rightarrow>
               if \<not> ep_isAlive cl1 then (Returned False, cl1)
               else bindO (client_syncStatus cl1) (\<lambda>_ cl2. (Returned True, cl2)))"

definition rpc :: "'a push_handler \<Rightarrow> nat \<Rightarrow> (proto \<Rightarrow> (frame_error + 'b) \<times> proto) \<Rightarrow> 'a client \<Rightarrow> 'b option outcome \<times> 'a client" where
  \<comment> \<open>the worker may read some frames between the check of the session and the call\<close>
  "rpc h n fn cl =
     bindO (ensureConnected cl) (\<lambda>ok cl1. if \<not> ok then (Returned None, cl1) else onSession fn (workerReads h n cl1))"

definition client_createFile :: "'a push_handler \<Rightarrow> nat \<Rightarrow> string \<Rightarrow> bytes \<Rightarrow> int \<Rightarrow> 'a client \<Rightarrow> Message outcome \<times> 'a client" where
  "client_createFile h n path content version cl =
     bindO (rpc h n (\<lambda>p. proto_createFileData p path version content) cl) (\<lambda>r cl1.
       (Returned (messageOr r), setVersionFromAck path (messageOr r) cl1))"

definition client_readFile :: "'a push_handler \<Rightarrow> nat \<Rightarrow> string \<Rightarrow> 'a client \<Rightarrow> (Message \<times> bytes) outcome \<times> 'a client" where
  \<comment> \<open>into an empty vector\<close>
  "client_readFile h n path cl =
     bindO (rpc h n (\<lambda>p. proto_readFile p path []) cl) (\<lambda>r cl1.
       case r of None \<Rightarrow> (Returned (emptyMessage, []), cl1) | Some (ack, content) \<Rightarrow> (Returned (ack, content), setVersionFromAck path ack cl1))"

definition client_updateFile :: "'a push_handler \<Rightarrow> nat \<Rightarrow> string \<Rightarrow> bytes \<Rightarrow> int \<Rightarrow> 'a client \<Rightarrow> Message outcome \<times> 'a client" where
  "client_updateFile h n path content version cl =
     bindO (rpc h n (\<lambda>p. proto_updateFileData p path version content) cl) (\<lambda>r cl1.
       (Returned (messageOr r), setVersionFromAck path (messageOr r) cl1))"

definition client_deleteFile :: "'a push_handler \<Rightarrow> nat \<Rightarrow> string \<Rightarrow> 'a client \<Rightarrow> Message outcome \<times> 'a client" where
  "client_deleteFile h n path cl =
     bindO (rpc h n (\<lambda>p. proto_deleteFile p path) cl) (\<lambda>r cl1.
       (Returned (messageOr r), if isAck (messageOr r) then deleteClientVersion path cl1 else cl1))"

definition client_acquireLock :: "'a push_handler \<Rightarrow> nat \<Rightarrow> string \<Rightarrow> 'a client \<Rightarrow> Message outcome \<times> 'a client" where
  "client_acquireLock h n path cl = bindO (rpc h n (\<lambda>p. proto_acquireLock p path) cl) (\<lambda>r cl1. (Returned (messageOr r), cl1))"

definition client_releaseLock :: "'a push_handler \<Rightarrow> nat \<Rightarrow> string \<Rightarrow> 'a client \<Rightarrow> Message outcome \<times> 'a client" where
  "client_releaseLock h n path cl = bindO (rpc h n (\<lambda>p. proto_releaseLock p path) cl) (\<lambda>r cl1. (Returned (messageOr r), cl1))"

definition client_heartbeat :: "'a client \<Rightarrow> Message outcome \<times> 'a client" where
  "client_heartbeat cl = bindO (onSession proto_heartbeat cl) (\<lambda>r cl1. (Returned (messageOr r), cl1))"

section \<open>A client with a healthy session\<close>

definition ready :: "'a client \<Rightarrow> peer \<Rightarrow> u32 \<Rightarrow> u32 \<Rightarrow> bool" where
  \<comment> \<open>connected, between two requests; the numbers of the frames it expects and sends next\<close>
  "ready cl c n s \<longleftrightarrow> ep_session cl = Some c \<and> p_run c \<and> p_posts c = [] \<and> idle (p_end c) n s"

lemma ready_rpc:
  assumes "ready cl c n s" and "fn (p_end c) = (Inr x, p)"
  shows "rpc h 0 fn cl = (Returned (Some x), cl\<lparr>ep_session := Some (c\<lparr>p_run := alive p, p_end := p, p_posts := []\<rparr>)\<rparr>)"
  using assms by (simp add: rpc_def ready_def ensureConnected_def ep_isAlive_def peer_isAlive_def idle_def onSession_def peer_call_def
      outcome_of_def)

lemma ready_after:
  "ready cl c n s \<Longrightarrow> idle p n' s' \<Longrightarrow> ready (cl\<lparr>ep_session := Some (c\<lparr>p_run := alive p, p_end := p, p_posts := []\<rparr>)\<rparr>)
     (c\<lparr>p_run := alive p, p_end := p, p_posts := []\<rparr>) n' s'"
  by (simp add: ready_def idle_def)

lemma ready_workerRead:
  assumes "ready cl c n s" and "available (p_end c) = wireMsg m @ rest" and "wf_msg m" and "seq m = n"
  shows "\<exists>p. workerRead h cl = mapSession (\<lambda>c. c\<lparr>p_run := p_run c \<and> alive (p_end c)\<rparr>) (handlePush h m (c\<lparr>p_end := p\<rparr>) cl) \<and>
    available p = rest \<and> idle p (n + 1) s"
proof -
  obtain p where "receiveAndParse (p_end c) = (m, p)" "available p = rest" "idle p (n + 1) s"
    using idle_receive [OF _ assms(2-4)] assms(1) by (auto simp: ready_def)
  with assms(1) show ?thesis
    by (auto simp: workerRead_def ready_def idle_def)
qed

text \<open>A push of a file: the frame and the content.\<close>

definition pushBytes :: "Opcode \<Rightarrow> string \<Rightarrow> int \<Rightarrow> bytes \<Rightarrow> u32 \<Rightarrow> bytes" where
  "pushBytes op path v content n = wireMsg (versionMsg op path v n) @ wireFile content"

lemma ready_push:
  assumes "ready cl c n s" and "available (p_end c) = pushBytes op path v content n @ rest"
    and "op = PUSH_CREATE_FILE \<or> op = PUSH_UPDATE_FILE" and "length path \<le> 65535" and "path \<noteq> []"
    and "length content \<le> unat FILETRANSFER_MAX_SIZE" and "int_range v"
  shows "\<exists>c'. let cl' = workerRead h cl in
    ready cl' c' (n + 1) s \<and> available (p_end c') = rest \<and> cl_versions cl' = om_put path v (cl_versions cl) \<and>
    cl_app cl' = h (versionMsg op path v n) content (cl_app cl)"
proof -
  let ?m = "versionMsg op path v n"
  have m: "wf_msg ?m" "seq ?m = n" "available (p_end c) = wireMsg ?m @ wireFile content @ rest"
    using assms(2-4) by (auto simp: pushBytes_def)
  obtain p where p: "workerRead h cl = mapSession (\<lambda>c. c\<lparr>p_run := p_run c \<and> alive (p_end c)\<rparr>) (handlePush h ?m (c\<lparr>p_end := p\<rparr>) cl)"
    "available p = wireFile content @ rest" "idle p (n + 1) s"
    using ready_workerRead [OF assms(1) m(3,1,2)] by blast
  obtain p1 where "receiveFileData p [] = (True, content, p1)" "available p1 = rest" "idle p1 (n + 1) s"
    using receiveFileData_spec [OF p(3), of "[]"] parseTransfer_wireFile [OF assms(6), of rest] p(2) by auto
  with p(1) assms(1,3,5,7) show ?thesis
    by (intro exI [of _ "c\<lparr>p_end := p1\<rparr>"])
      (auto simp: handlePush_def mapSession_def setClientVersion_def ready_def idle_def Let_def)
qed

lemma request_answered:
  assumes "idle S n s" and "length path \<le> 65535" and "wf_msg m" and "seq m = n" and "available S = wireMsg m @ rest"
  shows "\<exists>S'. request S (buildFrame op 0 [fieldString FILE_PATH path] 0) receiveAndParse = (Inr m, S') \<and> idle S' (n + 1) (s + 1) \<and>
    available S' = rest \<and> tx (chan S') = tx (chan S) @ wireMsg (pathMsg op path s)"
proof -
  obtain S1 where S1: "sendBuilt S (buildFrame op 0 [fieldString FILE_PATH path] 0) = (Inr (), S1)" "sends S 1 (wireMsg (pathMsg op path s)) S1"
    using sendBuilt_sends [of S "[fieldString FILE_PATH path]" op 0] assms(1,2) by (auto simp: idle_def pathMsg_def)
  have "idle S1 n (s + 1)" "available S1 = wireMsg m @ rest" "tx (chan S1) = tx (chan S) @ wireMsg (pathMsg op path s)"
    using idle_sends [OF assms(1) S1(2)] sends_simps [OF S1(2)] assms(5) by simp_all
  with idle_receive [OF this(1,2) assms(3,4)] S1(1) show ?thesis
    by (auto simp: request_def)
qed

lemma ready_lock:
  assumes "ready cl c n s" and "length path \<le> 65535" and "wf_msg m" and "seq m = n" and "available (p_end c) = wireMsg m @ rest"
  shows "\<exists>cl' c'. client_acquireLock h 0 path cl = (Returned m, cl') \<and> ready cl' c' (n + 1) (s + 1) \<and> available (p_end c') = rest \<and>
    cl_versions cl' = cl_versions cl \<and> cl_app cl' = cl_app cl"
proof -
  obtain p where p: "proto_acquireLock (p_end c) path = (Inr m, p)" "idle p (n + 1) (s + 1)" "available p = rest"
    using request_answered [OF _ assms(2-5), of s ACQUIRE_LOCK] assms(1) by (auto simp: proto_acquireLock_def acquireLockFormat_def ready_def)
  with ready_rpc [OF assms(1), of "\<lambda>p. proto_acquireLock p path" m p h] ready_after [OF assms(1) p(2)] show ?thesis
    by (auto simp: client_acquireLock_def messageOr_def)
qed

text \<open>
  A push that arrives while a request waits is taken for its answer. When the server has sent the
  notice of a deletion before it grants a lock, the request for the lock returns that notice, which is
  no acknowledgement; neither the version map nor the program above hears of the deletion; and the
  grant stays unread and acknowledges the next request, whatever file that is for.
\<close>

theorem push_taken_for_answer:
  assumes "ready cl c n s" and "available (p_end c) = wireMsg (pathMsg PUSH_DELETE_FILE q n) @ wireMsg (ackMsg True (n + 1))"
    and "length q \<le> 65535" and "length path \<le> 65535" and "length path' \<le> 65535"
  shows "\<exists>cl1 m cl2. client_acquireLock h 0 path cl = (Returned m, cl1) \<and> \<not> isAck m \<and>
    cl_versions cl1 = cl_versions cl \<and> cl_app cl1 = cl_app cl \<and>
    client_acquireLock h 0 path' cl1 = (Returned (ackMsg True (n + 1)), cl2)"
proof -
  have m: "wf_msg (pathMsg PUSH_DELETE_FILE q n)" "seq (pathMsg PUSH_DELETE_FILE q n) = n"
    using assms(3) by simp_all
  have not: "\<not> isAck (pathMsg PUSH_DELETE_FILE q n)"
    by (simp add: pathMsg_def accessor_defs)
  obtain cl1 c1 where cl1: "client_acquireLock h 0 path cl = (Returned (pathMsg PUSH_DELETE_FILE q n), cl1)"
    "ready cl1 c1 (n + 1) (s + 1)" "available (p_end c1) = wireMsg (ackMsg True (n + 1)) @ []"
    "cl_versions cl1 = cl_versions cl" "cl_app cl1 = cl_app cl"
    using ready_lock [OF assms(1,4) m assms(2), of h] by auto
  from ready_lock [OF cl1(2) assms(5) _ _ cl1(3), of h] obtain cl2 where
    "client_acquireLock h 0 path' cl1 = (Returned (ackMsg True (n + 1)), cl2)"
    by auto
  with cl1 not show ?thesis
    by blast
qed

definition demoClient :: "bytes \<Rightarrow> 'a \<Rightarrow> 'a client" where
  \<comment> \<open>a client that has just connected, with some bytes on their way to it\<close>
  "demoClient bs app = (newClient ''127.0.0.1'' 12345 ''c'' [] app)\<lparr>ep_session :=
     Some \<lparr>p_name = ''c'', p_run = True, p_end = receiving (newProto freshChannel ''CLIENT'' ''c'') bs, p_posts = [], p_suspended = False\<rparr>\<rparr>"

lemma demoClient_ready:
  "\<exists>c. ready (demoClient bs app) c 0 0 \<and> available (p_end c) = bs \<and> ep_session (demoClient bs app) = Some c"
  "cl_app (demoClient bs app) = app" "cl_versions (demoClient bs app) = []"
proof -
  let ?p = "newProto freshChannel ''CLIENT'' ''c''"
  have rest: "at_rest ?p 0 0"
    by (simp add: at_rest_def idle_def newProto_def freshChannel_def tx_ready_def available_def rx_avail_def)
  then have "idle (receiving ?p bs) 0 0" "available (receiving ?p bs) = bs"
    using available_receiving [OF rest] by (simp_all add: at_rest_def)
  then show "\<exists>c. ready (demoClient bs app) c 0 0 \<and> available (p_end c) = bs \<and> ep_session (demoClient bs app) = Some c"
    by (simp add: demoClient_def ready_def)
qed (simp_all add: demoClient_def newClient_def)

theorem push_taken_for_answer_witness:
  "\<exists>cl1 m cl2. client_acquireLock (\<lambda>_ _ x. x) 0 ''a''
       (demoClient (wireMsg (pathMsg PUSH_DELETE_FILE ''b'' 0) @ wireMsg (ackMsg True 1)) ()) = (Returned m, cl1) \<and> \<not> isAck m \<and>
     client_acquireLock (\<lambda>_ _ x. x) 0 ''c'' cl1 = (Returned (ackMsg True 1), cl2)"
proof -
  obtain c where "ready (demoClient (wireMsg (pathMsg PUSH_DELETE_FILE ''b'' 0) @ wireMsg (ackMsg True 1)) ()) c 0 0"
    "available (p_end c) = wireMsg (pathMsg PUSH_DELETE_FILE ''b'' 0) @ wireMsg (ackMsg True (0 + 1))"
    using demoClient_ready(1) by fastforce
  from push_taken_for_answer [OF this, of "''a''" "''c''" "\<lambda>_ _ x. x"] show ?thesis
    by auto
qed

lemma ready_read:
  assumes "ready cl c n s" and "length path \<le> 65535" and "length content \<le> unat FILETRANSFER_MAX_SIZE"
    and "available (p_end c) = readBytesOnWire content v n"
  shows "\<exists>cl' c'. client_readFile h 0 path cl = (Returned (ackVersionMsg True v (n + 1), content), cl') \<and>
    ready cl' c' (n + 2) (s + 1) \<and> available (p_end c') = [] \<and> cl_app cl' = cl_app cl"
proof -
  have av: "available (p_end c) = take (length (readBytesOnWire content v n)) (readBytesOnWire content v n)"
    using assms(4) by simp
  obtain p where p: "proto_readFile (p_end c) path [] = (Inr (ackVersionMsg True v (n + 1), content), p)" "at_rest p (n + 2) (s + 1)"
    using caller_read [OF _ assms(2,3) av, of s "[]"] assms(1) by (auto simp: ready_def)
  have "ready (setVersionFromAck path m (cl\<lparr>ep_session := x\<rparr>)) c' n' s' = ready (cl\<lparr>ep_session := x\<rparr>) c' n' s'"
      "cl_app (setVersionFromAck path m (cl\<lparr>ep_session := x\<rparr>)) = cl_app cl" for m x c' n' s'
    by (simp_all add: setVersionFromAck_def setClientVersion_def ready_def Let_def)
  with p ready_rpc [OF assms(1), of "\<lambda>p. proto_readFile p path []" "(ackVersionMsg True v (n + 1), content)" p h]
    ready_after [OF assms(1), of p "n + 2" "s + 1"] show ?thesis
    by (auto simp: client_readFile_def at_rest_def)
qed

section \<open>What the program above the client can lose to pushes\<close>

lemma client_more: "endpoint_proc.more cl' = endpoint_proc.more cl \<Longrightarrow> cl_app cl' = cl_app cl \<and> cl_versions cl' = cl_versions cl"
  by (cases cl; cases cl') simp

lemma onSession_app: "cl_app (snd (onSession fn cl)) = cl_app cl"
  by (auto simp: onSession_def Let_def split: option.splits prod.splits)

lemma client_syncStatus_app: "cl_app (snd (client_syncStatus cl)) = cl_app cl"
proof -
  obtain r cl1 where "onSession syncStatus cl = (r, cl1)" "cl_app cl1 = cl_app cl"
    using onSession_app [of syncStatus cl] by (cases "onSession syncStatus cl") simp
  then show ?thesis
    by (cases r) (auto simp: client_syncStatus_def Let_def)
qed

lemma ensureConnected_app: "cl_app (snd (ensureConnected cl)) = cl_app cl"
proof -
  obtain r cl1 where r: "reconnect cl = (r, cl1)" "cl_app cl1 = cl_app cl"
    using client_more [OF reconnect_more [of cl]] by (cases "reconnect cl") simp
  obtain q cl2 where "client_syncStatus cl1 = (q, cl2)" "cl_app cl2 = cl_app cl1"
    using client_syncStatus_app [of cl1] by (cases "client_syncStatus cl1") simp
  with r show ?thesis
    by (cases q) (auto simp: ensureConnected_def split: outcome.splits sum.splits)
qed

text \<open>
  What a push handler guarantees: a relation between the states of the program that every push keeps,
  and with it everything the worker does during a request.
\<close>

locale push_effect =
  fixes h :: "'a push_handler" and R :: "'a \<Rightarrow> 'a \<Rightarrow> bool"
  assumes R_refl: "R x x" and R_trans: "R x y \<Longrightarrow> R y z \<Longrightarrow> R x z" and push: "R x (h m content x)"
begin

lemma workerRead_app: "R (cl_app cl) (cl_app (workerRead h cl))"
proof -
  have "R (cl_app cl) (cl_app (handlePush h m c cl))" for m c
    using push R_refl
    by (auto simp: handlePush_def setClientVersion_def deleteClientVersion_def Let_def split: prod.splits)
  then show ?thesis
    using R_refl by (auto simp: workerRead_def mapSession_def split: option.splits prod.splits)
qed

lemma workerReads_app: "R (cl_app cl) (cl_app (workerReads h n cl))"
proof (induction n arbitrary: cl)
  case (Suc n)
  from R_trans [OF workerRead_app Suc] show ?case
    by simp
qed (simp add: R_refl)

lemma rpc_app: "R (cl_app cl) (cl_app (snd (rpc h n fn cl)))"
proof -
  have "R (cl_app cl) (cl_app cl1)" if "cl1 = snd (ensureConnected cl)" for cl1
    using that ensureConnected_app [of cl] R_refl by simp
  then show ?thesis
    unfolding rpc_def
    by (intro bindO_snd [where P = "\<lambda>c. R (cl_app cl) (cl_app c)"]) (auto simp: onSession_app intro: R_trans workerReads_app)
qed

lemma setVersionFromAck_app [simp]: "cl_app (setVersionFromAck path m (cl :: 'a client)) = cl_app cl"
  by (simp add: setVersionFromAck_def setClientVersion_def Let_def)

lemma request_app:
  assumes "\<And>x cl1. cl_app (snd (k x cl1)) = cl_app cl1"
  shows "R (cl_app cl) (cl_app (snd (bindO (rpc h n fn cl) k)))"
  using rpc_app [of cl n fn] by (intro bindO_snd [where P = "\<lambda>c. R (cl_app cl) (cl_app c)"]) (auto simp: assms)

lemma requests_app:
  "R (cl_app cl) (cl_app (snd (client_createFile h n path content v cl)))"
  "R (cl_app cl) (cl_app (snd (client_readFile h n path cl)))"
  "R (cl_app cl) (cl_app (snd (client_updateFile h n path content v cl)))"
  "R (cl_app cl) (cl_app (snd (client_deleteFile h n path cl)))"
  "R (cl_app cl) (cl_app (snd (client_acquireLock h n path cl)))"
  "R (cl_app cl) (cl_app (snd (client_releaseLock h n path cl)))"
  unfolding client_createFile_def client_readFile_def client_updateFile_def client_deleteFile_def client_acquireLock_def client_releaseLock_def
  by (intro request_app; auto simp: deleteClientVersion_def split: option.splits)+

end

end
