(* ===== verification/Squid_FS.thy ===== *)
theory Squid_FS
  imports Squid_Client
begin

text \<open>
  The file system clients mount: \<open>client/src/squidfs.cpp\<close>. Open files live in a cache, which the
  operations and the handler of the pushes of the server share under one mutex. The operations come
  one at a time, since the file system runs a single-threaded loop; the worker of the session runs
  beside them, and can change the cache whenever an operation drops the mutex for a request to the
  server. An operation has as an argument how many pushes the worker handles in each such window,
  before and after the request itself.
\<close>

section \<open>State\<close>

record CacheEntry =
  ce_data :: bytes
  ce_dirty :: bool
  ce_lockCount :: int
  ce_openCount :: int
  ce_version :: int

type_synonym cache = "(string, CacheEntry) omap"

record FileHandle =
  fh_path :: string
  fh_writable :: bool

record fs =
  f_client :: "cache client"
  f_dirs :: "string oset"

definition newEntry :: CacheEntry where
  "newEntry = \<lparr>ce_data = [], ce_dirty = False, ce_lockCount = 0, ce_openCount = 0, ce_version = 0\<rparr>"

abbreviation f_cache :: "fs \<Rightarrow> cache" where
  "f_cache f \<equiv> cl_app (f_client f)"

definition setCache :: "(cache \<Rightarrow> cache) \<Rightarrow> fs \<Rightarrow> fs" where
  "setCache g f = f\<lparr>f_client := (f_client f)\<lparr>cl_app := g (f_cache f)\<rparr>\<rparr>"

definition entryOf :: "string \<Rightarrow> cache \<Rightarrow> CacheEntry" where
  \<comment> \<open>what \<open>cache_[r]\<close> refers to\<close>
  "entryOf r c = (case om_find c r of None \<Rightarrow> newEntry | Some e \<Rightarrow> e)"

definition touch :: "string \<Rightarrow> fs \<Rightarrow> fs" where
  \<comment> \<open>\<open>cache_[r]\<close> makes an entry when there is none\<close>
  "touch r = setCache (\<lambda>c. om_put r (entryOf r c) c)"

definition evictIfClosed :: "string \<Rightarrow> fs \<Rightarrow> fs" where
  "evictIfClosed r f =
     (case om_find (f_cache f) r of
        Some e \<Rightarrow> if ce_openCount e = 0 then setCache (om_erase r) f else f
      | None \<Rightarrow> f)"

definition pushCache :: "cache push_handler" where
  \<comment> \<open>a dirty entry is left to the coming release\<close>
  "pushCache msg content c =
     (let path = getString msg FILE_PATH ''''; version = int_of_u32 (getUint32 msg FILE_VERSION 0)
      in if opcode msg = PUSH_CREATE_FILE \<or> opcode msg = PUSH_UPDATE_FILE then
           (let entry = entryOf path c
            in om_put path (if ce_dirty entry then entry else entry\<lparr>ce_data := content, ce_version := version\<rparr>) c)
         else if opcode msg = PUSH_DELETE_FILE then om_erase path c
         else c)"

section \<open>Names\<close>

definition rel :: "string \<Rightarrow> string" where
  "rel path = (case path of [] \<Rightarrow> [] | ch # rest \<Rightarrow> if ch = CHR ''/'' then rest else path)"

definition dirPrefix :: "string \<Rightarrow> string" where
  "dirPrefix dirRel = (if dirRel = [] then [] else dirRel @ ''/'')"

definition below :: "string \<Rightarrow> string \<Rightarrow> string option" where
  \<comment> \<open>the rest of a path under a directory\<close>
  "below dirRel path =
     (let n = length (dirPrefix dirRel) in if take n path = dirPrefix dirRel then Some (drop n path) else None)"

definition dirChild :: "string \<Rightarrow> string \<Rightarrow> string option" where
  \<comment> \<open>a created directory directly under the given one\<close>
  "dirChild dirRel d =
     (if d = dirRel then None
      else case below dirRel d of
             None \<Rightarrow> None
           | Some rest \<Rightarrow> if CHR ''/'' \<in> set rest then None else Some (rest @ ''/''))"

definition fileChild :: "string \<Rightarrow> string \<Rightarrow> string option" where
  \<comment> \<open>the name of a file, or the first component of the way to it with a slash\<close>
  "fileChild dirRel path =
     map_option (\<lambda>rest. if CHR ''/'' \<in> set rest then takeWhile (\<lambda>ch. ch \<noteq> CHR ''/'') rest @ ''/'' else rest) (below dirRel path)"

definition listChildren :: "string \<Rightarrow> fs \<Rightarrow> string oset" where
  "listChildren dirRel f =
     fold os_insert (List.map_filter (fileChild dirRel) (om_keys (cl_versions (f_client f))))
       (fold os_insert (List.map_filter (dirChild dirRel) (f_dirs f)) [])"

definition isKnownDir :: "string \<Rightarrow> fs \<Rightarrow> bool" where
  "isKnownDir dirRel f \<longleftrightarrow>
     dirRel \<in> set (f_dirs f) \<or>
     list_ex (\<lambda>path. length path > length dirRel + 1 \<and> take (length dirRel + 1) path = dirRel @ ''/'') (om_keys (cl_versions (f_client f)))"

section \<open>Error numbers\<close>

definition ENOENT :: int where "ENOENT = 2"
definition EIO :: int where "EIO = 5"
definition EBADF :: int where "EBADF = 9"
definition EACCES :: int where "EACCES = 13"
definition EEXIST :: int where "EEXIST = 17"
definition EISDIR :: int where "EISDIR = 21"
definition EINVAL :: int where "EINVAL = 22"
definition ENOTEMPTY :: int where "ENOTEMPTY = 39"

lemmas errnos = ENOENT_def EIO_def EBADF_def EACCES_def EEXIST_def EISDIR_def EINVAL_def ENOTEMPTY_def

definition castInt :: "nat \<Rightarrow> int" where
  \<comment> \<open>\<open>static_cast<int>\<close> of a size\<close>
  "castInt n = int_of_u32 (word_of_nat n)"

section \<open>Directories\<close>

datatype attr = Directory | Regular nat

definition op_getattr :: "string \<Rightarrow> fs \<Rightarrow> int \<times> attr option" where
  "op_getattr path f =
     (if path = ''/'' then (0, Some Directory)
      else case om_find (f_cache f) (rel path) of
             Some e \<Rightarrow> (0, Some (Regular (length (ce_data e))))
           | None \<Rightarrow>
               if isKnownDir (rel path) f then (0, Some Directory)
               else if clientVersion (rel path) (f_client f) < 0 then (- ENOENT, None)
               else (0, Some (Regular 0)))"

definition stripSlash :: "string \<Rightarrow> string" where
  "stripSlash child = (if child \<noteq> [] \<and> last child = CHR ''/'' then butlast child else child)"

definition op_readdir :: "string \<Rightarrow> fs \<Rightarrow> int \<times> string list" where
  "op_readdir path f =
     (if rel path \<noteq> [] \<and> \<not> isKnownDir (rel path) f then (- ENOENT, [])
      else (0, ''.'' # ''..'' # map stripSlash (listChildren (rel path) f)))"

definition parentOf :: "string \<Rightarrow> string option" where
  \<comment> \<open>up to the last slash\<close>
  "parentOf r = (if CHR ''/'' \<in> set r then Some (rev (tl (dropWhile (\<lambda>ch. ch \<noteq> CHR ''/'') (rev r)))) else None)"

definition op_mkdir :: "string \<Rightarrow> fs \<Rightarrow> int \<times> fs" where
  "op_mkdir path f =
     (let r = rel path
      in if r = [] then (0, f)
         else if clientVersion r (f_client f) \<ge> 0 then (- EEXIST, f)
         else if (case parentOf r of None \<Rightarrow> False | Some parent \<Rightarrow> \<not> isKnownDir parent f) then (- ENOENT, f)
         else (0, f\<lparr>f_dirs := os_insert r (f_dirs f)\<rparr>))"

definition op_rmdir :: "string \<Rightarrow> fs \<Rightarrow> int \<times> fs" where
  "op_rmdir path f =
     (if \<not> isKnownDir (rel path) f then (- ENOENT, f)
      else if listChildren (rel path) f \<noteq> [] then (- ENOTEMPTY, f)
      else (0, f))"

section \<open>Requests to the server\<close>

type_synonym window = "nat \<times> nat"   \<comment> \<open>pushes handled before and after a request\<close>

definition remote :: "window \<Rightarrow> (cache push_handler \<Rightarrow> nat \<Rightarrow> cache client \<Rightarrow> 'b outcome \<times> cache client) \<Rightarrow> fs \<Rightarrow> 'b outcome \<times> fs" where
  "remote w req f =
     bindO (let (r, cl) = req pushCache (fst w) (f_client f) in (r, f\<lparr>f_client := cl\<rparr>))
       (\<lambda>x f1. (Returned x, f1\<lparr>f_client := workerReads pushCache (snd w) (f_client f1)\<rparr>))"

definition fetchIntoCache :: "window \<Rightarrow> string \<Rightarrow> fs \<Rightarrow> int outcome \<times> fs" where
  "fetchIntoCache w r f =
     bindO (remote w (\<lambda>h n. client_readFile h n r) f) (\<lambda>(ack, content) f1.
       if \<not> isAck ack then (Returned (- EIO), f1)
       else (Returned 0, setCache (\<lambda>c. om_put r ((entryOf r c)\<lparr>ce_data := content, ce_version := int_of_u32 (getUint32 ack FILE_VERSION 0),
                                                             ce_dirty := False\<rparr>) c) f1))"

section \<open>Opening and closing\<close>

definition lockForWriting :: "window \<Rightarrow> string \<Rightarrow> bool \<Rightarrow> fs \<Rightarrow> int outcome \<times> fs" where
  \<comment> \<open>the first handle that may write takes the lock of the server\<close>
  "lockForWriting w r writable f =
     (if writable \<and> ce_lockCount (entryOf r (f_cache f)) = 0 then
        bindO (remote w (\<lambda>h n. client_acquireLock h n r) f) (\<lambda>ack f1.
          if \<not> isAck ack then (Returned (- EACCES), evictIfClosed r f1)
          else if \<not> om_has (f_cache f1) r then (Returned (- EIO), f1)
          else (Returned 0, f1))
      else (Returned 0, f))"

definition fetchIfClosed :: "window \<Rightarrow> window \<Rightarrow> string \<Rightarrow> bool \<Rightarrow> fs \<Rightarrow> int outcome \<times> fs" where
  "fetchIfClosed w w' r writable f =
     (if ce_openCount (entryOf r (f_cache f)) = 0 then
        bindO (fetchIntoCache w r f) (\<lambda>rc f1.
          if rc = 0 then (Returned 0, f1)
          else bindO (if writable then remote w' (\<lambda>h n. client_releaseLock h n r) f1 else (Returned emptyMessage, f1)) (\<lambda>_ f2.
                 (Returned rc, evictIfClosed r f2)))
      else (Returned 0, f))"

definition countOpen :: "bool \<Rightarrow> bool \<Rightarrow> CacheEntry \<Rightarrow> CacheEntry" where
  "countOpen writable trunc e =
     (let e1 = (if trunc \<and> writable then e\<lparr>ce_data := [], ce_dirty := True\<rparr> else e);
          e2 = (if writable then e1\<lparr>ce_lockCount := ce_lockCount e1 + 1\<rparr> else e1)
      in e2\<lparr>ce_openCount := ce_openCount e2 + 1\<rparr>)"

definition op_open :: "window \<times> window \<times> window \<Rightarrow> string \<Rightarrow> bool \<Rightarrow> bool \<Rightarrow> fs \<Rightarrow> (int \<times> FileHandle option) outcome \<times> fs" where
  \<comment> \<open>the two truth values: the access mode allows writing, the file is to be truncated\<close>
  "op_open ws path writable trunc f =
     (let r = rel path; (w1, w2, w3) = ws
      in if r = [] then (Returned (- EISDIR, None), f)
         else bindO (lockForWriting w1 r writable (touch r f)) (\<lambda>rc f1.
                if rc \<noteq> 0 then (Returned (rc, None), f1)
                else bindO (fetchIfClosed w2 w3 r writable (touch r f1)) (\<lambda>rc f2.
                       if rc \<noteq> 0 then (Returned (rc, None), f2)
                       else (Returned (0, Some \<lparr>fh_path = r, fh_writable = writable\<rparr>),
                             setCache (\<lambda>c. om_put r (countOpen writable trunc (entryOf r c)) c) f2))))"

definition op_create :: "window \<times> window \<times> window \<Rightarrow> string \<Rightarrow> bool \<Rightarrow> bool \<Rightarrow> fs \<Rightarrow> (int \<times> FileHandle option) outcome \<times> fs" where
  \<comment> \<open>for a cached file \<open>op_open\<close> is called with the mutex held, which it waits for\<close>
  "op_create ws path writable trunc f =
     (let r = rel path; (w1, w2, w3) = ws
      in if r = [] then (Returned (- EINVAL, None), f)
         else if om_has (f_cache f) r then (Blocked, f)
         else if clientVersion r (f_client f) \<ge> 0 then op_open ws path writable trunc f
         else bindO (remote w1 (\<lambda>h n. client_createFile h n r [] 0) f) (\<lambda>cAck f1.
                if \<not> isAck cAck then (Returned (- EIO, None), f1)
                else bindO (remote w2 (\<lambda>h n. client_acquireLock h n r) f1) (\<lambda>lAck f2.
                       if \<not> isAck lAck then
                         bindO (remote w3 (\<lambda>h n. client_deleteFile h n r) f2) (\<lambda>_ f3. (Returned (- EACCES, None), f3))
                       else
                         (Returned (0, Some \<lparr>fh_path = r, fh_writable = True\<rparr>),
                          setCache (om_put r \<lparr>ce_data = [], ce_dirty = False, ce_lockCount = 1, ce_openCount = 1,
                                              ce_version = int_of_u32 (getUint32 cAck FILE_VERSION 0)\<rparr>) f2))))"

definition flushEntry :: "window \<Rightarrow> string \<Rightarrow> CacheEntry \<Rightarrow> fs \<Rightarrow> unit outcome \<times> fs" where
  \<comment> \<open>the content of a dirty entry goes to the server; a refusal only clears the mark\<close>
  "flushEntry w r e f =
     (if ce_dirty e then
        bindO (remote w (\<lambda>h n. client_updateFile h n r (ce_data e) (ce_version e)) f) (\<lambda>ack f1.
          (Returned (),
           case om_find (f_cache f1) r of
             None \<Rightarrow> f1
           | Some e1 \<Rightarrow>
               (let v = getUint32 ack FILE_VERSION 0;
                    e2 = (if isAck ack \<and> v \<noteq> 0 then e1\<lparr>ce_version := int_of_u32 v\<rparr> else e1)
                in setCache (om_put r (e2\<lparr>ce_dirty := False\<rparr>)) f1)))
      else (Returned (), f))"

definition countClose :: "bool \<Rightarrow> CacheEntry \<Rightarrow> CacheEntry" where
  "countClose writable e =
     (let e1 = (if writable then e\<lparr>ce_lockCount := max 0 (ce_lockCount e - 1)\<rparr> else e)
      in e1\<lparr>ce_openCount := max 0 (ce_openCount e1 - 1)\<rparr>)"

definition op_release :: "window \<times> window \<Rightarrow> FileHandle option \<Rightarrow> fs \<Rightarrow> int outcome \<times> fs" where
  "op_release ws handle f =
     (case handle of
        None \<Rightarrow> (Returned 0, f)
      | Some fh \<Rightarrow>
          (let r = fh_path fh; writable = fh_writable fh; (w1, w2) = ws
           in case om_find (f_cache f) r of
                None \<Rightarrow>
                  bindO (if writable then remote w2 (\<lambda>h n. client_releaseLock h n r) f else (Returned emptyMessage, f)) (\<lambda>_ f1. (Returned 0, f1))
              | Some e0 \<Rightarrow>
                  (let e = countClose writable e0; f1 = setCache (om_put r e) f
                   in bindO (if writable \<and> ce_lockCount e = 0 then
                               bindO (flushEntry w1 r e f1) (\<lambda>_ f2.
                                 bindO (remote w2 (\<lambda>h n. client_releaseLock h n r) f2) (\<lambda>_ f3. (Returned (), f3)))
                             else (Returned (), f1))
                        (\<lambda>_ f4. (Returned 0, evictIfClosed r f4)))))"

section \<open>Reading, writing, removing\<close>

definition op_read :: "window \<Rightarrow> string \<Rightarrow> nat \<Rightarrow> nat \<Rightarrow> fs \<Rightarrow> (int \<times> bytes) outcome \<times> fs" where
  \<comment> \<open>the result and the bytes put into the buffer of the caller; an empty entry is fetched again\<close>
  "op_read w path want offset f =
     (let r = rel path
      in bindO (if ce_data (entryOf r (f_cache f)) = [] then fetchIntoCache w r (touch r f) else (Returned 0, f)) (\<lambda>rc f1.
           if rc \<noteq> 0 then (Returned (rc, []), f1)
           else let content = take want (drop offset (ce_data (entryOf r (f_cache f1))))
                in (Returned (castInt (length content), content), f1)))"

definition resized :: "nat \<Rightarrow> bytes \<Rightarrow> bytes" where
  "resized n bs = take n bs @ replicate (n - length bs) 0"

definition patched :: "nat \<Rightarrow> bytes \<Rightarrow> bytes \<Rightarrow> bytes" where
  \<comment> \<open>the buffer after a write at an offset\<close>
  "patched offset buf bs =
     (let bs1 = (if offset + length buf > length bs then resized (offset + length buf) bs else bs)
      in take offset bs1 @ buf @ drop (offset + length buf) bs1)"

definition op_write :: "string \<Rightarrow> bytes \<Rightarrow> nat \<Rightarrow> fs \<Rightarrow> int \<times> fs" where
  "op_write path buf offset f =
     (let r = rel path
      in case om_find (f_cache f) r of
           None \<Rightarrow> (- EBADF, f)
         | Some e \<Rightarrow>
             (castInt (length buf), setCache (om_put r (e\<lparr>ce_data := patched offset buf (ce_data e), ce_dirty := True\<rparr>)) f))"

definition op_unlink :: "window \<Rightarrow> string \<Rightarrow> fs \<Rightarrow> int outcome \<times> fs" where
  "op_unlink w path f =
     bindO (remote w (\<lambda>h n. client_deleteFile h n (rel path)) f) (\<lambda>ack f1.
       if \<not> isAck ack then (Returned (- EIO), f1) else (Returned 0, setCache (om_erase (rel path)) f1))"

definition op_truncate :: "string \<Rightarrow> nat \<Rightarrow> fs \<Rightarrow> int \<times> fs" where
  \<comment> \<open>only of a cached file\<close>
  "op_truncate path n f =
     (case om_find (f_cache f) (rel path) of
        None \<Rightarrow> (- ENOENT, f)
      | Some e \<Rightarrow> (0, setCache (om_put (rel path) (e\<lparr>ce_data := resized n (ce_data e), ce_dirty := True\<rparr>)) f))"

definition healthRound :: "fs \<Rightarrow> unit outcome \<times> fs" where
  \<comment> \<open>the monitor connects again when the session is dead; an exception is logged\<close>
  "healthRound f =
     (if ep_isAlive (f_client f) then (Returned (), f)
      else case reconnect (f_client f) of
             (Blocked, cl) \<Rightarrow> (Blocked, f\<lparr>f_client := cl\<rparr>)
           | (Returned (Inr _), cl) \<Rightarrow>
               (case client_syncStatus cl of (Blocked, cl1) \<Rightarrow> (Blocked, f\<lparr>f_client := cl1\<rparr>) | (_, cl1) \<Rightarrow> (Returned (), f\<lparr>f_client := cl1\<rparr>))
           | (_, cl) \<Rightarrow> (Returned (), f\<lparr>f_client := cl\<rparr>))"

section \<open>Reading and writing the cache\<close>

lemma setCache_simps [simp]:
  "f_cache (setCache g f) = g (f_cache f)" "ep_session (f_client (setCache g f)) = ep_session (f_client f)"
  "cl_versions (f_client (setCache g f)) = cl_versions (f_client f)" "f_dirs (setCache g f) = f_dirs f"
  by (simp_all add: setCache_def)

lemma entryOf_put [simp]: "entryOf r (om_put q e c) = (if r = q then e else entryOf r c)"
  by (simp add: entryOf_def)

lemma entryOf_touch [simp]: "entryOf q (f_cache (touch r f)) = entryOf q (f_cache f)"
  by (simp add: touch_def)

lemma length_patched: "length (patched offset buf bs) = max (length bs) (offset + length buf)"
  by (auto simp: patched_def resized_def Let_def)

lemma nth_patched:
  assumes "i < length (patched offset buf bs)"
  shows "patched offset buf bs ! i =
    (if offset \<le> i \<and> i < offset + length buf then buf ! (i - offset) else if i < length bs then bs ! i else 0)"
proof -
  define bs1 where "bs1 = (if offset + length buf > length bs then resized (offset + length buf) bs else bs)"
  have len: "offset + length buf \<le> length bs1" "i < length bs1"
    using assms by (auto simp: bs1_def resized_def length_patched)
  have old: "bs1 ! i = (if i < length bs then bs ! i else 0)"
    using len(2) by (auto simp: bs1_def resized_def nth_append)
  have "patched offset buf bs = take offset bs1 @ buf @ drop (offset + length buf) bs1"
    by (simp add: patched_def Let_def bs1_def)
  then show ?thesis
    using len old by (auto simp: nth_append)
qed

text \<open>
  C17: reads return what was written. After a write into an open file, a read at any position returns, up
  to the end of the file, the bytes of the write where it covers them, the bytes from before elsewhere
  and zeros in a gap the write left; the file is as long as the write reaches or as long as before.
\<close>

theorem read_after_write:
  assumes "om_find (f_cache f) (rel path) = Some e" and "buf \<noteq> []"
  shows "\<exists>f1 content. op_write path buf offset f = (castInt (length buf), f1) \<and>
    op_read w path want off f1 = (Returned (castInt (length content), content), f1) \<and>
    length content = min want (max (length (ce_data e)) (offset + length buf) - off) \<and>
    (\<forall>k < length content. content ! k =
       (let i = off + k in
        if offset \<le> i \<and> i < offset + length buf then buf ! (i - offset) else if i < length (ce_data e) then ce_data e ! i else 0))"
proof -
  let ?bs = "patched offset buf (ce_data e)"
  let ?f1 = "setCache (om_put (rel path) (e\<lparr>ce_data := ?bs, ce_dirty := True\<rparr>)) f" and ?content = "take want (drop off ?bs)"
  have "?bs \<noteq> []"
    using assms(2) length_patched [of offset buf "ce_data e"] by auto
  then have "op_read w path want off ?f1 = (Returned (castInt (length ?content), ?content), ?f1)"
    by (simp add: op_read_def Let_def)
  moreover have "op_write path buf offset f = (castInt (length buf), ?f1)"
    using assms(1) by (simp add: op_write_def)
  moreover have "length ?content = min want (max (length (ce_data e)) (offset + length buf) - off)"
    by (auto simp: length_patched)
  moreover have "?content ! k = (let i = off + k in
        if offset \<le> i \<and> i < offset + length buf then buf ! (i - offset) else if i < length (ce_data e) then ce_data e ! i else 0)"
    if "k < length ?content" for k
  proof -
    have i: "off + k < length ?bs"
      using that by (simp add: less_diff_conv add.commute)
    then have "?content ! k = ?bs ! (off + k)"
      using that by simp
    with nth_patched [OF i] show ?thesis
      by (simp add: Let_def)
  qed
  ultimately show ?thesis
    by blast
qed

theorem read_after_write_witness:
  "let f = \<lparr>f_client = (newClient ''127.0.0.1'' 12345 ''c'' [] [(''a'', newEntry\<lparr>ce_data := [1, 2, 3], ce_openCount := 1\<rparr>)]), f_dirs = []\<rparr>;
       f1 = snd (op_write ''/a'' [9, 9] 4 f)
   in op_write ''/a'' [9, 9] 4 f = (2, f1) \<and> op_read (0, 0) ''/a'' 10 1 f1 = (Returned (5, [2, 3, 0, 9, 9]), f1)"
proof -
  let ?e = "newEntry\<lparr>ce_data := [1, 2, 3], ce_openCount := 1\<rparr>"
  let ?f = "\<lparr>f_client = newClient ''127.0.0.1'' 12345 ''c'' [] [(''a'', ?e)], f_dirs = []\<rparr>"
  have "om_find (f_cache ?f) (rel ''/a'') = Some ?e" "[9, 9 :: u8] \<noteq> []"
    by (simp_all add: newClient_def rel_def om_find_def)
  from read_after_write [OF this, of 4 "(0, 0)" 10 1] obtain f1 content where
    w: "op_write ''/a'' [9, 9] 4 ?f = (castInt (length [9, 9 :: u8]), f1)"
    and r: "op_read (0, 0) ''/a'' 10 1 f1 = (Returned (castInt (length content), content), f1)"
    and len: "length content = min 10 (max (length (ce_data ?e)) (4 + length [9, 9 :: u8]) - 1)"
    and nth: "\<forall>k < length content. content ! k = (let i = 1 + k in
       if 4 \<le> i \<and> i < 4 + length [9, 9 :: u8] then [9, 9] ! (i - 4) else if i < length (ce_data ?e) then ce_data ?e ! i else 0)"
    by blast
  have len: "length content = 5"
    using len by simp
  have "content = [2, 3, 0, 9, 9]"
  proof (rule nth_equalityI)
    show "content ! i = [2, 3, 0, 9, 9] ! i" if "i < length content" for i
    proof -
      have "i \<in> {0, 1, 2, 3, 4}"
        using that len by auto
      then show ?thesis
        using nth that len by (auto simp: Let_def numeral_nat)
    qed
  qed (simp add: len)
  moreover have "castInt (length [9, 9 :: u8]) = 2" "castInt (length [2, 3, 0, 9, 9 :: u8]) = 5"
    by (simp_all add: castInt_def int_of_u32_def)
  ultimately show ?thesis
    using w r len by (simp add: Let_def)
qed

section \<open>What goes wrong with an empty buffer and a cached name\<close>

lemma ready_setCache [simp]: "ready (f_client (setCache g f)) c n s = ready (f_client f) c n s"
  by (simp add: ready_def setCache_def)

lemma ready_fetch:
  assumes "ready (f_client f) c n s" and "length r \<le> 65535" and "length content \<le> unat FILETRANSFER_MAX_SIZE"
    and "available (p_end c) = readBytesOnWire content v n"
  shows "\<exists>f'. fetchIntoCache (0, 0) r f = (Returned 0, f') \<and>
    f_cache f' = om_put r ((entryOf r (f_cache f))\<lparr>ce_data := content, ce_version := int_of_u32 (u32_of_int v), ce_dirty := False\<rparr>) (f_cache f)"
proof -
  obtain cl where "client_readFile pushCache 0 r (f_client f) = (Returned (ackVersionMsg True v (n + 1), content), cl)"
    "cl_app cl = f_cache f"
    using ready_read [OF assms, of pushCache] by blast
  then show ?thesis
    by (simp add: fetchIntoCache_def remote_def setCache_def)
qed

text \<open>
  Reading a truncated file brings back its old content. A file that was opened for writing with
  truncation has an empty buffer with unsaved changes. A read of it fetches the content the server
  still has, returns that, and clears the mark of unsaved changes, so that closing the file does not
  send the truncation to the server.
\<close>

theorem truncated_read_resurrects:
  assumes "ready (f_client f) c n s" and "available (p_end c) = readBytesOnWire old v n"
    and "length (rel path) \<le> 65535" and "length old \<le> unat FILETRANSFER_MAX_SIZE"
    and "om_find (f_cache f) (rel path) = Some (countOpen True True e)"
  shows "ce_dirty (countOpen True True e) \<and> ce_data (countOpen True True e) = [] \<and>
    (\<exists>f1. op_read (0, 0) path want 0 f = (Returned (castInt (length (take want old)), take want old), f1) \<and>
       (\<exists>e1. om_find (f_cache f1) (rel path) = Some e1 \<and> (\<forall>w. flushEntry w (rel path) (countClose True e1) f1 = (Returned (), f1))))"
proof -
  let ?e = "countOpen True True e"
  have e: "ce_dirty ?e" "ce_data ?e = []"
    by (simp_all add: countOpen_def Let_def)
  have r: "ready (f_client (touch (rel path) f)) c n s"
    using assms(1) by (simp add: touch_def)
  obtain f' where f': "fetchIntoCache (0, 0) (rel path) (touch (rel path) f) = (Returned 0, f')"
    "f_cache f' = om_put (rel path) ((entryOf (rel path) (f_cache f))\<lparr>ce_data := old, ce_version := int_of_u32 (u32_of_int v), ce_dirty := False\<rparr>)
       (f_cache (touch (rel path) f))"
    using ready_fetch [OF r assms(3,4,2)] by (metis entryOf_touch)
  moreover have "entryOf (rel path) (f_cache f) = ?e"
    using assms(5) by (simp add: entryOf_def)
  ultimately show ?thesis
    using e by (simp add: op_read_def flushEntry_def countClose_def Let_def)
qed

definition demoFs :: "bytes \<Rightarrow> cache \<Rightarrow> fs" where
  "demoFs bs c = \<lparr>f_client = demoClient bs c, f_dirs = []\<rparr>"

lemma demoFs_ready: "\<exists>p. ready (f_client (demoFs bs c)) p 0 0 \<and> available (p_end p) = bs" "f_cache (demoFs bs c) = c"
  using demoClient_ready [of bs c] by (auto simp: demoFs_def)

theorem truncated_read_resurrects_witness:
  "\<exists>f1. op_read (0, 0) ''/a'' 10 0 (demoFs (readBytesOnWire [7, 8] 3 0) [(''a'', countOpen True True newEntry)]) = (Returned (2, [7, 8]), f1) \<and>
     (\<exists>e1. om_find (f_cache f1) ''a'' = Some e1 \<and> (\<forall>w. flushEntry w ''a'' (countClose True e1) f1 = (Returned (), f1)))"
proof -
  let ?f = "demoFs (readBytesOnWire [7, 8] 3 0) [(''a'', countOpen True True newEntry)]"
  obtain c where c: "ready (f_client ?f) c 0 0" "available (p_end c) = readBytesOnWire [7, 8] 3 0"
    using demoFs_ready(1) by blast
  have a: "length (rel ''/a'') \<le> 65535" "length [7, 8 :: u8] \<le> unat FILETRANSFER_MAX_SIZE"
      "om_find (f_cache ?f) (rel ''/a'') = Some (countOpen True True newEntry)"
    by (simp_all add: rel_def FILETRANSFER_MAX_SIZE_def demoFs_ready(2) om_find_def)
  have "castInt (length (take 10 [7, 8 :: u8])) = 2" "take 10 [7, 8 :: u8] = [7, 8]" "rel ''/a'' = ''a''"
    by (simp_all add: castInt_def int_of_u32_def rel_def)
  with truncated_read_resurrects [OF c a, of 10] show ?thesis
    by metis
qed

text \<open>
  Creating a file another client has created hangs. When the notice of a created file has arrived,
  the file is in the cache, and creating it, with whatever flags, waits for the mutex the operation
  itself holds.
\<close>

theorem create_of_pushed_file_hangs:
  assumes "ready (f_client f) c n s" and "available (p_end c) = pushBytes PUSH_CREATE_FILE path v content n @ rest"
    and "length path \<le> 65535" and "path \<noteq> []" and "length content \<le> unat FILETRANSFER_MAX_SIZE" and "int_range v"
  shows "let f1 = f\<lparr>f_client := workerRead pushCache (f_client f)\<rparr> in op_create ws (CHR ''/'' # path) writable trunc f1 = (Blocked, f1)"
proof -
  have "cl_app (workerRead pushCache (f_client f)) = pushCache (versionMsg PUSH_CREATE_FILE path v n) content (f_cache f)"
    using ready_push [OF assms(1,2) _ assms(3-6), of pushCache] by (auto simp: Let_def)
  then have "om_has (cl_app (workerRead pushCache (f_client f))) path"
    by (simp add: pushCache_def om_has_def Let_def)
  with assms(4) show ?thesis
    by (cases ws) (simp add: op_create_def rel_def Let_def)
qed

theorem create_of_pushed_file_hangs_witness:
  "let f = demoFs (pushBytes PUSH_CREATE_FILE ''a'' 1 [5] 0) []; f1 = f\<lparr>f_client := workerRead pushCache (f_client f)\<rparr>
   in op_create ((0, 0), (0, 0), (0, 0)) ''/a'' True False f1 = (Blocked, f1)"
proof -
  let ?f = "demoFs (pushBytes PUSH_CREATE_FILE ''a'' 1 [5] 0) []"
  obtain c where c: "ready (f_client ?f) c 0 0" "available (p_end c) = pushBytes PUSH_CREATE_FILE ''a'' 1 [5] 0 @ []"
    unfolding append_Nil2 using demoFs_ready(1) by blast
  have a: "length ''a'' \<le> 65535" "''a'' \<noteq> []" "length [5 :: u8] \<le> unat FILETRANSFER_MAX_SIZE" "int_range 1"
    by (simp_all add: FILETRANSFER_MAX_SIZE_def int_range_def)
  from create_of_pushed_file_hangs [OF c a, of "((0, 0), (0, 0), (0, 0))" True False] show ?thesis
    by (simp add: Let_def)
qed

section \<open>Listing a directory\<close>

lemma below_iff: "below dirRel path = Some rest \<longleftrightarrow> path = dirPrefix dirRel @ rest"
  by (auto simp: below_def Let_def) (metis append_take_drop_id)

lemma fileChild_name:
  assumes "CHR ''/'' \<notin> set name"
  shows "fileChild dirRel path = Some name \<longleftrightarrow> path = dirPrefix dirRel @ name"
    and "fileChild dirRel path = Some (name @ ''/'') \<longleftrightarrow> (\<exists>rest. path = dirPrefix dirRel @ name @ ''/'' @ rest)"
proof -
  let ?short = "\<lambda>rest. if CHR ''/'' \<in> set rest then takeWhile (\<lambda>ch. ch \<noteq> CHR ''/'') rest @ ''/'' else rest"
  have "?short rest = name \<longleftrightarrow> rest = name" for rest
    using assms by auto
  then show "fileChild dirRel path = Some name \<longleftrightarrow> path = dirPrefix dirRel @ name"
    by (auto simp: fileChild_def below_iff)
  have "?short rest = name @ ''/'' \<longleftrightarrow> (\<exists>tail. rest = name @ ''/'' @ tail)" for rest
  proof
    assume short: "?short rest = name @ ''/''"
    then have slash: "CHR ''/'' \<in> set rest"
      by (auto split: if_splits)
    from split_list_first [OF this] obtain ys tail where rest: "rest = ys @ CHR ''/'' # tail" "CHR ''/'' \<notin> set ys"
      by blast
    have "takeWhile (\<lambda>ch. ch \<noteq> CHR ''/'') rest = ys"
      unfolding rest(1) using rest(2) by (subst takeWhile_append2) auto
    with short slash rest(1) show "\<exists>tail. rest = name @ ''/'' @ tail"
      by auto
  next
    assume "\<exists>tail. rest = name @ ''/'' @ tail"
    then obtain tail where rest: "rest = name @ CHR ''/'' # tail"
      by auto
    have "takeWhile (\<lambda>ch. ch \<noteq> CHR ''/'') rest = name"
      unfolding rest using assms by (subst takeWhile_append2) auto
    then show "?short rest = name @ ''/''"
      by (simp add: rest)
  qed
  then show "fileChild dirRel path = Some (name @ ''/'') \<longleftrightarrow> (\<exists>rest. path = dirPrefix dirRel @ name @ ''/'' @ rest)"
    by (auto simp: fileChild_def below_iff)
qed

lemma dirChild_name:
  assumes "CHR ''/'' \<notin> set name" and "name \<noteq> []"
  shows "dirChild dirRel d \<noteq> Some name" and "dirChild dirRel d = Some (name @ ''/'') \<longleftrightarrow> d = dirPrefix dirRel @ name"
proof -
  have "below dirRel (dirPrefix dirRel @ name) = Some name" "dirPrefix dirRel @ name \<noteq> dirRel"
    using assms(2) by (simp_all add: below_iff dirPrefix_def)
  then show "dirChild dirRel d \<noteq> Some name" "dirChild dirRel d = Some (name @ ''/'') \<longleftrightarrow> d = dirPrefix dirRel @ name"
    using assms(1) by (auto simp: dirChild_def dest: below_iff [THEN iffD1] split: option.splits if_splits)
qed

lemma strip_child:
  assumes "CHR ''/'' \<notin> set name" and "name \<noteq> []"
  shows "stripSlash child = name \<longleftrightarrow> child = name \<or> child = name @ ''/''"
proof -
  have "last name \<noteq> CHR ''/''"
    using assms last_in_set [of name] by metis
  then show ?thesis
    using assms(2) by (auto simp: stripSlash_def split: if_splits) (metis append_butlast_last_id)
qed

lemma set_map_filter: "set (List.map_filter g xs) = {y. \<exists>x\<in>set xs. g x = Some y}"
  by (force simp: List.map_filter_def)

lemma set_listChildren:
  "set (listChildren dirRel f) =
     {y. \<exists>path\<in>set (om_keys (cl_versions (f_client f))). fileChild dirRel path = Some y} \<union> {y. \<exists>d\<in>set (f_dirs f). dirChild dirRel d = Some y}"
  by (auto simp: listChildren_def set_fold_os_insert set_map_filter)

text \<open>
  A directory lists what is in it. Reading the root or a known directory succeeds, and a name is
  in the listing exactly when it is that of a known file in the directory, of a component on the way to
  a known file further down, or of a directory that was created there.
\<close>

theorem readdir_exact:
  assumes "dir = [] \<or> isKnownDir dir f" and "name \<noteq> []" and "CHR ''/'' \<notin> set name"
  shows "fst (op_readdir (CHR ''/'' # dir) f) = 0 \<and>
    (name \<in> set (drop 2 (snd (op_readdir (CHR ''/'' # dir) f))) \<longleftrightarrow>
       dirPrefix dir @ name \<in> set (om_keys (cl_versions (f_client f))) \<or>
       (\<exists>rest. dirPrefix dir @ name @ ''/'' @ rest \<in> set (om_keys (cl_versions (f_client f)))) \<or>
       dirPrefix dir @ name \<in> set (f_dirs f))"
proof -
  have "name \<in> stripSlash ` set (listChildren dir f) \<longleftrightarrow> (name \<in> set (listChildren dir f) \<or> name @ ''/'' \<in> set (listChildren dir f))"
    using strip_child [OF assms(3,2)] by (metis image_iff)
  moreover have "op_readdir (CHR ''/'' # dir) f = (0, ''.'' # ''..'' # map stripSlash (listChildren dir f))"
    using assms(1) by (auto simp: op_readdir_def rel_def)
  ultimately show ?thesis
    using fileChild_name [OF assms(3)] dirChild_name [OF assms(3,2)] by (auto simp: set_listChildren)
qed

theorem readdir_exact_witness:
  "let f = \<lparr>f_client = (newClient ''127.0.0.1'' 12345 ''c'' [] [])\<lparr>cl_versions := [(''d/x/y'', 1), (''e'', 2)]\<rparr>, f_dirs = [''d/z'']\<rparr>
   in ''x'' \<in> set (drop 2 (snd (op_readdir ''/d'' f))) \<and> ''e'' \<notin> set (drop 2 (snd (op_readdir ''/d'' f)))"
proof -
  let ?f = "\<lparr>f_client = (newClient ''127.0.0.1'' 12345 ''c'' [] [])\<lparr>cl_versions := [(''d/x/y'', 1), (''e'', 2)]\<rparr>, f_dirs = [''d/z'']\<rparr>"
  have d: "''d'' = [] \<or> isKnownDir ''d'' ?f"
    by (simp add: isKnownDir_def om_keys_def newClient_def)
  have "\<exists>rest. dirPrefix ''d'' @ ''x'' @ ''/'' @ rest \<in> set (om_keys (cl_versions (f_client ?f)))"
    by (rule exI [of _ "''y''"]) (simp add: dirPrefix_def om_keys_def)
  moreover have "\<not> (dirPrefix ''d'' @ ''e'' \<in> set (om_keys (cl_versions (f_client ?f))) \<or>
       (\<exists>rest. dirPrefix ''d'' @ ''e'' @ ''/'' @ rest \<in> set (om_keys (cl_versions (f_client ?f)))) \<or> dirPrefix ''d'' @ ''e'' \<in> set (f_dirs ?f))"
    by (simp add: dirPrefix_def om_keys_def)
  ultimately show ?thesis
    using readdir_exact [OF d, of "''x''"] readdir_exact [OF d, of "''e''"] by (simp add: Let_def del: append.simps)
qed

section \<open>Handles and counts\<close>

definition keepsCounts :: "cache \<Rightarrow> cache \<Rightarrow> bool" where
  \<comment> \<open>the counts of a file stay or are forgotten together\<close>
  "keepsCounts c c' \<longleftrightarrow> (om_ok c \<longrightarrow> om_ok c' \<and> (\<forall>r.
     (ce_openCount (entryOf r c'), ce_lockCount (entryOf r c')) \<in> {(ce_openCount (entryOf r c), ce_lockCount (entryOf r c)), (0, 0)}))"

lemma keepsCounts_refl: "keepsCounts c c"
  by (simp add: keepsCounts_def)

lemma keepsCounts_trans: "keepsCounts c c' \<Longrightarrow> keepsCounts c' c'' \<Longrightarrow> keepsCounts c c''"
  unfolding keepsCounts_def by simp metis

lemma keepsCounts_erase: "keepsCounts c (om_erase r c)"
  by (auto simp: keepsCounts_def entryOf_def newEntry_def split: option.splits)

lemma keepsCounts_put:
  "ce_openCount e = ce_openCount (entryOf r c) \<Longrightarrow> ce_lockCount e = ce_lockCount (entryOf r c) \<Longrightarrow> keepsCounts c (om_put r e c)"
  by (simp add: keepsCounts_def)

interpretation pushes: push_effect pushCache keepsCounts
proof
  fix m content c
  show "keepsCounts c (pushCache m content c)"
    by (auto simp: pushCache_def Let_def intro: keepsCounts_put keepsCounts_erase keepsCounts_refl)
qed (fact keepsCounts_refl keepsCounts_trans)+

lemma keepsCounts_touch: "keepsCounts (f_cache f) (f_cache (touch r f))"
  by (simp add: touch_def keepsCounts_put)

lemma keepsCounts_evict: "keepsCounts (f_cache f) (f_cache (evictIfClosed r f))"
  by (simp add: evictIfClosed_def keepsCounts_erase keepsCounts_refl split: option.splits)

lemma remote_counts:
  assumes "\<And>n cl. keepsCounts (cl_app cl) (cl_app (snd (req pushCache n cl)))"
  shows "keepsCounts (f_cache f) (f_cache (snd (remote w req f)))"
proof -
  obtain r cl where q: "req pushCache (fst w) (f_client f) = (r, cl)"
    by fastforce
  with assms [of "f_client f" "fst w"] have "keepsCounts (f_cache f) (cl_app cl)"
    by simp
  with q show ?thesis
    using keepsCounts_trans [OF _ pushes.workerReads_app [of cl "snd w"]] by (cases r) (simp_all add: remote_def)
qed

lemma requests_counts:
  "keepsCounts (f_cache f) (f_cache (snd (remote w (\<lambda>h n. client_createFile h n r content v) f)))"
  "keepsCounts (f_cache f) (f_cache (snd (remote w (\<lambda>h n. client_readFile h n r) f)))"
  "keepsCounts (f_cache f) (f_cache (snd (remote w (\<lambda>h n. client_updateFile h n r content v) f)))"
  "keepsCounts (f_cache f) (f_cache (snd (remote w (\<lambda>h n. client_deleteFile h n r) f)))"
  "keepsCounts (f_cache f) (f_cache (snd (remote w (\<lambda>h n. client_acquireLock h n r) f)))"
  "keepsCounts (f_cache f) (f_cache (snd (remote w (\<lambda>h n. client_releaseLock h n r) f)))"
  by (rule remote_counts, rule pushes.requests_app)+

lemma keeps_bindO:
  assumes "keepsCounts c (f_cache (snd m))" and "\<And>x f1. m = (Returned x, f1) \<Longrightarrow> keepsCounts (f_cache f1) (f_cache (snd (k x f1)))"
  shows "keepsCounts c (f_cache (snd (bindO m k)))"
  using assms by (intro bindO_snd [where P = "\<lambda>f. keepsCounts c (f_cache f)"]) (auto intro: keepsCounts_trans)

lemma fetch_counts: "keepsCounts (f_cache f) (f_cache (snd (fetchIntoCache w r f)))"
  unfolding fetchIntoCache_def
  by (intro keeps_bindO requests_counts) (auto simp: keepsCounts_refl keepsCounts_put)

lemma lock_counts: "keepsCounts (f_cache f) (f_cache (snd (lockForWriting w r writable f)))"
  unfolding lockForWriting_def
  by (auto intro!: keeps_bindO requests_counts simp: keepsCounts_refl keepsCounts_evict)

lemma fetchIfClosed_counts: "keepsCounts (f_cache f) (f_cache (snd (fetchIfClosed w w' r writable f)))"
  unfolding fetchIfClosed_def
  by (auto intro!: keeps_bindO requests_counts fetch_counts simp: keepsCounts_refl keepsCounts_evict)

lemma keepsCounts_update:
  "om_find c r = Some e1 \<Longrightarrow> ce_openCount e = ce_openCount e1 \<Longrightarrow> ce_lockCount e = ce_lockCount e1 \<Longrightarrow> keepsCounts c (om_put r e c)"
  by (rule keepsCounts_put) (simp_all add: entryOf_def)

lemma flush_counts: "keepsCounts (f_cache f) (f_cache (snd (flushEntry w r e f)))"
  unfolding flushEntry_def
  by (auto intro!: keeps_bindO requests_counts simp: keepsCounts_refl Let_def split: option.splits)
    (erule keepsCounts_update, simp_all)+

definition opens :: "string \<Rightarrow> FileHandle list \<Rightarrow> int" where
  "opens r hs = int (length (filter (\<lambda>h. fh_path h = r) hs))"

definition writers :: "string \<Rightarrow> FileHandle list \<Rightarrow> int" where
  "writers r hs = int (length (filter (\<lambda>h. fh_path h = r \<and> fh_writable h) hs))"

definition counted :: "cache \<Rightarrow> FileHandle list \<Rightarrow> bool" where
  "counted c hs \<longleftrightarrow> om_ok c \<and> (\<forall>r. 0 \<le> ce_openCount (entryOf r c) \<and> ce_openCount (entryOf r c) \<le> opens r hs \<and>
     0 \<le> ce_lockCount (entryOf r c) \<and> ce_lockCount (entryOf r c) \<le> writers r hs)"

lemma counted_keeps: "counted c hs \<Longrightarrow> keepsCounts c c' \<Longrightarrow> counted c' hs"
proof -
  assume c: "counted c hs" and k: "keepsCounts c c'"
  have "0 \<le> ce_openCount (entryOf r c') \<and> ce_openCount (entryOf r c') \<le> opens r hs \<and>
     0 \<le> ce_lockCount (entryOf r c') \<and> ce_lockCount (entryOf r c') \<le> writers r hs" for r
  proof -
    have "(ce_openCount (entryOf r c'), ce_lockCount (entryOf r c')) \<in> {(ce_openCount (entryOf r c), ce_lockCount (entryOf r c)), (0, 0)}"
      using c k by (simp add: counted_def keepsCounts_def)
    with c show ?thesis
      by (auto simp: counted_def opens_def writers_def)
  qed
  with c k show ?thesis
    by (simp add: counted_def keepsCounts_def)
qed

lemma counted_open:
  assumes "counted c hs"
  shows "counted (om_put r (countOpen writable trunc (entryOf r c)) c) (\<lparr>fh_path = r, fh_writable = writable\<rparr> # hs)"
proof -
  have "ce_openCount (countOpen writable trunc e) = ce_openCount e + 1"
      "ce_lockCount (countOpen writable trunc e) = ce_lockCount e + (if writable then 1 else 0)" for e
    by (simp_all add: countOpen_def Let_def)
  with assms show ?thesis
    by (auto simp: counted_def opens_def writers_def)
qed

lemma counted_create:
  assumes "counted c hs"
  shows "counted (om_put r \<lparr>ce_data = bs, ce_dirty = d, ce_lockCount = 1, ce_openCount = 1, ce_version = v\<rparr> c)
    (\<lparr>fh_path = r, fh_writable = True\<rparr> # hs)"
  using assms by (auto simp: counted_def opens_def writers_def)

lemma count_remove:
  assumes "h \<in> set hs"
  shows "opens r (remove1 h hs) = opens r hs - (if fh_path h = r then 1 else 0)"
    "writers r (remove1 h hs) = writers r hs - (if fh_path h = r \<and> fh_writable h then 1 else 0)"
proof -
  have "0 < length (filter P hs)" if "P h" for P
    using assms that by (auto simp: filter_empty_conv)
  moreover have "filter P (remove1 h hs) = (if P h then remove1 h (filter P hs) else filter P hs)" for P
    by (simp add: filter_remove1)
  ultimately show "opens r (remove1 h hs) = opens r hs - (if fh_path h = r then 1 else 0)"
      "writers r (remove1 h hs) = writers r hs - (if fh_path h = r \<and> fh_writable h then 1 else 0)"
    using assms by (auto simp: opens_def writers_def length_remove1 of_nat_diff Suc_le_eq)
qed

lemma held: "h \<in> set hs \<Longrightarrow> 1 \<le> opens (fh_path h) hs \<and> (fh_writable h \<longrightarrow> 1 \<le> writers (fh_path h) hs)"
  by (auto simp: opens_def writers_def filter_empty_conv Suc_le_eq)

lemma counted_close:
  assumes "counted c hs" and "h \<in> set hs" and "om_find c (fh_path h) = Some e"
  shows "counted (om_put (fh_path h) (countClose (fh_writable h) e) c) (remove1 h hs)"
proof -
  have e: "entryOf (fh_path h) c = e"
    using assms(3) by (simp add: entryOf_def)
  have close: "ce_openCount (countClose w e) = max 0 (ce_openCount e - 1)"
      "ce_lockCount (countClose w e) = (if w then max 0 (ce_lockCount e - 1) else ce_lockCount e)" for w
    by (simp_all add: countClose_def Let_def)
  let ?c = "om_put (fh_path h) (countClose (fh_writable h) e) c"
  have "0 \<le> ce_openCount (entryOf r ?c) \<and> ce_openCount (entryOf r ?c) \<le> opens r (remove1 h hs) \<and>
     0 \<le> ce_lockCount (entryOf r ?c) \<and> ce_lockCount (entryOf r ?c) \<le> writers r (remove1 h hs)" for r
  proof (cases "r = fh_path h")
    case True
    have "0 \<le> ce_openCount e" "ce_openCount e \<le> opens r hs" "0 \<le> ce_lockCount e" "ce_lockCount e \<le> writers r hs"
      using assms(1) e True unfolding counted_def by metis+
    with True held [OF assms(2)] show ?thesis
      by (auto simp: close count_remove [OF assms(2)])
  next
    case False
    with assms(1) show ?thesis
      by (auto simp: counted_def count_remove [OF assms(2)])
  qed
  with assms(1) show ?thesis
    by (simp add: counted_def)
qed

lemma counted_forget:
  assumes "counted c hs" and "om_find c (fh_path h) = None" and "h \<in> set hs"
  shows "counted c (remove1 h hs)"
proof -
  have "ce_openCount (entryOf (fh_path h) c) = 0" "ce_lockCount (entryOf (fh_path h) c) = 0"
    using assms(2) by (simp_all add: entryOf_def newEntry_def)
  with assms(1) held [OF assms(3)] show ?thesis
    unfolding counted_def count_remove [OF assms(3)] by auto
qed

lemma open_counted:
  assumes "op_open ws path writable trunc f = (Returned (rc, fh), f')" and "counted (f_cache f) hs"
  shows "counted (f_cache f') (case fh of None \<Rightarrow> hs | Some h \<Rightarrow> h # hs)"
proof (cases "rel path = []")
  case True
  with assms show ?thesis
    by (auto simp: op_open_def Let_def split: prod.splits)
next
  case False
  obtain w1 w2 w3 where ws: "ws = (w1, w2, w3)"
    by (cases ws)
  let ?r = "rel path"
  obtain r1 f1 where l: "lockForWriting w1 ?r writable (touch ?r f) = (r1, f1)"
    by fastforce
  have f1: "counted (f_cache f1) hs"
    using counted_keeps [OF assms(2) keepsCounts_trans [OF keepsCounts_touch lock_counts]] l by (metis snd_conv)
  obtain r2 f2 where g: "fetchIfClosed w2 w3 ?r writable (touch ?r f1) = (r2, f2)"
    by fastforce
  have f2: "counted (f_cache f2) hs"
    using counted_keeps [OF f1 keepsCounts_trans [OF keepsCounts_touch fetchIfClosed_counts]] g by (metis snd_conv)
  show ?thesis
    using assms(1) False f1 f2 l g counted_open [OF f2, of ?r writable trunc]
    by (cases r1; cases r2) (auto simp: op_open_def ws Let_def split: if_splits)
qed

lemma create_counted:
  assumes "op_create ws path writable trunc f = (Returned (rc, fh), f')" and "counted (f_cache f) hs"
  shows "counted (f_cache f') (case fh of None \<Rightarrow> hs | Some h \<Rightarrow> h # hs)"
proof -
  obtain w1 w2 w3 where ws: "ws = (w1, w2, w3)"
    by (cases ws)
  let ?r = "rel path"
  obtain r1 f1 where a: "remote w1 (\<lambda>h n. client_createFile h n ?r [] 0) f = (r1, f1)"
    by fastforce
  have f1: "counted (f_cache f1) hs"
    using counted_keeps [OF assms(2) requests_counts(1)] a by (metis snd_conv)
  obtain r2 f2 where b: "remote w2 (\<lambda>h n. client_acquireLock h n ?r) f1 = (r2, f2)"
    by fastforce
  have f2: "counted (f_cache f2) hs"
    using counted_keeps [OF f1 requests_counts(5)] b by (metis snd_conv)
  obtain r3 f3 where d: "remote w3 (\<lambda>h n. client_deleteFile h n ?r) f2 = (r3, f3)"
    by fastforce
  have f3: "counted (f_cache f3) hs"
    using counted_keeps [OF f2 requests_counts(4)] d by (metis snd_conv)
  show ?thesis
  proof (cases "?r = [] \<or> om_has (f_cache f) ?r \<or> clientVersion ?r (f_client f) \<ge> 0")
    case True
    with assms open_counted [of ws path writable trunc f rc fh f' hs] show ?thesis
      by (auto simp: op_create_def ws Let_def split: if_splits)
  next
    case False
    with assms(1) f1 f2 f3 a b d counted_create [OF f2, of ?r] show ?thesis
      by (cases r1; cases r2; cases r3) (auto simp: op_create_def ws Let_def split: if_splits)
  qed
qed

lemma release_counted:
  assumes "op_release ws (Some h) f = (Returned rc, f')" and "counted (f_cache f) hs" and "h \<in> set hs"
  shows "counted (f_cache f') (remove1 h hs)"
proof -
  obtain w1 w2 where ws: "ws = (w1, w2)"
    by (cases ws)
  let ?r = "fh_path h" and ?rel = "\<lambda>f. remote w2 (\<lambda>g n. client_releaseLock g n (fh_path h)) f"
  have rel: "counted (f_cache (snd (?rel f1))) hs'" if "counted (f_cache f1) hs'" for f1 hs'
    using counted_keeps [OF that requests_counts(6)] .
  show ?thesis
  proof (cases "om_find (f_cache f) ?r")
    case None
    obtain x f1 where "?rel f = (x, f1)"
      by fastforce
    with assms(1) None rel [OF counted_forget [OF assms(2) None assms(3)]] counted_forget [OF assms(2) None assms(3)] show ?thesis
      by (cases x) (auto simp: op_release_def ws split: if_splits)
  next
    case (Some e0)
    define e where "e = countClose (fh_writable h) e0"
    define f1 where "f1 = setCache (om_put ?r e) f"
    have f1: "counted (f_cache f1) (remove1 h hs)"
      using counted_close [OF assms(2,3) Some] by (simp add: f1_def e_def)
    obtain x f2 where a: "flushEntry w1 ?r e f1 = (x, f2)"
      by fastforce
    have f2: "counted (f_cache f2) (remove1 h hs)"
      using counted_keeps [OF f1 flush_counts] a by (metis snd_conv)
    obtain y f3 where b: "?rel f2 = (y, f3)"
      by fastforce
    have f3: "counted (f_cache f3) (remove1 h hs)"
      using rel [OF f2] b by simp
    have "\<exists>g\<in>{f1, f3}. f' = evictIfClosed ?r g"
      using assms(1) Some a b
      by (cases x; cases y) (auto simp: op_release_def ws Let_def simp flip: e_def f1_def split: if_splits)
    then show ?thesis
      using counted_keeps [OF f1 keepsCounts_evict] counted_keeps [OF f3 keepsCounts_evict] by auto
  qed
qed

section \<open>Sequences of operations\<close>

inductive fs_step :: "fs \<times> FileHandle list \<Rightarrow> fs \<times> FileHandle list \<Rightarrow> bool" where
  opened: "op_open ws path writable trunc f = (Returned (rc, fh), f') \<Longrightarrow> fs_step (f, hs) (f', case fh of None \<Rightarrow> hs | Some h \<Rightarrow> h # hs)"
| created: "op_create ws path writable trunc f = (Returned (rc, fh), f') \<Longrightarrow> fs_step (f, hs) (f', case fh of None \<Rightarrow> hs | Some h \<Rightarrow> h # hs)"
| released: "h \<in> set hs \<Longrightarrow> op_release ws (Some h) f = (Returned rc, f') \<Longrightarrow> fs_step (f, hs) (f', remove1 h hs)"
| read: "op_read w path want offset f = (Returned r, f') \<Longrightarrow> fs_step (f, hs) (f', hs)"
| written: "op_write path buf offset f = (rc, f') \<Longrightarrow> fs_step (f, hs) (f', hs)"
| truncated: "op_truncate path n f = (rc, f') \<Longrightarrow> fs_step (f, hs) (f', hs)"
| unlinked: "op_unlink w path f = (Returned rc, f') \<Longrightarrow> fs_step (f, hs) (f', hs)"
| pushed: "fs_step (f, hs) (f\<lparr>f_client := workerRead pushCache (f_client f)\<rparr>, hs)"
| made: "op_mkdir path f = (rc, f') \<Longrightarrow> fs_step (f, hs) (f', hs)"
| checked: "healthRound f = (Returned (), f') \<Longrightarrow> fs_step (f, hs) (f', hs)"

inductive fs_run :: "fs \<times> FileHandle list \<Rightarrow> fs \<times> FileHandle list \<Rightarrow> bool" where
  none: "fs_run x x"
| more: "fs_run x y \<Longrightarrow> fs_step y z \<Longrightarrow> fs_run x z"

lemma healthRound_app: "f_cache (snd (healthRound f)) = f_cache f"
proof -
  obtain r cl where "reconnect (f_client f) = (r, cl)" "cl_app cl = f_cache f"
    using client_more [OF reconnect_more [of "f_client f"]] by (cases "reconnect (f_client f)") simp
  moreover obtain q cl2 where "client_syncStatus cl = (q, cl2)" "cl_app cl2 = cl_app cl"
    using client_syncStatus_app [of cl] by (cases "client_syncStatus cl") simp
  ultimately show ?thesis
    by (auto simp: healthRound_def split: outcome.splits sum.splits)
qed

lemma read_counts: "keepsCounts (f_cache f) (f_cache (snd (op_read w path want offset f)))"
  unfolding op_read_def Let_def
  by (rule keeps_bindO) (auto simp: keepsCounts_refl intro: keepsCounts_trans [OF keepsCounts_touch fetch_counts])

lemma unlink_counts: "keepsCounts (f_cache f) (f_cache (snd (op_unlink w path f)))"
  unfolding op_unlink_def by (rule keeps_bindO [OF requests_counts(4)]) (simp add: keepsCounts_refl keepsCounts_erase)

lemma buffer_counts:
  "keepsCounts (f_cache f) (f_cache (snd (op_write path buf offset f)))" "keepsCounts (f_cache f) (f_cache (snd (op_truncate path n f)))"
  by (auto simp: op_write_def op_truncate_def keepsCounts_refl Let_def split: option.splits) (erule keepsCounts_update, simp_all)+

lemma step_counted: "fs_step x y \<Longrightarrow> counted (f_cache (fst x)) (snd x) \<Longrightarrow> counted (f_cache (fst y)) (snd y)"
proof (induction rule: fs_step.induct)
  case (made path f rc f' hs)
  then have "f_cache f' = f_cache f"
    by (auto simp: op_mkdir_def Let_def split: if_splits)
  with made show ?case
    by simp
next
  case (checked f f' hs)
  with healthRound_app [of f] show ?case
    by simp
next
  case (read w path want offset f r f' hs)
  with counted_keeps [OF _ read_counts [of f w path want offset]] show ?case
    by simp
next
  case (written path buf offset f rc f' hs)
  with counted_keeps [OF _ buffer_counts(1) [of f path buf offset]] show ?case
    by simp
next
  case (truncated path n f rc f' hs)
  with counted_keeps [OF _ buffer_counts(2) [of f path n]] show ?case
    by simp
next
  case (unlinked w path f rc f' hs)
  with counted_keeps [OF _ unlink_counts [of f w path]] show ?case
    by simp
next
  case (pushed f hs)
  with counted_keeps [OF _ pushes.workerRead_app] show ?case
    by simp
qed (simp_all add: open_counted create_counted release_counted)

text \<open>
  C18: a file is never held open or locked by more handles than there are. Whatever operations and pushes
  follow each other, from an empty cache, the count of open handles in the cache entry of a file is at
  most the number of handles the kernel has on it, and the count of writers at most the number of those
  that may write. So a file without handles is fetched again by the next open, and one without writers
  is locked again by the next writer.
\<close>

theorem handle_counts:
  assumes "fs_run (f0, []) (f, hs)" and "f_cache f0 = []"
  shows "0 \<le> ce_openCount (entryOf r (f_cache f)) \<and> ce_openCount (entryOf r (f_cache f)) \<le> opens r hs \<and>
    0 \<le> ce_lockCount (entryOf r (f_cache f)) \<and> ce_lockCount (entryOf r (f_cache f)) \<le> writers r hs"
proof -
  have "fs_run x y \<Longrightarrow> counted (f_cache (fst x)) (snd x) \<Longrightarrow> counted (f_cache (fst y)) (snd y)" for x y
    by (induction rule: fs_run.induct) (auto dest: step_counted)
  from this [OF assms(1)] have "counted (f_cache f) hs"
    using assms(2) by (simp add: counted_def om_ok_def entryOf_def newEntry_def opens_def writers_def)
  then show ?thesis
    by (simp add: counted_def)
qed

section \<open>Closing a handle of a deleted file\<close>

lemma ready_open:
  assumes "ready (f_client f) c n s" and "available (p_end c) = wireMsg (ackMsg True n) @ readBytesOnWire content v (n + 1)"
    and "length (rel path) \<le> 65535" and "rel path \<noteq> []" and "length content \<le> unat FILETRANSFER_MAX_SIZE"
    and "om_find (f_cache f) (rel path) = None"
  shows "\<exists>f'. op_open ((0, 0), (0, 0), (0, 0)) path True trunc f = (Returned (0, Some \<lparr>fh_path = rel path, fh_writable = True\<rparr>), f')"
proof -
  let ?r = "rel path"
  have e: "entryOf ?r (f_cache (touch ?r f)) = newEntry" "om_find (f_cache (touch ?r f)) ?r = Some newEntry"
    using assms(6) by (simp_all add: touch_def entryOf_def)
  obtain cl c1 where cl: "client_acquireLock pushCache 0 ?r (f_client (touch ?r f)) = (Returned (ackMsg True n), cl)"
    "ready cl c1 (n + 1) (s + 1)" "available (p_end c1) = readBytesOnWire content v (n + 1)" "cl_app cl = f_cache (touch ?r f)"
    using ready_lock [of "f_client (touch ?r f)" c n s ?r "ackMsg True n" _ pushCache] assms(1-3) by (auto simp: touch_def)
  let ?f1 = "(touch ?r f)\<lparr>f_client := cl\<rparr>"
  have l: "lockForWriting (0, 0) ?r True (touch ?r f) = (Returned 0, ?f1)"
    using e cl(1,4) by (simp add: lockForWriting_def remote_def newEntry_def om_has_def)
  have r1: "ready (f_client (touch ?r ?f1)) c1 (n + 1) (s + 1)"
    using cl(2) by (simp add: touch_def)
  obtain f2 where "fetchIntoCache (0, 0) ?r (touch ?r ?f1) = (Returned 0, f2)"
    using ready_fetch [OF r1 assms(3,5) cl(3)] by blast
  then have "fetchIfClosed (0, 0) (0, 0) ?r True (touch ?r ?f1) = (Returned 0, f2)"
    using e cl(4) by (simp add: fetchIfClosed_def newEntry_def)
  with l assms(4) show ?thesis
    by (simp add: op_open_def Let_def)
qed

text \<open>
  Closing a handle of a deleted file drops the changes of a new one. A file is open for reading when
  another client deletes it; the program opens the file again for writing, which succeeds, and writes
  to it. Closing the old handle then removes the new cache entry, although it has unsaved changes and
  an open handle, without sending anything to the server, and the next write fails.
\<close>

theorem stale_close_drops_changes:
  assumes "op_open ws path True trunc (setCache (om_erase (rel path)) f) = (Returned (0, Some h), f1)" and "om_ok (f_cache f)"
  shows "let f2 = snd (op_write path buf offset f1);
             (r, f3) = op_release ws' (Some \<lparr>fh_path = rel path, fh_writable = False\<rparr>) f2
         in fst (op_write path buf offset f1) = castInt (length buf) \<and> r = Returned 0 \<and>
            ep_session (f_client f3) = ep_session (f_client f2) \<and> om_find (f_cache f3) (rel path) = None \<and>
            fst (op_write path buf' offset' f3) = - EBADF"
proof -
  let ?r = "rel path" and ?f = "setCache (om_erase (rel path)) f"
  obtain w1 w2 w3 where ws: "ws = (w1, w2, w3)"
    by (cases ws)
  have ne: "?r \<noteq> []"
    using assms(1) by (auto simp: op_open_def Let_def ws)
  obtain r1 g1 where l: "lockForWriting w1 ?r True (touch ?r ?f) = (r1, g1)"
    by fastforce
  obtain r2 g2 where g: "fetchIfClosed w2 w3 ?r True (touch ?r g1) = (r2, g2)"
    by fastforce
  have "keepsCounts (f_cache ?f) (f_cache g1)"
    using keepsCounts_trans [OF keepsCounts_touch [of ?f ?r] lock_counts [of _ w1 ?r True]] l by simp
  moreover have "keepsCounts (f_cache g1) (f_cache g2)"
    using keepsCounts_trans [OF keepsCounts_touch [of g1 ?r] fetchIfClosed_counts [of _ w2 w3 ?r True]] g by simp
  ultimately have k: "keepsCounts (f_cache ?f) (f_cache g2)"
    by (rule keepsCounts_trans)
  have f1: "f1 = setCache (\<lambda>c. om_put ?r (countOpen True trunc (entryOf ?r c)) c) g2"
    using assms(1) ne l g by (cases r1; cases r2) (auto simp: op_open_def ws Let_def split: if_splits)
  have "entryOf ?r (f_cache ?f) = newEntry"
    using assms(2) by (simp add: entryOf_def)
  moreover have ok: "om_ok (f_cache g2)" and "(ce_openCount (entryOf ?r (f_cache g2)), ce_lockCount (entryOf ?r (f_cache g2))) \<in>
      {(ce_openCount (entryOf ?r (f_cache ?f)), ce_lockCount (entryOf ?r (f_cache ?f))), (0, 0)}"
    using k assms(2) by (simp_all add: keepsCounts_def del: insert_iff)
  ultimately have "ce_openCount (entryOf ?r (f_cache g2)) = 0"
    by (auto simp: newEntry_def)
  then have open1: "ce_openCount (countOpen True trunc (entryOf ?r (f_cache g2))) = 1"
    by (simp add: countOpen_def Let_def)
  show ?thesis
    using open1 ok by (simp add: f1 op_write_def op_release_def evictIfClosed_def countClose_def setCache_def Let_def split: prod.splits)
qed

theorem stale_close_drops_changes_witness:
  "\<exists>h f1. op_open ((0, 0), (0, 0), (0, 0)) ''/a'' True False
       (setCache (om_erase ''a'') (demoFs (wireMsg (ackMsg True 0) @ readBytesOnWire [7] 2 1) [(''a'', newEntry\<lparr>ce_openCount := 1\<rparr>)])) =
         (Returned (0, Some h), f1) \<and>
     fst (op_write ''/a'' [1] 0 (snd (op_release ((0, 0), (0, 0)) (Some \<lparr>fh_path = ''a'', fh_writable = False\<rparr>) (snd (op_write ''/a'' [9] 0 f1))))) = - EBADF"
proof -
  let ?f = "demoFs (wireMsg (ackMsg True 0) @ readBytesOnWire [7] 2 1) [(''a'', newEntry\<lparr>ce_openCount := 1\<rparr>)]"
  have rel: "rel ''/a'' = ''a''"
    by (simp add: rel_def)
  obtain c where c: "ready (f_client (setCache (om_erase ''a'') ?f)) c 0 0" "available (p_end c) = wireMsg (ackMsg True 0) @ readBytesOnWire [7] 2 (0 + 1)"
    using demoFs_ready(1) by fastforce
  have a: "length (rel ''/a'') \<le> 65535" "rel ''/a'' \<noteq> []" "length [7 :: u8] \<le> unat FILETRANSFER_MAX_SIZE" "om_ok (f_cache ?f)"
      "om_find (f_cache (setCache (om_erase ''a'') ?f)) (rel ''/a'') = None"
    by (simp_all add: rel FILETRANSFER_MAX_SIZE_def demoFs_ready(2) om_ok_def om_find_def)
  obtain h f1 where f1: "op_open ((0, 0), (0, 0), (0, 0)) ''/a'' True False (setCache (om_erase (rel ''/a'')) ?f) = (Returned (0, Some h), f1)"
    using ready_open [OF c a(1-3,5), of False] unfolding rel by blast
  from stale_close_drops_changes [OF f1 a(4), of "[9]" 0 "((0, 0), (0, 0))" "[1]" 0] f1 show ?thesis
    unfolding rel by (auto simp: Let_def split: prod.splits)
qed

theorem handle_counts_witness:
  "\<exists>f h. fs_run (demoFs (wireMsg (ackMsg True 0) @ readBytesOnWire [7] 2 1) [], []) (f, [h]) \<and> fh_path h = ''a'' \<and>
     ce_openCount (entryOf ''a'' (f_cache f)) \<le> 1 \<and> ce_lockCount (entryOf ''a'' (f_cache f)) \<le> 1"
proof -
  let ?f = "demoFs (wireMsg (ackMsg True 0) @ readBytesOnWire [7] 2 1) []" and ?h = "\<lparr>fh_path = ''a'', fh_writable = True\<rparr>"
  have rel: "rel ''/a'' = ''a''"
    by (simp add: rel_def)
  obtain c where c: "ready (f_client ?f) c 0 0" "available (p_end c) = wireMsg (ackMsg True 0) @ readBytesOnWire [7] 2 (0 + 1)"
    using demoFs_ready(1) by fastforce
  have a: "length (rel ''/a'') \<le> 65535" "rel ''/a'' \<noteq> []" "length [7 :: u8] \<le> unat FILETRANSFER_MAX_SIZE" "om_find (f_cache ?f) (rel ''/a'') = None"
    by (simp_all add: rel FILETRANSFER_MAX_SIZE_def demoFs_ready(2) om_find_def)
  obtain f where "op_open ((0, 0), (0, 0), (0, 0)) ''/a'' True False ?f = (Returned (0, Some ?h), f)"
    using ready_open [OF c a, of False] unfolding rel by blast
  from fs_run.more [OF fs_run.none fs_step.opened [OF this, of "[]"]] have run: "fs_run (?f, []) (f, [?h])"
    by simp
  from handle_counts [OF run, of "''a''"] run show ?thesis
    by (intro exI [of _ f] exI [of _ ?h]) (simp add: demoFs_ready(2) opens_def writers_def)
qed

end
