(* ===== verification/Lock_Manager.thy ===== *)
theory Lock_Manager
  imports Server_State
begin

text \<open>
  File locks: \<open>server/src/lock_manager.cpp\<close> and \<open>common/src/filesystem/filelock.cpp\<close>. Times are
  milliseconds; the clock is an argument of the operations that read it. The theorems state that a
  granted lock excludes every other grant until it is released, expires or its file is deleted, that
  an expired lock can be granted again, and what the notification of an expired lock does to the
  connection of its holder.
\<close>

section \<open>Locks\<close>

definition DEFAULT_LOCK_INTERVAL :: int where
  \<comment> \<open>minutes\<close>
  "DEFAULT_LOCK_INTERVAL = 5"

definition lockMillis :: int where
  "lockMillis = DEFAULT_LOCK_INTERVAL * 60000"

definition newFileLock :: "int \<Rightarrow> string \<Rightarrow> FileLock" where
  "newFileLock now path = \<lparr>fl_path = path, fl_locked = False, fl_holder = [], fl_expires = now\<rparr>"

definition insertLock :: "int \<Rightarrow> string \<Rightarrow> server \<Rightarrow> server" where
  "insertLock now path s = s\<lparr>sv_locks := om_insert path (newFileLock now path) (sv_locks s)\<rparr>"

definition eraseLock :: "string \<Rightarrow> server \<Rightarrow> server" where
  "eraseLock path s = s\<lparr>sv_locks := om_erase path (sv_locks s)\<rparr>"

definition registerLock :: "int \<Rightarrow> string \<times> int \<Rightarrow> server \<Rightarrow> server" where
  \<comment> \<open>a lock for a file without one, and the higher of the two versions\<close>
  "registerLock now e s =
     (let (path, version) = e;
          s1 = (if om_has (sv_locks s) path then s else s\<lparr>sv_locks := om_put path (newFileLock now path) (sv_locks s)\<rparr>);
          localVersion = getFileVersion (sv_disk s1) path
      in if localVersion < version then s1\<lparr>sv_disk := setFileVersion (sv_disk s1) path version\<rparr> else s1)"

fun lockRounds :: "int \<Rightarrow> nat list \<Rightarrow> server \<Rightarrow> unit outcome \<times> server" where
  "lockRounds now [] s = (Returned (), s)"
| "lockRounds now (i # is) s =
     (if \<not> node_isAlive (sv_sessions s i) then lockRounds now is s
      else bindO (sessionCall i node_syncStatus s) (\<lambda>files s1.
             if \<not> isResponse files then lockRounds now is s1
             else lockRounds now is (fold (registerLock now) (getFileVersionMap files) s1)))"

definition buildFileLockMap :: "int \<Rightarrow> server \<Rightarrow> unit outcome \<times> server" where
  "buildFileLockMap now s = lockRounds now (map snd (sv_nodes s)) s"

definition takeLock :: "int \<Rightarrow> string \<Rightarrow> string \<Rightarrow> FileLock \<Rightarrow> server \<Rightarrow> bool outcome \<times> server" where
  "takeLock now path clientName l s =
     (if \<not> fl_locked l
      then (Returned True,
            s\<lparr>sv_locks := om_put path (l\<lparr>fl_locked := True, fl_holder := clientName, fl_expires := now + lockMillis\<rparr>) (sv_locks s)\<rparr>)
      else (Returned False, s))"

definition acquireLock :: "int \<Rightarrow> string \<Rightarrow> string \<Rightarrow> server \<Rightarrow> bool outcome \<times> server" where
  "acquireLock now path clientName s =
     (case om_find (sv_locks s) path of
        Some l \<Rightarrow> takeLock now path clientName l s
      | None \<Rightarrow>
          bindO (buildFileLockMap now s) (\<lambda>_ s1.
            case om_find (sv_locks s1) path of
              None \<Rightarrow> (Returned False, s1)
            | Some l \<Rightarrow> takeLock now path clientName l s1))"

definition releaseLock :: "int \<Rightarrow> string \<Rightarrow> server \<Rightarrow> bool outcome \<times> server" where
  \<comment> \<open>whoever asks\<close>
  "releaseLock now path s =
     (case om_find (sv_locks s) path of
        Some l \<Rightarrow> (Returned True, s\<lparr>sv_locks := om_put path (l\<lparr>fl_locked := False\<rparr>) (sv_locks s)\<rparr>)
      | None \<Rightarrow> bindO (buildFileLockMap now s) (\<lambda>_ s1. (Returned False, s1)))"

definition expiredLocks :: "int \<Rightarrow> server \<Rightarrow> (string \<times> string) list" where
  "expiredLocks now s =
     map (\<lambda>(path, l). (path, fl_holder l)) (filter (\<lambda>(path, l). fl_locked l \<and> fl_expires l < now) (sv_locks s))"

definition expireLock :: "string \<times> string \<Rightarrow> server \<Rightarrow> server" where
  "expireLock e s =
     (let (path, holder) = e;
          s1 = (case om_find (sv_clients s) holder of None \<Rightarrow> s | Some i \<Rightarrow> postTo (PostRelease path) i s)
      in case om_find (sv_locks s1) path of
           None \<Rightarrow> s1
         | Some l \<Rightarrow> s1\<lparr>sv_locks := om_put path (l\<lparr>fl_locked := False\<rparr>) (sv_locks s1)\<rparr>)"

definition checkFileLockExpiration :: "int \<Rightarrow> server \<Rightarrow> server" where
  "checkFileLockExpiration now s = fold expireLock (expiredLocks now s) s"

section \<open>What the operations do to one lock\<close>

lemma sessionCall_locks: "sessionCall i f s = (r, s') \<Longrightarrow> sv_locks s' = sv_locks s"
  by (auto simp: sessionCall_def split: prod.splits)

lemma registerLock_find:
  "om_find (sv_locks s) p = Some l \<Longrightarrow> om_find (sv_locks (registerLock now e s)) p = Some l"
  by (auto simp: registerLock_def Let_def om_has_def split: prod.splits)

lemma fold_registerLock_find:
  "om_find (sv_locks s) p = Some l \<Longrightarrow> om_find (sv_locks (fold (registerLock now) es s)) p = Some l"
  by (induction es arbitrary: s) (simp_all add: registerLock_find)

lemma lockRounds_find:
  "lockRounds now is s = (r, s') \<Longrightarrow> om_find (sv_locks s) p = Some l \<Longrightarrow> om_find (sv_locks s') p = Some l"
proof (induction "now" "is" s arbitrary: r s' rule: lockRounds.induct)
  case (2 now' i "is" s)
  show ?case
  proof (cases "node_isAlive (sv_sessions s i)")
    case True
    obtain r1 s1 where call: "sessionCall i node_syncStatus s = (r1, s1)"
      by fastforce
    have l: "om_find (sv_locks s1) p = Some l"
      using sessionCall_locks [OF call] "2.prems"(2) by simp
    show ?thesis
    proof (cases r1)
      case (Returned files)
      with True call "2.prems"(1) "2.IH"(2) [OF _ , of files s1] "2.IH"(3) [OF _, of files s1] l
      show ?thesis
        by (auto simp: fold_registerLock_find split: if_splits)
    qed (use True call "2.prems"(1) l in simp_all)
  qed (use 2 in simp)
qed simp

lemma expireLock_find:
  "om_find (sv_locks (expireLock e s)) p =
     map_option (\<lambda>l. if p = fst e then l\<lparr>fl_locked := False\<rparr> else l) (om_find (sv_locks s) p)"
  by (cases e; cases "om_find (sv_locks s) p") (auto simp: expireLock_def Let_def postTo_def split: option.splits)

lemma fold_expireLock_find:
  "om_find (sv_locks (fold expireLock es s)) p =
     map_option (\<lambda>l. if p \<in> fst ` set es then l\<lparr>fl_locked := False\<rparr> else l) (om_find (sv_locks s) p)"
  by (induction es arbitrary: s)
     (auto simp: expireLock_find option.map_comp o_def map_option_idI intro!: option.map_cong)

definition locks_ok :: "server \<Rightarrow> bool" where
  "locks_ok s \<longleftrightarrow> om_ok (sv_locks s)"

lemma expired_iff:
  assumes "locks_ok s" and "om_find (sv_locks s) p = Some l"
  shows "p \<in> fst ` set (expiredLocks now s) \<longleftrightarrow> fl_locked l \<and> fl_expires l < now"
proof -
  have "(p, l') \<in> set (sv_locks s) \<longleftrightarrow> l' = l" for l'
    using assms om_find_in_set [of "sv_locks s" p l'] by (auto simp: locks_ok_def)
  then show ?thesis
    by (force simp: expiredLocks_def)
qed

lemma expiration_find:
  assumes "locks_ok s" and "om_find (sv_locks s) p = Some l"
  shows "om_find (sv_locks (checkFileLockExpiration now s)) p =
    Some (if fl_expires l < now then l\<lparr>fl_locked := False\<rparr> else l)"
  using expired_iff [OF assms, of "now"] assms(2) by (cases l) (auto simp: checkFileLockExpiration_def fold_expireLock_find)

lemma locks_ok_register: "locks_ok s \<Longrightarrow> locks_ok (fold (registerLock now) es s)"
  by (induction es arbitrary: s) (auto simp: locks_ok_def registerLock_def Let_def split: prod.splits)

lemma locks_ok_rounds: "lockRounds now is s = (r, s') \<Longrightarrow> locks_ok s \<Longrightarrow> locks_ok s'"
proof (induction "now" "is" s arbitrary: r s' rule: lockRounds.induct)
  case (2 now' i "is" s)
  show ?case
  proof (cases "node_isAlive (sv_sessions s i)")
    case True
    obtain r1 s1 where call: "sessionCall i node_syncStatus s = (r1, s1)"
      by fastforce
    have l: "locks_ok s1"
      using sessionCall_locks [OF call] "2.prems"(2) by (simp add: locks_ok_def)
    show ?thesis
    proof (cases r1)
      case (Returned files)
      with True call "2.prems"(1) "2.IH"(2) [OF _ , of files s1] "2.IH"(3) [OF _, of files s1] l
      show ?thesis
        by (auto simp: locks_ok_register split: if_splits)
    qed (use True call "2.prems"(1) l in simp_all)
  qed (use 2 in simp)
qed simp

lemma locks_ok_expire: "locks_ok s \<Longrightarrow> locks_ok (fold expireLock es s)"
  by (induction es arbitrary: s) (auto simp: locks_ok_def expireLock_def Let_def postTo_def split: prod.splits option.splits)

section \<open>Sequences of lock operations\<close>

datatype lockop =
    AcquireOp int string string
  | ReleaseOp int string
  | ExpireOp int
  | InsertOp int string
  | EraseOp string
  | BuildOp int

definition lockStep :: "lockop \<Rightarrow> server \<Rightarrow> server" where
  "lockStep op s =
     (case op of
        AcquireOp now path client \<Rightarrow> snd (acquireLock now path client s)
      | ReleaseOp now path \<Rightarrow> snd (releaseLock now path s)
      | ExpireOp now \<Rightarrow> checkFileLockExpiration now s
      | InsertOp now path \<Rightarrow> insertLock now path s
      | EraseOp path \<Rightarrow> eraseLock path s
      | BuildOp now \<Rightarrow> snd (buildFileLockMap now s))"

fun frees :: "int \<Rightarrow> string \<Rightarrow> lockop \<Rightarrow> bool" where
  \<comment> \<open>what can end a lock on \<open>path\<close> that expires at \<open>expiry\<close>\<close>
  "frees expiry path (ReleaseOp _ q) = (q = path)"
| "frees expiry path (EraseOp q) = (q = path)"
| "frees expiry path (ExpireOp now) = (expiry < now)"
| "frees expiry path _ = False"

lemma locks_ok_step: "locks_ok s \<Longrightarrow> locks_ok (lockStep op s)"
proof -
  assume ok: "locks_ok s"
  show ?thesis
  proof (cases op)
    case (ExpireOp t)
    with ok show ?thesis
      by (simp add: lockStep_def checkFileLockExpiration_def locks_ok_expire)
  next
    case (InsertOp t q)
    with ok show ?thesis
      by (simp add: lockStep_def insertLock_def locks_ok_def om_insert_def)
  next
    case (EraseOp q)
    with ok show ?thesis
      by (simp add: lockStep_def eraseLock_def locks_ok_def)
  next
    case (BuildOp t)
    with ok show ?thesis
      using locks_ok_rounds [OF prod.collapse [symmetric]] by (simp add: lockStep_def buildFileLockMap_def)
  next
    case (AcquireOp t q c)
    have take: "locks_ok (snd (takeLock t q c l s'))" if "locks_ok s'" for l s'
      using that by (simp add: takeLock_def locks_ok_def)
    obtain r s1 where b: "buildFileLockMap t s = (r, s1)"
      by fastforce
    with ok have "locks_ok s1"
      by (auto simp: buildFileLockMap_def intro: locks_ok_rounds)
    with AcquireOp ok take b show ?thesis
      by (cases r) (auto simp: lockStep_def acquireLock_def split: option.splits)
  next
    case (ReleaseOp t q)
    obtain r s1 where b: "buildFileLockMap t s = (r, s1)"
      by fastforce
    with ok have "locks_ok s1"
      by (auto simp: buildFileLockMap_def intro: locks_ok_rounds)
    with ReleaseOp ok b show ?thesis
      by (cases r) (auto simp: lockStep_def releaseLock_def locks_ok_def split: option.splits)
  qed
qed

lemma held_step:
  assumes "locks_ok s" and "om_find (sv_locks s) p = Some l" and "fl_locked l" and "\<not> frees (fl_expires l) p op"
  shows "om_find (sv_locks (lockStep op s)) p = Some l"
proof (cases op)
  case (ExpireOp t)
  with assms show ?thesis
    by (simp add: lockStep_def expiration_find)
next
  case (InsertOp t q)
  with assms(2) show ?thesis
    by (auto simp: lockStep_def insertLock_def om_insert_def om_has_def)
next
  case (EraseOp q)
  with assms show ?thesis
    by (simp add: lockStep_def eraseLock_def locks_ok_def)
next
  case (BuildOp t)
  with assms(2) show ?thesis
    using lockRounds_find [OF prod.collapse [symmetric]] by (simp add: lockStep_def buildFileLockMap_def)
next
  case (AcquireOp t q c)
  obtain r s1 where b: "buildFileLockMap t s = (r, s1)"
    by fastforce
  with assms(2) have l1: "om_find (sv_locks s1) p = Some l"
    by (auto simp: buildFileLockMap_def intro: lockRounds_find)
  show ?thesis
    using AcquireOp assms(2,3) b l1
    by (cases r; cases "q = p") (auto simp: lockStep_def acquireLock_def takeLock_def split: option.splits)
next
  case (ReleaseOp t q)
  obtain r s1 where b: "buildFileLockMap t s = (r, s1)"
    by fastforce
  with assms(2) have l1: "om_find (sv_locks s1) p = Some l"
    by (auto simp: buildFileLockMap_def intro: lockRounds_find)
  show ?thesis
    using ReleaseOp assms(2,4) b l1
    by (cases r) (auto simp: lockStep_def releaseLock_def split: option.splits)
qed

section \<open>Properties\<close>

lemma acquired:
  assumes "locks_ok s" and "acquireLock t path a s = (Returned True, s1)"
  shows "locks_ok s1 \<and> (\<exists>l. om_find (sv_locks s1) path = Some l \<and> fl_locked l \<and> fl_expires l = t + lockMillis)"
proof -
  have "locks_ok s1"
    using locks_ok_step [OF assms(1), of "AcquireOp t path a"] assms(2) by (simp add: lockStep_def)
  moreover have take: "\<exists>l'. om_find (sv_locks s1) path = Some l' \<and> fl_locked l' \<and> fl_expires l' = t + lockMillis"
    if "takeLock t path a l s0 = (Returned True, s1)" for l s0
    using that by (auto simp: takeLock_def split: if_splits)
  obtain r s0 where "buildFileLockMap t s = (r, s0)"
    by fastforce
  with assms(2) have "\<exists>l'. om_find (sv_locks s1) path = Some l' \<and> fl_locked l' \<and> fl_expires l' = t + lockMillis"
    by (cases r) (auto simp: acquireLock_def intro: take split: option.splits)
  ultimately show ?thesis
    by simp
qed

lemma held_fold:
  assumes "locks_ok s" and "om_find (sv_locks s) p = Some l" and "fl_locked l" and "\<forall>op\<in>set ops. \<not> frees (fl_expires l) p op"
  shows "om_find (sv_locks (fold lockStep ops s)) p = Some l"
  using assms by (induction ops arbitrary: s) (auto simp: held_step locks_ok_step)

text \<open>
  C15: a granted lock is exclusive. After a client was granted the lock of a file, whatever lock
  operations follow for whichever clients and files, every further request for that lock is refused,
  until the lock is released, its interval of five minutes has passed at an expiry check, or the file
  is deleted.
\<close>

theorem lock_exclusive:
  assumes "locks_ok s" and "acquireLock t path a s = (Returned True, s1)"
    and "\<forall>op\<in>set ops. \<not> frees (t + lockMillis) path op"
  shows "acquireLock t' path b (fold lockStep ops s1) = (Returned False, fold lockStep ops s1)"
proof -
  obtain l where l: "locks_ok s1" "om_find (sv_locks s1) path = Some l" "fl_locked l" "fl_expires l = t + lockMillis"
    using acquired [OF assms(1,2)] by blast
  have "om_find (sv_locks (fold lockStep ops s1)) path = Some l"
    using l assms(3) by (intro held_fold) simp_all
  with l(3) show ?thesis
    by (simp add: acquireLock_def takeLock_def)
qed

lemma new_locks_ok: "locks_ok (newServer f e d)"
  by (simp add: locks_ok_def newServer_def om_ok_def)

theorem lock_exclusive_witness:
  "\<exists>s1. acquireLock 1000 ''a'' ''c1'' (insertLock 0 ''a'' (newServer 2 0 (newFileManager ''/srv''))) = (Returned True, s1) \<and>
     acquireLock 5000 ''a'' ''c2'' (fold lockStep [ExpireOp 301000, AcquireOp 3000 ''a'' ''c3'', EraseOp ''b''] s1) =
       (Returned False, fold lockStep [ExpireOp 301000, AcquireOp 3000 ''a'' ''c3'', EraseOp ''b''] s1)"
proof -
  let ?s = "insertLock 0 ''a'' (newServer 2 0 (newFileManager ''/srv''))"
  have ok: "locks_ok ?s"
    using locks_ok_step [OF new_locks_ok, of "InsertOp 0 ''a''"] by (simp add: lockStep_def)
  obtain s1 where s1: "acquireLock 1000 ''a'' ''c1'' ?s = (Returned True, s1)"
    by (simp add: acquireLock_def takeLock_def insertLock_def newServer_def om_insert_def om_has_def om_find_def newFileLock_def)
  from lock_exclusive [OF ok this, of "[ExpireOp 301000, AcquireOp 3000 ''a'' ''c3'', EraseOp ''b'']" 5000 "''c2''"] show ?thesis
    unfolding s1 by (simp add: lockMillis_def DEFAULT_LOCK_INTERVAL_def)
qed

text \<open>
  A lock is never lost for good. Whoever was granted a lock, once an expiry check runs more than five
  minutes later the next request for it is granted, without any action of the holder.
\<close>

theorem expired_lock_regranted:
  assumes "locks_ok s" and "acquireLock t path a s = (Returned True, s1)"
    and "\<forall>op\<in>set ops. \<not> frees (t + lockMillis) path op" and "t + lockMillis < now"
  shows "\<exists>s2. acquireLock t' path b (checkFileLockExpiration now (fold lockStep ops s1)) = (Returned True, s2)"
proof -
  obtain l where l: "locks_ok s1" "om_find (sv_locks s1) path = Some l" "fl_locked l" "fl_expires l = t + lockMillis"
    using acquired [OF assms(1,2)] by blast
  have "locks_ok (fold lockStep ops s1)"
    using l(1) by (induction ops arbitrary: s1) (simp_all add: locks_ok_step)
  moreover have "om_find (sv_locks (fold lockStep ops s1)) path = Some l"
    using l assms(3) by (intro held_fold) simp_all
  ultimately have "om_find (sv_locks (checkFileLockExpiration now (fold lockStep ops s1))) path = Some (l\<lparr>fl_locked := False\<rparr>)"
    using l(4) assms(4) by (simp add: expiration_find)
  then show ?thesis
    by (simp add: acquireLock_def takeLock_def)
qed

theorem expired_lock_regranted_witness:
  "\<exists>s1 s2. acquireLock 1000 ''a'' ''c1'' (insertLock 0 ''a'' (newServer 2 0 (newFileManager ''/srv''))) = (Returned True, s1) \<and>
     acquireLock 400001 ''a'' ''c2'' (checkFileLockExpiration 400000 (fold lockStep [] s1)) = (Returned True, s2)"
proof -
  let ?s = "insertLock 0 ''a'' (newServer 2 0 (newFileManager ''/srv''))"
  have ok: "locks_ok ?s"
    using locks_ok_step [OF new_locks_ok, of "InsertOp 0 ''a''"] by (simp add: lockStep_def)
  obtain s1 where s1: "acquireLock 1000 ''a'' ''c1'' ?s = (Returned True, s1)"
    by (simp add: acquireLock_def takeLock_def insertLock_def newServer_def om_insert_def om_has_def om_find_def newFileLock_def)
  from expired_lock_regranted [OF ok this, of "[]" 400000 400001 "''c2''"] s1 show ?thesis
    by (simp add: lockMillis_def DEFAULT_LOCK_INTERVAL_def)
qed

text \<open>
  The notification of an expired lock costs its holder the next request. The worker of the client's
  session sends the notification and then waits for an answer, which clients do not send; the next
  request of the client, whatever it is, is taken for that answer and dropped, so that the worker
  finds nothing more to read, while without the notification it would have received the request.
\<close>

theorem expiry_swallows_request:
  assumes "idle C n s" and "wf_msg req" and "seq req = n" and "available C = wireMsg req" and "length path \<le> 65535"
  shows "(\<exists>C'. runPost (PostRelease path) C = (Inr (), C') \<and> at_rest C' (n + 1) (s + 1)) \<and> fst (receiveAndParse C) = req"
proof -
  have fs: "\<forall>f\<in>set [fieldString FILE_PATH path]. wf_field f" "length [fieldString FILE_PATH path] \<le> 255"
    using assms(5) by simp_all
  have av: "available C = take (length (wireMsg req)) (wireMsg req)"
    using assms(4) by simp
  obtain C' where "request C (buildFrame RELEASE_LOCK 0 [fieldString FILE_PATH path] 0) receiveAndParse = (Inr req, C')"
      "at_rest C' (n + 1) (s + 1)"
    using caller_simple [OF assms(1) fs assms(2,3) av, of RELEASE_LOCK] by auto
  moreover obtain C1 where "receiveAndParse C = (req, C1)"
    using rest_receive [OF assms(1,4,2,3)] by blast
  ultimately show ?thesis
    by (simp add: runPost_def proto_releaseLock_def releaseLockFormat_def)
qed

theorem expiry_swallows_request_witness:
  "let C = receiving (newProto freshChannel ''CLIENT'' ''c1'') (wireMsg (pathMsg ACQUIRE_LOCK ''b'' 0))
   in (\<exists>C'. runPost (PostRelease ''a'') C = (Inr (), C') \<and> at_rest C' 1 1) \<and>
      fst (receiveAndParse C) = pathMsg ACQUIRE_LOCK ''b'' 0"
proof -
  let ?p = "newProto freshChannel ''CLIENT'' ''c1''" and ?m = "pathMsg ACQUIRE_LOCK ''b'' 0"
  have rest: "at_rest ?p 0 0"
    by (simp add: at_rest_def idle_def newProto_def freshChannel_def tx_ready_def available_def rx_avail_def)
  have "idle (receiving ?p (wireMsg ?m)) 0 0" "available (receiving ?p (wireMsg ?m)) = wireMsg ?m"
    using rest available_receiving [OF rest] by (simp_all add: at_rest_def)
  from expiry_swallows_request [OF this(1) _ _ this(2), of "''a''"] show ?thesis
    by (simp add: Let_def)
qed

end
