(* ===== verification/Replication_Manager.thy ===== *)
theory Replication_Manager
  imports Lock_Manager "HOL-Library.Signed_Division"
begin

text \<open>
  Replication of files over the data nodes: \<open>server/src/replication_manager.cpp\<close>, with the fan-out of
  \<open>server/src/standby_replica_manager.cpp\<close> to the standby servers. A write is sent to one data node
  after the other and committed when enough of them acknowledge; a read asks the holders in turn for a
  copy at least as new as the version the server has committed.
\<close>

section \<open>Messages to standbys and clients\<close>

definition sendDelta :: "u8 \<Rightarrow> string \<Rightarrow> int \<Rightarrow> string list \<Rightarrow> server \<Rightarrow> server" where
  "sendDelta op path version names s =
     (case sv_standbys s of
        None \<Rightarrow> s
      | Some standbys \<Rightarrow>
          fold (postTo (PostDelta op path version names (sv_epoch s)))
            (filter (\<lambda>i. peer_isAlive (sv_peers s i)) (map snd standbys)) s)"

definition sendStandbyHeartbeats :: "server \<Rightarrow> server" where
  \<comment> \<open>a dead standby is removed, the others get a heartbeat\<close>
  "sendStandbyHeartbeats s =
     (case sv_standbys s of
        None \<Rightarrow> s
      | Some standbys \<Rightarrow>
          (let live = filter (\<lambda>(name, i). peer_isAlive (sv_peers s i)) standbys;
               dead = map fst (filter (\<lambda>(name, i). \<not> peer_isAlive (sv_peers s i)) standbys);
               s1 = fold (postTo (PostHb (sv_epoch s))) (map snd live) s
           in s1\<lparr>sv_standbys := Some (fold om_erase dead standbys)\<rparr>))"

definition removeStandby :: "string \<Rightarrow> server \<Rightarrow> server" where
  "removeStandby name s = s\<lparr>sv_standbys := map_option (om_erase name) (sv_standbys s)\<rparr>"

definition pushToClients :: "posted \<Rightarrow> string \<Rightarrow> (string, nat) omap \<Rightarrow> server \<Rightarrow> server" where
  \<comment> \<open>to every client but the one the change comes from\<close>
  "pushToClients t origin clients s = fold (postTo t) (map snd (filter (\<lambda>(name, i). name \<noteq> origin) clients)) s"

section \<open>Persistent state\<close>

definition quorum :: "int \<Rightarrow> nat" where
  \<comment> \<open>\<open>static_cast<size_t>(replicationFactor / 2) + 1\<close>, in 64 bits\<close>
  "quorum factor = nat ((factor sdiv 2 + 1) mod 2 ^ 64)"

definition buildPersistableRepMap :: "server \<Rightarrow> (string, string oset) omap" where
  "buildPersistableRepMap s = map (\<lambda>(path, holders). (path, om_keys holders)) (sv_replicas s)"

definition persistState :: "server \<Rightarrow> server" where
  "persistState s = s\<lparr>sv_disk := saveMaps (sv_disk s) (sv_versions s) (buildPersistableRepMap s)\<rparr>"

definition addHolder :: "string \<Rightarrow> string \<times> nat \<Rightarrow> server \<Rightarrow> server" where
  \<comment> \<open>\<open>dataNodeReplicationMap_[filePath][name] = session\<close>\<close>
  "addHolder path e s =
     s\<lparr>sv_replicas := om_put path (om_put (fst e) (snd e) (om_get (sv_replicas s) path)) (sv_replicas s)\<rparr>"

definition registerFile :: "string \<Rightarrow> nat \<Rightarrow> string \<times> int \<Rightarrow> server \<Rightarrow> server" where
  "registerFile name i e s =
     (let (path, version) = e;
          s1 = addHolder path (name, i) s;
          currentBest = (case om_find (sv_versions s1) path of Some v \<Rightarrow> v | None \<Rightarrow> 0)
      in if version > currentBest
         then s1\<lparr>sv_versions := om_put path version (sv_versions s1), sv_disk := setFileVersion (sv_disk s1) path version\<rparr>
         else s1)"

definition registerDataNodeFiles :: "string \<Rightarrow> nat \<Rightarrow> (string, int) omap \<Rightarrow> server \<Rightarrow> server" where
  "registerDataNodeFiles name i fileVersionMap s = persistState (fold (registerFile name i) fileVersionMap s)"

definition getKnownVersion :: "string \<Rightarrow> server \<Rightarrow> int" where
  "getKnownVersion path s = (case om_find (sv_versions s) path of Some v \<Rightarrow> v | None \<Rightarrow> -1)"

section \<open>Reading\<close>

fun tryHolders :: "string \<Rightarrow> int \<Rightarrow> nat list \<Rightarrow> server \<Rightarrow> bytes option outcome \<times> server" where
  "tryHolders path expectedVersion [] s = (Returned None, s)"
| "tryHolders path expectedVersion (i # is) s =
     bindO (sessionCall i (node_readFile path) s) (\<lambda>(mex, candidate) s1.
       if \<not> isAck mex then tryHolders path expectedVersion is s1
       else let gotVersion = int_of_u32 (getUint32 mex FILE_VERSION 0)
            in if expectedVersion < 0 \<or> gotVersion \<ge> expectedVersion then (Returned (Some candidate), s1)
               else tryHolders path expectedVersion is s1)"

definition getFileFromDataNode :: "string \<Rightarrow> server \<Rightarrow> bytes option outcome \<times> server" where
  "getFileFromDataNode path s =
     (case om_find (sv_replicas s) path of
        None \<Rightarrow> (Returned None, s)
      | Some entries \<Rightarrow>
          tryHolders path (case om_find (sv_versions s) path of Some v \<Rightarrow> v | None \<Rightarrow> -1)
            (filter (\<lambda>i. node_isAlive (sv_sessions s i)) (map snd entries)) s)"

section \<open>Writing\<close>

definition fanOutNodes :: "(node \<Rightarrow> Message outcome \<times> node) \<Rightarrow> (string \<times> nat) list \<Rightarrow> server \<Rightarrow>
    ((string \<times> nat) \<times> Message) list outcome \<times> server" where
  "fanOutNodes call es s = (let (r, st) = fanOut node_isAlive call es (sv_sessions s) in (r, s\<lparr>sv_sessions := st\<rparr>))"

definition commitCreate :: "int \<Rightarrow> string \<Rightarrow> int \<Rightarrow> string \<Rightarrow> bytes \<Rightarrow> (string \<times> nat) list \<Rightarrow> server \<Rightarrow> server" where
  "commitCreate now path version origin content ackedNodes s =
     (let s1 = fold (addHolder path) ackedNodes s;
          s2 = s1\<lparr>sv_versions := om_put path version (sv_versions s1)\<rparr>;
          s3 = insertLock now path s2;
          s4 = s3\<lparr>sv_disk := setFileVersion (sv_disk s3) path version\<rparr>;
          s5 = persistState s4;
          s6 = sendDelta 0 path version (map fst ackedNodes) s5
      in pushToClients (PushCreate path version content) origin (sv_clients s) s6)"

definition propagateCreateFile :: "int \<Rightarrow> string \<Rightarrow> int \<Rightarrow> string \<Rightarrow> bytes \<Rightarrow> server \<Rightarrow> bool outcome \<times> server" where
  "propagateCreateFile now path version origin content s =
     bindO (fanOutNodes (node_createFile path version content) (sv_nodes s) s) (\<lambda>answers s1.
       let ackedNodes = acked answers
       in if length ackedNodes < quorum (sv_factor s1)
          then (Returned False, s1\<lparr>sv_pool := sv_pool s1 @ map (\<lambda>e. RollbackDelete (snd e) path) ackedNodes\<rparr>)
          else (Returned True, commitCreate now path version origin content ackedNodes s1))"

definition nextVersion :: "string \<Rightarrow> int \<Rightarrow> server \<Rightarrow> int" where
  "nextVersion path clientSeenVersion s =
     (case om_find (sv_versions s) path of Some v \<Rightarrow> v | None \<Rightarrow> clientSeenVersion) + 1"

definition commitUpdate :: "string \<Rightarrow> int \<Rightarrow> string \<Rightarrow> bytes \<Rightarrow> server \<Rightarrow> server" where
  "commitUpdate path version origin content s =
     (let s2 = s\<lparr>sv_versions := om_put path version (sv_versions s)\<rparr>;
          s3 = s2\<lparr>sv_disk := setFileVersion (sv_disk s2) path version\<rparr>;
          s4 = persistState s3;
          s5 = sendDelta 0 path version (om_keys (om_get (sv_replicas s4) path)) s4
      in pushToClients (PushUpdate path version content) origin (sv_clients s) s5)"

definition propagateUpdateFile :: "string \<Rightarrow> int \<Rightarrow> string \<Rightarrow> bytes \<Rightarrow> server \<Rightarrow> int outcome \<times> server" where
  "propagateUpdateFile path clientSeenVersion origin content s =
     (let newVersion = nextVersion path clientSeenVersion s;
          datanodes = om_get (sv_replicas s) path
      in bindO (fanOutNodes (node_updateFile path newVersion content) datanodes s) (\<lambda>answers s1.
           if length (acked answers) < min (quorum (sv_factor s1)) (length datanodes) then (Returned (-1), s1)
           else (Returned newVersion, commitUpdate path newVersion origin content s1)))"

definition commitDelete :: "string \<Rightarrow> string \<Rightarrow> server \<Rightarrow> server" where
  "commitDelete path origin s =
     (let s1 = pushToClients (PushDelete path) origin (sv_clients s) s;
          s2 = eraseLock path s1;
          s3 = s2\<lparr>sv_replicas := om_erase path (sv_replicas s2), sv_versions := om_erase path (sv_versions s2)\<rparr>;
          s4 = s3\<lparr>sv_disk := snd (deleteFileAndVersion (sv_disk s3) path)\<rparr>
      in sendDelta 1 path 0 [] (persistState s4))"

definition propagateDeleteFile :: "string \<Rightarrow> string \<Rightarrow> server \<Rightarrow> unit outcome \<times> server" where
  "propagateDeleteFile path origin s =
     bindO (fanOutNodes (node_deleteFile path) (om_get (sv_replicas s) path) s) (\<lambda>answers s1.
       let asked = length answers; acks = length (acked answers)
       in if asked > 0 \<and> acks < min (quorum (sv_factor s1)) asked then (Returned (), s1)
          else (Returned (), commitDelete path origin s1))"

definition runPooled :: "pooled \<Rightarrow> server \<Rightarrow> unit outcome \<times> server" where
  \<comment> \<open>a task of the request pool, whose result nobody looks at\<close>
  "runPooled t s =
     (case t of
        RollbackDelete i path \<Rightarrow>
          (case sessionCall i (node_deleteFile path) s of (Blocked, s1) \<Rightarrow> (Blocked, s1) | (_, s1) \<Rightarrow> (Returned (), s1))
      | ForgetClient name \<Rightarrow> (Returned (), s\<lparr>sv_clients := om_erase name (sv_clients s)\<rparr>))"

section \<open>Losing a data node\<close>

fun copyTo :: "string \<Rightarrow> bytes \<Rightarrow> nat \<Rightarrow> (string \<times> nat) list \<Rightarrow> (string, nat) omap \<Rightarrow> server \<Rightarrow>
    (string, nat) omap outcome \<times> server" where
  \<comment> \<open>new copies until there are enough holders\<close>
  "copyTo path content enough [] holders s = (Returned holders, s)"
| "copyTo path content enough (c # cs) holders s =
     bindO (sessionCall (snd c) (node_createFile path (getFileVersion (sv_disk s) path) content) s) (\<lambda>response s1.
       if isAck response
       then let holders' = om_put (fst c) (snd c) holders
            in if length holders' \<ge> enough then (Returned holders', s1) else copyTo path content enough cs holders' s1
       else copyTo path content enough cs holders s1)"

definition rebalanceFileReplication :: "string \<Rightarrow> (string, nat) omap \<Rightarrow> server \<Rightarrow> unit outcome \<times> server" where
  "rebalanceFileReplication path holders s =
     (case holders of
        [] \<Rightarrow> (Returned (), s)
      | source # _ \<Rightarrow>
          bindO (sessionCall (snd source) (node_readFile path) s) (\<lambda>(sourceMessage, content) s1.
            if \<not> isAck sourceMessage then (Returned (), s1)
            else let candidates = filter (\<lambda>(name, i). \<not> om_has holders name \<and> node_isAlive (sv_sessions s1 i)) (sv_nodes s1)
                 in bindO (copyTo path content (nat (sv_factor s1 mod 2 ^ 64)) candidates holders s1) (\<lambda>holders' s2.
                      let s3 = s2\<lparr>sv_replicas := om_put path (fold (\<lambda>(name, i). om_put name i) holders' (om_get (sv_replicas s2) path))
                                                    (sv_replicas s2)\<rparr>
                      in (Returned (), persistState s3))))"

fun rebalanceAll :: "(string \<times> (string, nat) omap) list \<Rightarrow> server \<Rightarrow> unit outcome \<times> server" where
  "rebalanceAll [] s = (Returned (), s)"
| "rebalanceAll (t # ts) s = bindO (rebalanceFileReplication (fst t) (snd t) s) (\<lambda>_ s1. rebalanceAll ts s1)"

definition rebalanceTargets :: "string \<Rightarrow> server \<Rightarrow> (string \<times> (string, nat) omap) list" where
  \<comment> \<open>the files that had a copy on the lost node and have fewer than a quorum left\<close>
  "rebalanceTargets name s =
     filter (\<lambda>(path, holders). length holders < quorum (sv_factor s))
       (map (\<lambda>(path, holders). (path, om_erase name holders)) (filter (\<lambda>(path, holders). om_has holders name) (sv_replicas s)))"

definition eraseFromReplicationMap :: "string \<Rightarrow> server \<Rightarrow> unit outcome \<times> server" where
  "eraseFromReplicationMap name s =
     (let targets = rebalanceTargets name s;
          s1 = s\<lparr>sv_replicas := map (\<lambda>(path, holders). (path, om_erase name holders)) (sv_replicas s)\<rparr>
      in rebalanceAll targets (persistState s1))"

fun eraseAllFromReplicationMap :: "string list \<Rightarrow> server \<Rightarrow> unit outcome \<times> server" where
  "eraseAllFromReplicationMap [] s = (Returned (), s)"
| "eraseAllFromReplicationMap (name # names) s =
     bindO (eraseFromReplicationMap name s) (\<lambda>_ s1. eraseAllFromReplicationMap names s1)"

section \<open>The version map of the cluster\<close>

definition mergeVersion :: "string \<times> int \<Rightarrow> (string, int) omap \<Rightarrow> (string, int) omap" where
  "mergeVersion e m = (case om_find m (fst e) of None \<Rightarrow> om_put (fst e) (snd e) m | Some v \<Rightarrow> om_put (fst e) (max v (snd e)) m)"

fun collectVersions :: "nat list \<Rightarrow> (string, int) omap \<Rightarrow> server \<Rightarrow> (string, int) omap outcome \<times> server" where
  "collectVersions [] m s = (Returned m, s)"
| "collectVersions (i # is) m s =
     (if \<not> node_isAlive (sv_sessions s i) then collectVersions is m s
      else bindO (sessionCall i node_syncStatus s) (\<lambda>mex s1. collectVersions is (fold mergeVersion (getFileVersionMap mex) m) s1))"

definition clusterVersionMap :: "server \<Rightarrow> (string, int) omap outcome \<times> server" where
  "clusterVersionMap s = collectVersions (map snd (sv_nodes s)) (sv_versions s) s"

definition pickDataNodes :: "nat \<Rightarrow> nat \<Rightarrow> server \<Rightarrow> string list \<times> nat" where
  \<comment> \<open>the chosen nodes and the new round-robin cursor\<close>
  "pickDataNodes roundRobin count s =
     (let nodes = om_keys (sv_nodes s)
      in if nodes = [] then ([], roundRobin)
         else let cursor = roundRobin mod length nodes
              in (map (\<lambda>i. nodes ! ((cursor + i) mod length nodes)) [0..<min count (length nodes)],
                  (cursor + count) mod 2 ^ 64 mod length nodes))"

section \<open>What the helpers leave alone\<close>

definition core :: "server \<Rightarrow> (int \<times> u32) \<times> (string, nat) omap \<times> (string, nat) omap \<times> (nat \<Rightarrow> node) \<times>
    (string, (string, nat) omap) omap \<times> (string, int) omap \<times> (string, FileLock) omap \<times> disk \<times> pooled list" where
  \<comment> \<open>everything but what concerns the sessions of clients and standbys\<close>
  "core s = ((sv_factor s, sv_epoch s), sv_nodes s, sv_clients s, sv_sessions s, sv_replicas s, sv_versions s, sv_locks s,
     sv_disk s, sv_pool s)"

lemma core_postTo: "core (postTo t i s) = core s"
  by (simp add: core_def postTo_def)

lemma core_fold_postTo: "core (fold (postTo t) is s) = core s"
  by (induction "is" arbitrary: s) (simp_all add: core_postTo)

lemma core_sendDelta: "core (sendDelta op path v names s) = core s"
  by (simp add: sendDelta_def core_fold_postTo split: option.splits)

lemma core_pushToClients: "core (pushToClients t origin clients s) = core s"
  by (simp add: pushToClients_def core_fold_postTo)

lemma core_eq:
  assumes "core s' = core s"
  shows "sv_factor s' = sv_factor s" "sv_nodes s' = sv_nodes s" "sv_clients s' = sv_clients s" "sv_sessions s' = sv_sessions s"
    "sv_replicas s' = sv_replicas s" "sv_versions s' = sv_versions s" "sv_locks s' = sv_locks s" "sv_disk s' = sv_disk s"
    "sv_pool s' = sv_pool s" "sv_epoch s' = sv_epoch s"
  using assms by (simp_all add: core_def)

lemmas core_keep [simp] = core_sendDelta [THEN core_eq(1)] core_sendDelta [THEN core_eq(2)] core_sendDelta [THEN core_eq(3)]
  core_sendDelta [THEN core_eq(4)] core_sendDelta [THEN core_eq(5)] core_sendDelta [THEN core_eq(6)]
  core_sendDelta [THEN core_eq(7)] core_sendDelta [THEN core_eq(8)] core_sendDelta [THEN core_eq(9)]
  core_pushToClients [THEN core_eq(1)] core_pushToClients [THEN core_eq(2)] core_pushToClients [THEN core_eq(3)]
  core_pushToClients [THEN core_eq(4)] core_pushToClients [THEN core_eq(5)] core_pushToClients [THEN core_eq(6)]
  core_pushToClients [THEN core_eq(7)] core_pushToClients [THEN core_eq(8)] core_pushToClients [THEN core_eq(9)]

lemma persistState_simps [simp]:
  "sv_factor (persistState s) = sv_factor s" "sv_nodes (persistState s) = sv_nodes s" "sv_clients (persistState s) = sv_clients s"
  "sv_sessions (persistState s) = sv_sessions s" "sv_replicas (persistState s) = sv_replicas s"
  "sv_versions (persistState s) = sv_versions s" "sv_locks (persistState s) = sv_locks s" "sv_pool (persistState s) = sv_pool s"
  "sv_peers (persistState s) = sv_peers s" "sv_standbys (persistState s) = sv_standbys s" "sv_epoch (persistState s) = sv_epoch s"
  by (simp_all add: persistState_def)

lemma addHolder_simps [simp]:
  "sv_factor (addHolder p e s) = sv_factor s" "sv_nodes (addHolder p e s) = sv_nodes s" "sv_clients (addHolder p e s) = sv_clients s"
  "sv_sessions (addHolder p e s) = sv_sessions s" "sv_versions (addHolder p e s) = sv_versions s" "sv_locks (addHolder p e s) = sv_locks s"
  "sv_disk (addHolder p e s) = sv_disk s" "sv_pool (addHolder p e s) = sv_pool s"
  by (simp_all add: addHolder_def)

lemma fold_addHolder_simps [simp]:
  "sv_factor (fold (addHolder p) es s) = sv_factor s" "sv_nodes (fold (addHolder p) es s) = sv_nodes s"
  "sv_clients (fold (addHolder p) es s) = sv_clients s" "sv_sessions (fold (addHolder p) es s) = sv_sessions s"
  "sv_versions (fold (addHolder p) es s) = sv_versions s" "sv_locks (fold (addHolder p) es s) = sv_locks s"
  "sv_disk (fold (addHolder p) es s) = sv_disk s" "sv_pool (fold (addHolder p) es s) = sv_pool s"
  by (induction es arbitrary: s) simp_all

lemma insertLock_simps [simp]:
  "sv_factor (insertLock t p s) = sv_factor s" "sv_nodes (insertLock t p s) = sv_nodes s" "sv_clients (insertLock t p s) = sv_clients s"
  "sv_sessions (insertLock t p s) = sv_sessions s" "sv_versions (insertLock t p s) = sv_versions s"
  "sv_replicas (insertLock t p s) = sv_replicas s" "sv_disk (insertLock t p s) = sv_disk s" "sv_pool (insertLock t p s) = sv_pool s"
  by (simp_all add: insertLock_def)

section \<open>The invariant of the server\<close>

definition entries_ok :: "(nat \<Rightarrow> node) \<Rightarrow> (string, nat) omap \<Rightarrow> bool" where
  \<comment> \<open>every entry of a map refers to a session of the node it names\<close>
  "entries_ok st es \<longleftrightarrow> om_ok es \<and> (\<forall>e\<in>set es. node_ok (st (snd e)) \<and> n_name (st (snd e)) = fst e)"

definition server_ok :: "server \<Rightarrow> bool" where
  "server_ok s \<longleftrightarrow>
     entries_ok (sv_sessions s) (sv_nodes s) \<and>
     om_ok (sv_replicas s) \<and> (\<forall>r\<in>set (sv_replicas s). entries_ok (sv_sessions s) (snd r)) \<and>
     om_ok (sv_versions s) \<and> locks_ok s"

definition takes :: "(nat \<Rightarrow> node) \<Rightarrow> (string, nat) omap \<Rightarrow> string \<Rightarrow> bool" where
  \<comment> \<open>the name of the file is one every node of the map can store\<close>
  "takes st es path \<longleftrightarrow> (\<forall>e\<in>set es. accepts (node_disk (st (snd e))) path)"

definition sessions_step :: "(nat \<Rightarrow> node) \<Rightarrow> (nat \<Rightarrow> node) \<Rightarrow> bool" where
  \<comment> \<open>what calls on sessions keep\<close>
  "sessions_step st st' \<longleftrightarrow>
     (\<forall>i. n_name (st' i) = n_name (st i) \<and> (node_ok (st i) \<longrightarrow> node_ok (st' i)) \<and> same_place (node_disk (st i)) (node_disk (st' i)))"

lemma entries_distinct:
  assumes "entries_ok st es"
  shows "distinct (map snd es)"
proof -
  have "map fst es = map (\<lambda>i. n_name (st i)) (map snd es)"
    using assms by (simp add: entries_ok_def)
  then show ?thesis
    using om_ok_distinct [of es] assms unfolding entries_ok_def by (metis distinct_map)
qed

lemma entries_ok_step: "sessions_step st st' \<Longrightarrow> entries_ok st es \<Longrightarrow> entries_ok st' es"
  by (simp add: entries_ok_def sessions_step_def)

lemma takes_step: "sessions_step st st' \<Longrightarrow> takes st es path \<Longrightarrow> takes st' es path"
  by (simp add: takes_def sessions_step_def same_place_def accepts_def user_path_def)

lemma sessions_step_refl: "sessions_step st st"
  by (simp add: sessions_step_def same_place_refl)

lemma sessions_step_trans: "sessions_step st st' \<Longrightarrow> sessions_step st' st'' \<Longrightarrow> sessions_step st st''"
  by (simp add: sessions_step_def same_place_def)

lemma sessions_step_calls:
  assumes "\<forall>e\<in>set es. node_keeps path (st (snd e)) (st' (snd e))" and "\<forall>i. i \<notin> snd ` set es \<longrightarrow> st' i = st i"
  shows "sessions_step st st'"
proof -
  have "n_name (st' i) = n_name (st i) \<and> (node_ok (st i) \<longrightarrow> node_ok (st' i)) \<and> same_place (node_disk (st i)) (node_disk (st' i))" for i
  proof (cases "i \<in> snd ` set es")
    case True
    then show ?thesis
      using assms(1) by (auto simp: node_keeps_def disk_keeps_def)
  next
    case False
    then show ?thesis
      using assms(2) by (simp add: same_place_refl)
  qed
  then show ?thesis
    by (simp add: sessions_step_def)
qed

lemma holders_ok: "server_ok s \<Longrightarrow> entries_ok (sv_sessions s) (om_get (sv_replicas s) path)"
proof (cases "om_find (sv_replicas s) path")
  case None
  then show ?thesis
    by (simp add: om_get_def entries_ok_def om_ok_def)
next
  case (Some h)
  assume "server_ok s"
  with Some have "(path, h) \<in> set (sv_replicas s)"
    by (simp add: server_ok_def om_find_in_set)
  with \<open>server_ok s\<close> Some show ?thesis
    by (auto simp: server_ok_def om_get_def)
qed

section \<open>Fan-out over the data nodes\<close>

lemma server_ok_sessions:
  "server_ok s \<Longrightarrow> sessions_step (sv_sessions s) st \<Longrightarrow> server_ok (s\<lparr>sv_sessions := st\<rparr>)"
  by (auto simp: server_ok_def locks_ok_def intro: entries_ok_step)

lemma server_ok_core: "core s' = core s \<Longrightarrow> server_ok s' = server_ok s"
  using core_eq [of s' s] by (simp add: server_ok_def locks_ok_def)

lemma entries_ok_put:
  "entries_ok st es \<Longrightarrow> node_ok (st i) \<Longrightarrow> n_name (st i) = name \<Longrightarrow> entries_ok st (om_put name i es)"
proof -
  assume es: "entries_ok st es" and i: "node_ok (st i)" "n_name (st i) = name"
  have "om_ok (om_put name i es)"
    using es by (simp add: entries_ok_def)
  moreover have "node_ok (st (snd e)) \<and> n_name (st (snd e)) = fst e" if "e \<in> set (om_put name i es)" for e
  proof -
    have "om_find (om_put name i es) (fst e) = Some (snd e)"
      using that \<open>om_ok (om_put name i es)\<close> om_find_in_set [of "om_put name i es" "fst e" "snd e"] by simp
    then have "e = (name, i) \<or> e \<in> set es"
      using es om_find_in_set [of es "fst e" "snd e"] by (cases e) (auto simp: entries_ok_def split: if_splits)
    with es i show ?thesis
      by (auto simp: entries_ok_def)
  qed
  ultimately show ?thesis
    by (simp add: entries_ok_def)
qed

lemma server_ok_put_replicas:
  assumes "server_ok s" and "entries_ok (sv_sessions s) h"
  shows "server_ok (s\<lparr>sv_replicas := om_put path h (sv_replicas s)\<rparr>)"
proof -
  have ok: "om_ok (sv_replicas s)"
    using assms(1) by (simp add: server_ok_def)
  have "entries_ok (sv_sessions s) (snd r)" if r: "r \<in> set (om_put path h (sv_replicas s))" for r
  proof -
    have "om_find (om_put path h (sv_replicas s)) (fst r) = Some (snd r)"
      using r ok om_find_in_set [of "om_put path h (sv_replicas s)" "fst r" "snd r"] by simp
    then have "snd r = h \<or> r \<in> set (sv_replicas s)"
      using ok om_find_in_set [of "sv_replicas s" "fst r" "snd r"] by (cases r) (auto split: if_splits)
    with assms show ?thesis
      by (auto simp: server_ok_def)
  qed
  with assms(1) ok show ?thesis
    by (simp add: server_ok_def locks_ok_def)
qed

lemma server_ok_addHolder:
  "server_ok s \<Longrightarrow> node_ok (sv_sessions s (snd e)) \<Longrightarrow> n_name (sv_sessions s (snd e)) = fst e \<Longrightarrow> server_ok (addHolder path e s)"
  unfolding addHolder_def by (intro server_ok_put_replicas entries_ok_put holders_ok)

lemma server_ok_addHolders:
  "server_ok s \<Longrightarrow> \<forall>e\<in>set es. node_ok (sv_sessions s (snd e)) \<and> n_name (sv_sessions s (snd e)) = fst e \<Longrightarrow>
   server_ok (fold (addHolder path) es s)"
  by (induction es arbitrary: s) (auto simp: server_ok_addHolder)

lemma find_addHolders:
  "distinct (map fst es) \<Longrightarrow> e \<in> set es \<Longrightarrow>
   om_find (om_get (sv_replicas (fold (addHolder path) es s)) path) (fst e) = Some (snd e)"
proof (induction es arbitrary: s rule: rev_induct)
  case (snoc f es)
  have put: "om_find (om_get (sv_replicas (addHolder path f s')) path) k =
      (if k = fst f then Some (snd f) else om_find (om_get (sv_replicas s') path) k)" for s' k
    by (simp add: addHolder_def om_get_def)
  show ?case
  proof (cases "e = f")
    case False
    then have "e \<in> set es" "fst e \<noteq> fst f"
      using snoc.prems by (auto simp: image_iff)
    with snoc put show ?thesis
      by simp
  qed (simp add: put)
qed simp

lemma replicas_addHolders_other:
  "q \<noteq> path \<Longrightarrow> om_find (sv_replicas (fold (addHolder path) es s)) q = om_find (sv_replicas s) q"
  by (induction es arbitrary: s) (simp_all add: addHolder_def)

lemma server_ok_disk: "server_ok (s\<lparr>sv_disk := d\<rparr>) = server_ok s" "server_ok (s\<lparr>sv_pool := ts\<rparr>) = server_ok s"
    "server_ok (persistState s) = server_ok s"
  by (simp_all add: server_ok_def locks_ok_def)

lemma server_ok_version: "server_ok s \<Longrightarrow> om_ok m \<Longrightarrow> server_ok (s\<lparr>sv_versions := m\<rparr>)"
  by (simp add: server_ok_def locks_ok_def)

lemma server_ok_versions: "server_ok s \<Longrightarrow> om_ok (sv_versions s)"
  by (simp add: server_ok_def)

lemma server_ok_insertLock: "server_ok s \<Longrightarrow> server_ok (insertLock t path s)"
  by (simp add: server_ok_def locks_ok_def insertLock_def om_insert_def)

lemma acked_subset: "set (acked answers) \<subseteq> set (map fst answers)" "distinct (map fst (map fst answers)) \<Longrightarrow> distinct (map fst (acked answers))"
  by (auto simp: acked_def distinct_map_filter comp_def intro: inj_on_subset)

lemma fanOut_uploads:
  assumes "call = node_createFile path v content \<or> call = node_updateFile path v content"
    and "entries_ok st es" and "takes st es path" and "int_range v" and "length content \<le> unat FILETRANSFER_MAX_SIZE"
  shows "\<exists>answers st'. fanOut node_isAlive call es st = (Returned answers, st') \<and> sessions_step st st' \<and>
    set (acked answers) \<subseteq> set es \<and> distinct (map fst (acked answers)) \<and>
    (\<forall>e\<in>set (acked answers). n_run (st' (snd e)) \<and> stored (st' (snd e)) path = Some (content, v)) \<and>
    (\<forall>e\<in>set es. upload_step path v content (st (snd e)) (st' (snd e))) \<and>
    (\<forall>e\<in>set es. healthy (st (snd e)) \<longrightarrow> e \<in> set (acked answers) \<and> healthy (st' (snd e))) \<and>
    (\<forall>i. i \<notin> snd ` set es \<longrightarrow> st' i = st i)"
proof -
  have pre: "\<forall>e\<in>set es. node_ok (st (snd e)) \<and> upload_ok path v content (node_disk (st (snd e)))"
    using assms(2-5) by (simp add: entries_ok_def takes_def upload_ok_def)
  note dist = entries_distinct [OF assms(2)]
  obtain answers st' where fan: "fanOut node_isAlive call es st = (Returned answers, st')"
    "map fst answers = filter (\<lambda>e. node_isAlive (st (snd e))) es"
    "\<forall>e\<in>set (acked answers). n_run (st' (snd e)) \<and> stored (st' (snd e)) path = Some (content, v)"
    "\<forall>e\<in>set es. upload_step path v content (st (snd e)) (st' (snd e)) \<and>
       (healthy (st (snd e)) \<longrightarrow> e \<in> set (acked answers) \<and> healthy (st' (snd e)))"
    "\<forall>i. i \<notin> snd ` set es \<longrightarrow> st' i = st i"
    using assms(1) creates.fanOut_law [OF dist, of st path v content] updates.fanOut_law [OF dist, of st path v content] pre
    by blast
  have "\<forall>e\<in>set es. node_keeps path (st (snd e)) (st' (snd e))"
    using fan(4) by (simp add: upload_step_def)
  from sessions_step_calls [OF this fan(5)] have "sessions_step st st'" .
  moreover have "set (acked answers) \<subseteq> set es" "distinct (map fst (acked answers))"
    using acked_subset [of answers] fan(2) om_ok_distinct [of es] assms(2)
    by (auto simp: entries_ok_def distinct_map_filter)
  ultimately show ?thesis
    using fan by blast
qed

lemma commitCreate_simps:
  "sv_versions (commitCreate t path v origin content es s) = om_put path v (sv_versions s)"
  "sv_sessions (commitCreate t path v origin content es s) = sv_sessions s"
  "sv_nodes (commitCreate t path v origin content es s) = sv_nodes s"
  "sv_factor (commitCreate t path v origin content es s) = sv_factor s"
  "sv_replicas (commitCreate t path v origin content es s) = sv_replicas (fold (addHolder path) es s)"
  by (simp_all add: commitCreate_def Let_def)

lemma server_ok_commitCreate:
  assumes "server_ok s" and "\<forall>e\<in>set es. node_ok (sv_sessions s (snd e)) \<and> n_name (sv_sessions s (snd e)) = fst e"
  shows "server_ok (commitCreate t path v origin content es s)"
  unfolding commitCreate_def Let_def server_ok_core [OF core_pushToClients] server_ok_core [OF core_sendDelta]
  by (simp add: server_ok_disk server_ok_insertLock server_ok_version server_ok_versions [OF assms(1)] server_ok_addHolders [OF assms])

lemma card_acked:
  assumes "distinct (map fst es)"
  shows "card (set es) = length es"
  using assms distinct_card [of es] by (simp add: distinct_map)

section \<open>Properties\<close>

lemma create_runs:
  assumes "server_ok s" and "takes (sv_sessions s) (sv_nodes s) path" and "int_range version"
    and "length content \<le> unat FILETRANSFER_MAX_SIZE"
  obtains es st where
    "propagateCreateFile now path version origin content s =
       (if length es < quorum (sv_factor s)
        then (Returned False, s\<lparr>sv_sessions := st, sv_pool := sv_pool s @ map (\<lambda>e. RollbackDelete (snd e) path) es\<rparr>)
        else (Returned True, commitCreate now path version origin content es (s\<lparr>sv_sessions := st\<rparr>)))"
    and "server_ok (s\<lparr>sv_sessions := st\<rparr>)" and "set es \<subseteq> set (sv_nodes s)" and "card (set es) = length es"
    and "distinct (map fst es)" and "sessions_step (sv_sessions s) st"
    and "\<forall>e\<in>set es. n_run (st (snd e)) \<and> stored (st (snd e)) path = Some (content, version)"
    and "\<forall>e\<in>set (sv_nodes s). healthy (sv_sessions s (snd e)) \<longrightarrow> e \<in> set es \<and> healthy (st (snd e))"
proof -
  let ?call = "node_createFile path version content" and ?es = "sv_nodes s"
  have entries: "entries_ok (sv_sessions s) ?es"
    using assms(1) by (simp add: server_ok_def)
  obtain answers st where fan: "fanOut node_isAlive ?call ?es (sv_sessions s) = (Returned answers, st)"
    "sessions_step (sv_sessions s) st" "set (acked answers) \<subseteq> set ?es" "distinct (map fst (acked answers))"
    "\<forall>e\<in>set (acked answers). n_run (st (snd e)) \<and> stored (st (snd e)) path = Some (content, version)"
    "\<forall>e\<in>set ?es. healthy (sv_sessions s (snd e)) \<longrightarrow> e \<in> set (acked answers) \<and> healthy (st (snd e))"
    using fanOut_uploads [OF _ entries assms(2-4), of ?call] by blast
  have "propagateCreateFile now path version origin content s =
       (if length (acked answers) < quorum (sv_factor s)
        then (Returned False, s\<lparr>sv_sessions := st, sv_pool := sv_pool s @ map (\<lambda>e. RollbackDelete (snd e) path) (acked answers)\<rparr>)
        else (Returned True, commitCreate now path version origin content (acked answers) (s\<lparr>sv_sessions := st\<rparr>)))"
    using fan(1) by (simp add: propagateCreateFile_def fanOutNodes_def Let_def)
  with that [of "acked answers" st] fan card_acked [OF fan(4)] server_ok_sessions [OF assms(1) fan(2)] show thesis
    by blast
qed

text \<open>
  C4: a created file is on a quorum of data nodes. Creating a file always returns. If it reports
  success, at least a quorum of the connected data nodes have acknowledged, hold exactly the content
  and the version, and are recorded as holders, and the version is the one the server knows. If it
  reports failure, the version map, the replication map and the disk of the server are as before. A
  quorum of healthy sessions suffices for success, and the invariant of the server is kept.
\<close>

theorem create_on_quorum:
  assumes "server_ok s" and "takes (sv_sessions s) (sv_nodes s) path" and "int_range version"
    and "length content \<le> unat FILETRANSFER_MAX_SIZE"
  shows "\<exists>ok s'. propagateCreateFile now path version origin content s = (Returned ok, s') \<and> server_ok s' \<and>
    (if ok
     then getKnownVersion path s' = version \<and>
       (\<exists>H \<subseteq> set (sv_nodes s). quorum (sv_factor s) \<le> card H \<and>
          (\<forall>e\<in>H. om_find (om_get (sv_replicas s') path) (fst e) = Some (snd e) \<and>
                  stored (sv_sessions s' (snd e)) path = Some (content, version)))
     else sv_versions s' = sv_versions s \<and> sv_replicas s' = sv_replicas s \<and> sv_disk s' = sv_disk s) \<and>
    (quorum (sv_factor s) \<le> card {e \<in> set (sv_nodes s). healthy (sv_sessions s (snd e))} \<longrightarrow> ok)"
proof -
  obtain es st where run:
    "propagateCreateFile now path version origin content s =
       (if length es < quorum (sv_factor s)
        then (Returned False, s\<lparr>sv_sessions := st, sv_pool := sv_pool s @ map (\<lambda>e. RollbackDelete (snd e) path) es\<rparr>)
        else (Returned True, commitCreate now path version origin content es (s\<lparr>sv_sessions := st\<rparr>)))"
    and ok: "server_ok (s\<lparr>sv_sessions := st\<rparr>)" and es: "set es \<subseteq> set (sv_nodes s)" "card (set es) = length es" "distinct (map fst es)"
    and step: "sessions_step (sv_sessions s) st"
    and stored: "\<forall>e\<in>set es. n_run (st (snd e)) \<and> stored (st (snd e)) path = Some (content, version)"
    and healthy: "\<forall>e\<in>set (sv_nodes s). healthy (sv_sessions s (snd e)) \<longrightarrow> e \<in> set es \<and> healthy (st (snd e))"
    by (rule create_runs [OF assms, of "now" origin]) (rule that, assumption+)
  have "card {e \<in> set (sv_nodes s). healthy (sv_sessions s (snd e))} \<le> card (set es)"
    using healthy by (intro card_mono) auto
  then have enough: "quorum (sv_factor s) \<le> length es" if "quorum (sv_factor s) \<le> card {e \<in> set (sv_nodes s). healthy (sv_sessions s (snd e))}"
    using that es(2) by simp
  have names: "\<forall>e\<in>set es. node_ok (st (snd e)) \<and> n_name (st (snd e)) = fst e"
    using es(1) ok by (auto simp: server_ok_def entries_ok_def)
  show ?thesis
  proof (cases "length es < quorum (sv_factor s)")
    case True
    with run ok enough show ?thesis
      by (auto simp: server_ok_disk)
  next
    case False
    let ?s' = "commitCreate now path version origin content es (s\<lparr>sv_sessions := st\<rparr>)"
    have "\<forall>e\<in>set es. om_find (om_get (sv_replicas ?s') path) (fst e) = Some (snd e) \<and>
        stored (sv_sessions ?s' (snd e)) path = Some (content, version)"
      using find_addHolders [OF es(3)] stored by (simp add: commitCreate_simps)
    moreover have "getKnownVersion path ?s' = version"
      by (simp add: getKnownVersion_def commitCreate_simps)
    moreover have "server_ok ?s'"
      using names by (intro server_ok_commitCreate [OF ok]) simp
    moreover have "propagateCreateFile now path version origin content s = (Returned True, ?s')"
      using run False by simp
    moreover have "quorum (sv_factor s) \<le> card (set es)"
      using False es(2) by simp
    ultimately show ?thesis
      using es(1) by (intro exI [of _ True] exI [of _ ?s']) (simp, blast)
  qed
qed

lemma stored_range: "stored_on d path = Some (content, v) \<Longrightarrow> int_range v"
proof -
  have "int_range (findVersion ls p)" for ls p
    by (induction ls) (auto simp: int_range_def [of "-1"] parsed_version_range split: option.splits)
  then show "stored_on d path = Some (content, v) \<Longrightarrow> int_range v"
    by (auto simp: stored_on_def getFileVersion_def)
qed

lemma node_isAlive_ok: "node_ok nd \<Longrightarrow> node_isAlive nd = n_run nd"
  by (auto simp: node_isAlive_def node_ok_def split: prod.splits)

definition current :: "int \<Rightarrow> string \<Rightarrow> node \<Rightarrow> bytes \<Rightarrow> bool" where
  \<comment> \<open>the node has this content of the file, not older than expected\<close>
  "current expected path nd content \<longleftrightarrow> (\<exists>v. stored nd path = Some (content, v) \<and> (expected < 0 \<or> expected \<le> v))"

lemma tryHolders_law:
  assumes "distinct is" and "\<forall>i\<in>set is. node_ok (sv_sessions s i) \<and> n_run (sv_sessions s i) \<and> accepts (node_disk (sv_sessions s i)) path"
  shows "\<exists>r st. tryHolders path expected is s = (Returned r, s\<lparr>sv_sessions := st\<rparr>) \<and> sessions_step (sv_sessions s) st \<and>
    (\<forall>i. node_disk (st i) = node_disk (sv_sessions s i)) \<and>
    (\<forall>content. r = Some content \<longrightarrow> (\<exists>i\<in>set is. current expected path (sv_sessions s i) content)) \<and>
    ((\<exists>i\<in>set is. healthy (sv_sessions s i) \<and> (\<exists>content. current expected path (sv_sessions s i) content)) \<longrightarrow> r \<noteq> None)"
  using assms
proof (induction "is" arbitrary: s)
  case Nil
  show ?case
    by (intro exI [of _ None] exI [of _ "sv_sessions s"]) (simp add: sessions_step_refl)
next
  case (Cons i "is")
  let ?nd = "sv_sessions s i"
  have nd: "node_ok ?nd" "n_run ?nd" "user_path (node_disk ?nd) path" "length path \<le> 65535"
    using Cons.prems(2) by (auto simp: accepts_def)
  obtain m x nd' where call: "node_readFile path ?nd = (Returned (m, x), nd')" "node_ok nd'" "n_name nd' = n_name ?nd"
    "node_disk nd' = node_disk ?nd"
    "isAck m \<longrightarrow> (\<exists>v. stored ?nd path = Some (x, v) \<and> getUint32 m FILE_VERSION 0 = u32_of_int v)"
    "healthy ?nd \<and> stored ?nd path \<noteq> None \<longrightarrow> isAck m"
    using node_readFile_law [OF nd] by blast
  define st0 where "st0 = (sv_sessions s)(i := nd')"
  let ?got = "int_of_u32 (getUint32 m FILE_VERSION 0)" and ?s = "s\<lparr>sv_sessions := st0\<rparr>"
  have step: "sessions_step (sv_sessions s) st0" "\<forall>k. node_disk (st0 k) = node_disk (sv_sessions s k)"
    using call(2-4) by (simp_all add: st0_def sessions_step_def same_place_refl)
  have read: "sessionCall i (node_readFile path) s = (Returned (m, x), ?s)"
    using call(1) by (simp add: sessionCall_def st0_def)
  have got: "current expected path ?nd content \<longleftrightarrow> content = x \<and> (expected < 0 \<or> expected \<le> ?got)" if "isAck m" for content
    using call(5) that stored_range [of "node_disk ?nd" path] by (auto simp: current_def)
  show ?case
  proof (cases "isAck m \<and> (expected < 0 \<or> ?got \<ge> expected)")
    case True
    then have "tryHolders path expected (i # is) s = (Returned (Some x), ?s)"
      using read by (simp add: Let_def)
    moreover have "current expected path ?nd x"
      using True got by simp
    ultimately show ?thesis
      using step by (intro exI [of _ "Some x"] exI [of _ st0]) (simp del: tryHolders.simps)
  next
    case False
    have others: "st0 k = sv_sessions s k" if "k \<in> set is" for k
      using Cons.prems(1) that by (auto simp: st0_def)
    then have "\<forall>k\<in>set is. node_ok (sv_sessions ?s k) \<and> n_run (sv_sessions ?s k) \<and> accepts (node_disk (sv_sessions ?s k)) path"
      using Cons.prems(2) by simp
    from Cons.IH [OF _ this] Cons.prems(1) obtain r st where ih:
      "tryHolders path expected is ?s = (Returned r, s\<lparr>sv_sessions := st\<rparr>)" "sessions_step st0 st"
      "\<forall>k. node_disk (st k) = node_disk (st0 k)"
      "\<forall>content. r = Some content \<longrightarrow> (\<exists>k\<in>set is. current expected path (st0 k) content)"
      "(\<exists>k\<in>set is. healthy (st0 k) \<and> (\<exists>content. current expected path (st0 k) content)) \<longrightarrow> r \<noteq> None"
      by auto
    have run: "tryHolders path expected (i # is) s = (Returned r, s\<lparr>sv_sessions := st\<rparr>)"
      using False read ih(1) by (auto simp: Let_def)
    have none: "\<not> (healthy ?nd \<and> current expected path ?nd content)" for content
      using False call(6) got by (auto simp: current_def)
    have "\<forall>content. r = Some content \<longrightarrow> (\<exists>k\<in>set (i # is). current expected path (sv_sessions s k) content)"
      using ih(4) others by (metis list.set_intros(2))
    moreover have "(\<exists>k\<in>set (i # is). healthy (sv_sessions s k) \<and> (\<exists>content. current expected path (sv_sessions s k) content)) \<longrightarrow> r \<noteq> None"
      using ih(5) others none by (metis set_ConsD)
    ultimately show ?thesis
      using run sessions_step_trans [OF step(1) ih(2)] ih(3) step(2)
      by (intro exI [of _ r] exI [of _ st]) (simp del: tryHolders.simps)
  qed
qed

section \<open>Updates\<close>

lemma commitUpdate_simps:
  "sv_versions (commitUpdate path v origin content s) = om_put path v (sv_versions s)"
  "sv_sessions (commitUpdate path v origin content s) = sv_sessions s"
  "sv_replicas (commitUpdate path v origin content s) = sv_replicas s"
  "sv_nodes (commitUpdate path v origin content s) = sv_nodes s"
  by (simp_all add: commitUpdate_def Let_def)

lemma server_ok_commitUpdate: "server_ok s \<Longrightarrow> server_ok (commitUpdate path v origin content s)"
  unfolding commitUpdate_def Let_def server_ok_core [OF core_pushToClients] server_ok_core [OF core_sendDelta]
  by (simp add: server_ok_disk server_ok_version server_ok_versions)

text \<open>The fan-out of an update and its two ends.\<close>

lemma update_runs:
  fixes s path seen
  defines "h \<equiv> om_get (sv_replicas s) path" and "v \<equiv> nextVersion path seen s"
  assumes "server_ok s" and "takes (sv_sessions s) h path" and "int_range v" and "length content \<le> unat FILETRANSFER_MAX_SIZE"
  obtains es st where
    "propagateUpdateFile path seen origin content s =
       (if length es < min (quorum (sv_factor s)) (length h) then (Returned (-1), s\<lparr>sv_sessions := st\<rparr>)
        else (Returned v, commitUpdate path v origin content (s\<lparr>sv_sessions := st\<rparr>)))"
    "server_ok (s\<lparr>sv_sessions := st\<rparr>)" "sessions_step (sv_sessions s) st"
    "set es \<subseteq> set h" "card (set es) = length es"
    "\<forall>e\<in>set es. n_run (st (snd e)) \<and> stored (st (snd e)) path = Some (content, v)"
    "\<forall>e\<in>set h. upload_step path v content (sv_sessions s (snd e)) (st (snd e))"
    "\<forall>e\<in>set h. healthy (sv_sessions s (snd e)) \<longrightarrow> e \<in> set es \<and> healthy (st (snd e))"
proof -
  have entries: "entries_ok (sv_sessions s) h"
    unfolding h_def by (rule holders_ok [OF assms(3)])
  obtain answers st where fan: "fanOut node_isAlive (node_updateFile path v content) h (sv_sessions s) = (Returned answers, st)"
    "sessions_step (sv_sessions s) st" "set (acked answers) \<subseteq> set h" "distinct (map fst (acked answers))"
    "\<forall>e\<in>set (acked answers). n_run (st (snd e)) \<and> stored (st (snd e)) path = Some (content, v)"
    "\<forall>e\<in>set h. upload_step path v content (sv_sessions s (snd e)) (st (snd e))"
    "\<forall>e\<in>set h. healthy (sv_sessions s (snd e)) \<longrightarrow> e \<in> set (acked answers) \<and> healthy (st (snd e))"
    using fanOut_uploads [OF _ entries assms(4-6), of "node_updateFile path v content"] by blast
  have "propagateUpdateFile path seen origin content s =
      (if length (acked answers) < min (quorum (sv_factor s)) (length h) then (Returned (-1), s\<lparr>sv_sessions := st\<rparr>)
       else (Returned v, commitUpdate path v origin content (s\<lparr>sv_sessions := st\<rparr>)))"
    using fan(1) by (simp add: propagateUpdateFile_def fanOutNodes_def Let_def flip: h_def v_def)
  with that [of "acked answers" st] fan card_acked [OF fan(4)] server_ok_sessions [OF assms(3) fan(2)] show thesis
    by blast
qed


section \<open>Reads\<close>

lemma getFile_runs:
  assumes "server_ok s" and "takes (sv_sessions s) (om_get (sv_replicas s) path) path"
  shows "\<exists>r st. getFileFromDataNode path s = (Returned r, s\<lparr>sv_sessions := st\<rparr>) \<and> sessions_step (sv_sessions s) st \<and>
    (\<forall>i. node_disk (st i) = node_disk (sv_sessions s i)) \<and>
    (\<forall>content. r = Some content \<longrightarrow>
      (\<exists>e\<in>set (om_get (sv_replicas s) path). current (getKnownVersion path s) path (sv_sessions s (snd e)) content)) \<and>
    ((\<exists>e\<in>set (om_get (sv_replicas s) path). healthy (sv_sessions s (snd e)) \<and>
        (\<exists>content. current (getKnownVersion path s) path (sv_sessions s (snd e)) content)) \<longrightarrow> r \<noteq> None)"
proof (cases "om_find (sv_replicas s) path")
  case None
  then show ?thesis
    by (intro exI [of _ None] exI [of _ "sv_sessions s"]) (simp add: getFileFromDataNode_def om_get_def sessions_step_refl)
next
  case (Some h)
  then have h: "om_get (sv_replicas s) path = h"
    by (simp add: om_get_def)
  let ?is = "filter (\<lambda>i. node_isAlive (sv_sessions s i)) (map snd h)"
  have ok: "entries_ok (sv_sessions s) h"
    using holders_ok [OF assms(1), of path] h by simp
  have "distinct ?is"
    using entries_distinct [OF ok] by simp
  moreover have "\<forall>i\<in>set ?is. node_ok (sv_sessions s i) \<and> n_run (sv_sessions s i) \<and> accepts (node_disk (sv_sessions s i)) path"
    using ok assms(2) h by (auto simp: entries_ok_def takes_def node_isAlive_run)
  ultimately obtain r st where law: "tryHolders path (getKnownVersion path s) ?is s = (Returned r, s\<lparr>sv_sessions := st\<rparr>)"
    "sessions_step (sv_sessions s) st" "\<forall>i. node_disk (st i) = node_disk (sv_sessions s i)"
    "\<forall>content. r = Some content \<longrightarrow> (\<exists>i\<in>set ?is. current (getKnownVersion path s) path (sv_sessions s i) content)"
    "(\<exists>i\<in>set ?is. healthy (sv_sessions s i) \<and> (\<exists>content. current (getKnownVersion path s) path (sv_sessions s i) content)) \<longrightarrow> r \<noteq> None"
    using tryHolders_law [of ?is s path "getKnownVersion path s"] by blast
  have "getFileFromDataNode path s = (Returned r, s\<lparr>sv_sessions := st\<rparr>)"
    using Some law(1) by (simp add: getFileFromDataNode_def getKnownVersion_def)
  moreover have "\<forall>content. r = Some content \<longrightarrow> (\<exists>e\<in>set h. current (getKnownVersion path s) path (sv_sessions s (snd e)) content)"
    using law(4) by force
  moreover have "(\<exists>e\<in>set h. healthy (sv_sessions s (snd e)) \<and> (\<exists>content. current (getKnownVersion path s) path (sv_sessions s (snd e)) content)) \<longrightarrow> r \<noteq> None"
    using law(5) by (force simp: healthy_isAlive)
  ultimately show ?thesis
    unfolding h using law(2,3) by blast
qed



lemma read_first_holder:
  assumes "server_ok s" and "takes (sv_sessions s) (om_get (sv_replicas s) path) path" and "om_get (sv_replicas s) path = e # es"
    and "healthy (sv_sessions s (snd e))" and "stored (sv_sessions s (snd e)) path = Some (content, v)"
    and "getKnownVersion path s \<le> v"
  shows "\<exists>s'. getFileFromDataNode path s = (Returned (Some content), s')"
proof -
  let ?nd = "sv_sessions s (snd e)"
  have nd: "node_ok ?nd" "n_run ?nd" "user_path (node_disk ?nd) path" "length path \<le> 65535"
    using assms(2-4) by (auto simp: takes_def accepts_def healthy_def in_step_def)
  obtain m x nd' where call: "node_readFile path ?nd = (Returned (m, x), nd')" "isAck m"
      "\<exists>w. stored ?nd path = Some (x, w) \<and> getUint32 m FILE_VERSION 0 = u32_of_int w"
    using node_readFile_law [OF nd] assms(4,5) by force
  then have "x = content" "int_of_u32 (getUint32 m FILE_VERSION 0) = v"
    using assms(5) stored_range [of "node_disk ?nd" path content v] by auto
  moreover have "om_find (sv_replicas s) path = Some (e # es)"
    using assms(3) by (auto simp: om_get_def split: option.splits)
  ultimately show ?thesis
    using call(1,2) assms(6) healthy_isAlive [OF assms(4)]
    by (simp add: getFileFromDataNode_def getKnownVersion_def sessionCall_def Let_def)
qed

text \<open>
  C40: a rejected update can still be read. When an update is rejected with -1 although the first holder
  acknowledged it, the server keeps the old version number but serves the rejected content to the next
  reader: nothing is rolled back on the holders that stored it.
\<close>

theorem rejected_update_is_read:
  assumes "server_ok s" and "takes (sv_sessions s) (om_get (sv_replicas s) path) path" and "int_range (nextVersion path seen s)"
    and "length content \<le> unat FILETRANSFER_MAX_SIZE" and "0 \<le> nextVersion path seen s"
    and "om_get (sv_replicas s) path = e # es" and "healthy (sv_sessions s (snd e))"
    and "propagateUpdateFile path seen origin content s = (Returned (-1), s1)"
  shows "getKnownVersion path s1 = getKnownVersion path s \<and> (\<exists>s2. getFileFromDataNode path s1 = (Returned (Some content), s2))"
proof -
  let ?h = "om_get (sv_replicas s) path" and ?v = "nextVersion path seen s"
  obtain acks st where run:
    "propagateUpdateFile path seen origin content s =
       (if length acks < min (quorum (sv_factor s)) (length ?h) then (Returned (-1), s\<lparr>sv_sessions := st\<rparr>)
        else (Returned ?v, commitUpdate path ?v origin content (s\<lparr>sv_sessions := st\<rparr>)))"
    and ok: "server_ok (s\<lparr>sv_sessions := st\<rparr>)" and step: "sessions_step (sv_sessions s) st"
    and stored: "\<forall>f\<in>set acks. n_run (st (snd f)) \<and> stored (st (snd f)) path = Some (content, ?v)"
    and healthy: "\<forall>f\<in>set ?h. healthy (sv_sessions s (snd f)) \<longrightarrow> f \<in> set acks \<and> healthy (st (snd f))"
    by (rule update_runs [OF assms(1-4), of origin]) (rule that, assumption+)
  have s1: "s1 = s\<lparr>sv_sessions := st\<rparr>"
    using run assms(5,8) by (auto split: if_splits)
  have e: "healthy (st (snd e))" "stored (st (snd e)) path = Some (content, ?v)"
    using assms(6,7) healthy stored by simp_all
  have known: "getKnownVersion path s1 = getKnownVersion path s" "getKnownVersion path s \<le> ?v"
    using assms(5) by (auto simp: s1 getKnownVersion_def nextVersion_def split: option.splits)
  have "takes (sv_sessions s1) (om_get (sv_replicas s1) path) path"
    using takes_step [OF step assms(2)] by (simp add: s1)
  from read_first_holder [OF _ this, of e es content ?v] ok e known assms(6) show ?thesis
    by (simp add: s1)
qed

lemma small_files_new: "small_files (newFileManager r)"
  by (auto simp: small_files_def newFileManager_def createFileVersionFile_def writeDisk_def readDisk_def om_find_def om_has_def
      split: if_splits)

definition demoServer :: "node \<Rightarrow> node \<Rightarrow> server" where
  "demoServer a b = (newServer 2 0 (newFileManager ''/srv''))\<lparr>
     sv_nodes := [(''dn1'', 0), (''dn2'', 1)], sv_sessions := (\<lambda>i. if i = 0 then a else b),
     sv_replicas := [(''a'', [(''dn1'', 0), (''dn2'', 1)])], sv_versions := [(''a'', 1)]\<rparr>"

lemma demo_disk: "storage_ok (newFileManager ''/dn'')" "accepts (newFileManager ''/dn'') ''a''"
proof -
  show "storage_ok (newFileManager ''/dn'')"
    by code_simp
  have "user_path (newFileManager ''/dn'') ''a''" "resolvePath (root (newFileManager ''/dn'')) ''a'' \<notin> set (unopenable (newFileManager ''/dn''))"
    by code_simp+
  then show "accepts (newFileManager ''/dn'') ''a''"
    by (simp add: accepts_def)
qed

lemma demo_node: "healthy (newNode name (newFileManager ''/dn''))"
  by (rule newNode_healthy [OF demo_disk(1) small_files_new])

lemma demo_simps:
  "sv_nodes (demoServer a b) = [(''dn1'', 0), (''dn2'', 1)]" "om_get (sv_replicas (demoServer a b)) ''a'' = [(''dn1'', 0), (''dn2'', 1)]"
  "sv_sessions (demoServer a b) 0 = a" "sv_sessions (demoServer a b) (Suc 0) = b" "sv_factor (demoServer a b) = 2"
  "nextVersion ''a'' seen (demoServer a b) = 2"
  by (simp_all add: demoServer_def newServer_def om_get_def om_find_def nextVersion_def)

lemma quorum_2: "quorum 2 = 2"
  by code_simp

lemma demo_ok:
  assumes "node_ok a" and "node_ok b" and "n_name a = ''dn1''" and "n_name b = ''dn2''"
  shows "server_ok (demoServer a b)"
proof -
  have "om_ok [(''dn1'', 0 :: nat), (''dn2'', 1)]" "om_ok [(''a'', [(''dn1'', 0 :: nat), (''dn2'', 1)])]" "om_ok [(''a'', 1 :: int)]"
    by code_simp+
  with assms show ?thesis
    by (simp add: server_ok_def entries_ok_def demoServer_def newServer_def locks_ok_def om_ok_def)
qed

abbreviation demoUp :: server where
  "demoUp \<equiv> demoServer (newNode ''dn1'' (newFileManager ''/dn'')) (newNode ''dn2'' (newFileManager ''/dn''))"

lemma demoUp_ok: "server_ok demoUp" "takes (sv_sessions demoUp) (sv_nodes demoUp) ''a''"
    "takes (sv_sessions demoUp) (om_get (sv_replicas demoUp) ''a'') ''a''"
    "\<forall>e\<in>set (om_get (sv_replicas demoUp) ''a''). healthy (sv_sessions demoUp (snd e))"
  using demo_node [unfolded healthy_def] demo_node demo_disk(2)
  by (auto intro!: demo_ok simp: takes_def demo_simps)

lemma demo_content: "length [1, 2, 3 :: u8] \<le> unat FILETRANSFER_MAX_SIZE" "int_range 2"
  by (simp_all add: FILETRANSFER_MAX_SIZE_def int_range_def)

theorem create_on_quorum_witness:
  "\<exists>s'. propagateCreateFile 0 ''a'' 2 ''c'' [1, 2, 3] demoUp = (Returned True, s') \<and> getKnownVersion ''a'' s' = 2"
proof -
  have "{e \<in> set (sv_nodes demoUp). healthy (sv_sessions demoUp (snd e))} = {(''dn1'', 0), (''dn2'', 1)}"
    using demo_node by (auto simp: demo_simps)
  then have "quorum (sv_factor demoUp) \<le> card {e \<in> set (sv_nodes demoUp). healthy (sv_sessions demoUp (snd e))}"
    by (simp add: demo_simps quorum_2)
  moreover obtain ok s' where "propagateCreateFile 0 ''a'' 2 ''c'' [1, 2, 3] demoUp = (Returned ok, s')"
      "ok \<longrightarrow> getKnownVersion ''a'' s' = 2"
      "quorum (sv_factor demoUp) \<le> card {e \<in> set (sv_nodes demoUp). healthy (sv_sessions demoUp (snd e))} \<longrightarrow> ok"
    using create_on_quorum [OF demoUp_ok(1,2) demo_content(2,1), of 0 "''c''"] by auto
  ultimately show ?thesis
    by auto
qed




abbreviation demoHalf :: server where
  \<comment> \<open>the session of the second holder has ended\<close>
  "demoHalf \<equiv> demoServer (newNode ''dn1'' (newFileManager ''/dn'')) ((newNode ''dn2'' (newFileManager ''/dn''))\<lparr>n_run := False\<rparr>)"

lemma demoHalf_ok: "server_ok demoHalf" "takes (sv_sessions demoHalf) (om_get (sv_replicas demoHalf) ''a'') ''a''"
proof -
  have "node_ok ((newNode ''dn2'' (newFileManager ''/dn''))\<lparr>n_run := False\<rparr>)"
    by (rule node_ok_stopped) (simp_all add: newNode_def demo_disk small_files_new)
  with demo_node [of "''dn1''"] show "server_ok demoHalf"
    by (intro demo_ok) (simp_all add: healthy_def newNode_def)
  show "takes (sv_sessions demoHalf) (om_get (sv_replicas demoHalf) ''a'') ''a''"
    using demo_disk(2) by (simp add: takes_def demo_simps newNode_def)
qed

theorem rejected_update_is_read_witness:
  "\<exists>s1 s2. propagateUpdateFile ''a'' 0 ''c'' [1, 2, 3] demoHalf = (Returned (-1), s1) \<and> getKnownVersion ''a'' s1 = 1 \<and>
     getFileFromDataNode ''a'' s1 = (Returned (Some [1, 2, 3]), s2)"
proof -
  have v: "int_range (nextVersion ''a'' 0 demoHalf)" "0 \<le> nextVersion ''a'' 0 demoHalf"
    using demo_content(2) by (simp_all add: demo_simps)
  let ?nd = "newNode ''dn1'' (newFileManager ''/dn'')"
  have "node_ok ?nd \<and> upload_ok ''a'' 2 [1, 2, 3] (node_disk ?nd)"
    using demo_node [of "''dn1''"] demo_disk(2) demo_content by (simp add: healthy_def upload_ok_def)
  then obtain m nd' where call: "node_updateFile ''a'' 2 [1, 2, 3] ?nd = (Returned m, nd')"
    using upload_returns [of ?nd "''a''" 2 "[1, 2, 3]" UPDATE_FILE] healthy_isAlive [OF demo_node] by (auto simp: node_updateFile_def)
  have "\<exists>s1. propagateUpdateFile ''a'' 0 ''c'' [1, 2, 3] demoHalf = (Returned (-1), s1)"
    using call healthy_isAlive [OF demo_node, of "''dn1''"]
    by (simp add: propagateUpdateFile_def fanOutNodes_def demo_simps quorum_2 node_isAlive_def acked_def Let_def)
  then obtain s1 where s1: "propagateUpdateFile ''a'' 0 ''c'' [1, 2, 3] demoHalf = (Returned (-1), s1)"
    by blast
  have "om_get (sv_replicas demoHalf) ''a'' = (''dn1'', 0) # [(''dn2'', 1)]" "healthy (sv_sessions demoHalf (snd (''dn1'', 0)))"
    using demo_node by (simp_all add: demo_simps)
  from rejected_update_is_read [OF demoHalf_ok v(1) demo_content(1) v(2) this s1] s1
  have "getKnownVersion ''a'' s1 = getKnownVersion ''a'' demoHalf" "\<exists>s2. getFileFromDataNode ''a'' s1 = (Returned (Some [1, 2, 3]), s2)"
    by simp_all
  moreover have "getKnownVersion ''a'' demoHalf = 1"
    by (simp add: getKnownVersion_def demoServer_def om_find_def)
  ultimately show ?thesis
    using s1 by auto
qed

text \<open>
  The quorum is a majority of the replication factor. For every replication factor of at least one
  that the configuration can hold, the quorum is at least one, at most the factor, and more than half
  of it, so that two quorums among that many holders share a holder.
\<close>

theorem quorum_is_majority:
  assumes "0 < factor" and "int_range factor"
  shows "0 < quorum factor \<and> int (quorum factor) \<le> factor \<and> factor < 2 * int (quorum factor)"
proof -
  have "factor sdiv 2 = factor div 2"
    using assms(1) by (simp add: signed_divide_int_def)
  moreover have "(factor div 2 + 1) mod 2 ^ 64 = factor div 2 + 1"
    using assms by (intro mod_pos_pos_trivial) (auto simp: int_range_def)
  ultimately have "int (quorum factor) = factor div 2 + 1"
    using assms(1) by (simp add: quorum_def)
  with assms(1) show ?thesis
    by linarith
qed

theorem quorum_is_majority_witness: "0 < quorum 3 \<and> int (quorum 3) \<le> 3 \<and> 3 < 2 * int (quorum 3)"
  by (rule quorum_is_majority) (simp_all add: int_range_def)

end
