(* ===== verification/Heartbeat_Manager.thy ===== *)
theory Heartbeat_Manager
  imports Replication_Manager
begin

text \<open>
  The periodic check of the data nodes: \<open>server/src/heartbeat_manager.cpp\<close>. Every data node in the
  endpoint map is asked for a sign of life; the ones that do not acknowledge are taken out of the maps
  of the server and their files are copied to other nodes.
\<close>

section \<open>One round\<close>

fun pingAll :: "(string \<times> nat) list \<Rightarrow> server \<Rightarrow> string list outcome \<times> server" where
  \<comment> \<open>the names of the nodes that do not acknowledge; nobody asks whether the session is alive\<close>
  "pingAll [] s = (Returned [], s)"
| "pingAll (e # es) s =
     bindO (sessionCall (snd e) node_heartbeat s) (\<lambda>hb s1.
       if isAck hb then pingAll es s1
       else bindO (pingAll es (s1\<lparr>sv_sessions := (sv_sessions s1)(snd e := node_setIsAlive False (sv_sessions s1 (snd e)))\<rparr>))
              (\<lambda>deadNodes s2. (Returned (fst e # deadNodes), s2)))"

definition sendHeartbeats :: "server \<Rightarrow> unit outcome \<times> server" where
  "sendHeartbeats s =
     bindO (pingAll (sv_nodes s) s) (\<lambda>deadNodes s1.
       eraseAllFromReplicationMap deadNodes (s1\<lparr>sv_nodes := fold om_erase deadNodes (sv_nodes s1)\<rparr>))"

section \<open>A session that has ended\<close>

lemma pingAll_blocks:
  assumes "distinct (map snd es)" and "\<forall>e\<in>set es. node_ok (sv_sessions s (snd e))" and "\<exists>e\<in>set es. \<not> n_run (sv_sessions s (snd e))"
  shows "fst (pingAll es s) = Blocked"
  using assms
proof (induction es arbitrary: s)
  case (Cons e es)
  let ?nd = "sv_sessions s (snd e)"
  show ?case
  proof (cases "n_run ?nd")
    case False
    then show ?thesis
      by (simp add: sessionCall_def node_heartbeat_def node_call_def)
  next
    case True
    obtain m nd' where call: "node_heartbeat ?nd = (Returned m, nd')"
      using node_heartbeat_law [OF _ True] Cons.prems(2) by auto
    have other: "sv_sessions (s\<lparr>sv_sessions := (sv_sessions s)(snd e := x)\<rparr>) (snd e') = sv_sessions s (snd e')" if "e' \<in> set es" for e' x
      using Cons.prems(1) that by (auto simp: image_iff)
    have rest: "\<exists>e'\<in>set es. \<not> n_run (sv_sessions s (snd e'))"
      using Cons.prems(3) True by auto
    have "fst (pingAll es (s\<lparr>sv_sessions := (sv_sessions s)(snd e := x)\<rparr>)) = Blocked" for x
      using Cons.prems rest other by (intro Cons.IH) (auto simp del: fun_upd_apply)
    then have "\<exists>s'. pingAll es (s\<lparr>sv_sessions := (sv_sessions s)(snd e := x)\<rparr>) = (Blocked, s')" for x
      by (metis prod.collapse)
    from this [of nd'] this [of "node_setIsAlive False nd'"] call show ?thesis
      by (auto simp: sessionCall_def)
  qed
qed simp

text \<open>
  One lost data node stops the failure detector. As soon as the worker of a session in the endpoint map
  has left its loop, as it does when any other call finds the connection broken, the next round of
  heartbeats waits for ever for an answer of that session: the lost node is not taken out of the maps,
  and no later failure is noticed either.
\<close>

theorem lost_node_stops_heartbeats:
  assumes "server_ok s" and "e \<in> set (sv_nodes s)" and "\<not> n_run (sv_sessions s (snd e))"
  shows "\<exists>s'. sendHeartbeats s = (Blocked, s')"
proof -
  have ok: "entries_ok (sv_sessions s) (sv_nodes s)"
    using assms(1) by (simp add: server_ok_def)
  have "fst (pingAll (sv_nodes s) s) = Blocked"
    using ok assms(2,3) by (intro pingAll_blocks [OF entries_distinct [OF ok]]) (auto simp: entries_ok_def)
  then obtain s' where "pingAll (sv_nodes s) s = (Blocked, s')"
    by (metis prod.collapse)
  then show ?thesis
    by (simp add: sendHeartbeats_def)
qed

theorem lost_node_stops_heartbeats_witness: "\<exists>s'. sendHeartbeats demoHalf = (Blocked, s')"
  by (rule lost_node_stops_heartbeats [OF demoHalf_ok(1), of "(''dn2'', 1)"]) (simp_all add: demoServer_def)

end
