(* ===== verification/Replica_Recovery.thy ===== *)
theory Replica_Recovery
  imports Heartbeat_Manager
begin

text \<open>
  What rebalancing achieves: \<open>rebalanceFileReplication\<close> of \<open>server/src/replication_manager.cpp\<close>. When the
  first remaining holder of a file has a copy, the file is stored on further data nodes until it has as
  many holders as the replication factor asks for, or no node is left.
\<close>

section \<open>Entries of an ordered map\<close>

lemma set_om_put_new:
  assumes "om_ok m" and "\<not> om_has m k"
  shows "set (om_put k v m) = insert (k, v) (set m)"
proof (intro set_eqI)
  fix e :: "'a \<times> 'b"
  obtain k' v' where e: "e = (k', v')"
    by fastforce
  have "e \<in> set (om_put k v m) \<longleftrightarrow> om_find (om_put k v m) k' = Some v'"
    using om_find_in_set [of "om_put k v m"] assms(1) e by simp
  also have "\<dots> \<longleftrightarrow> e = (k, v) \<or> e \<in> set m"
    using assms om_find_in_set [OF assms(1), of k' v'] e by (auto simp: om_has_def)
  finally show "e \<in> set (om_put k v m) \<longleftrightarrow> e \<in> insert (k, v) (set m)"
    by simp
qed

lemma om_card: "om_ok m \<Longrightarrow> card (set m) = length m"
  using om_ok_distinct [of m] by (simp add: distinct_card distinct_map)

lemma length_om_put_new: "om_ok m \<Longrightarrow> \<not> om_has m k \<Longrightarrow> length (om_put k v m) = Suc (length m)"
proof -
  assume ok: "om_ok m" and new: "\<not> om_has m k"
  have "(k, v) \<notin> set m"
    using new om_find_in_set [OF ok, of k v] by (simp add: om_has_def)
  with om_card [of "om_put k v m"] om_card [OF ok] set_om_put_new [OF ok new, of v] ok show ?thesis
    by simp
qed

lemma put_all_onto_part:
  assumes "om_ok h" and "om_ok h'" and "set h \<subseteq> set h'"
  shows "fold (\<lambda>(name, i). om_put name i) h' h = h'"
proof (rule om_eqI)
  show "om_ok (fold (\<lambda>(name, i). om_put name i) h' h)"
    using assms(1) by (rule om.wf_put_all)
  show "om_find (fold (\<lambda>(name, i). om_put name i) h' h) k = om_find h' k" for k
  proof (cases "om_find h' k")
    case None
    then have "om_find h k = None"
      using assms om_find_in_set [OF assms(1), of k] om_find_in_set [OF assms(2), of k] by (cases "om_find h k") auto
    with None show ?thesis
      by (simp add: om.find_put_all [OF assms(1)] om_find_map_of_rev [OF assms(2)])
  qed (simp add: om.find_put_all [OF assms(1)] om_find_map_of_rev [OF assms(2)])
qed (rule assms(2))

section \<open>Copying to the candidates\<close>

lemma getFileVersion_range: "int_range (getFileVersion d path)"
proof -
  have "int_range (findVersion ls p)" for ls p
    by (induction ls) (auto simp: int_range_def [of "-1"] parsed_version_range split: option.splits)
  then show ?thesis
    by (simp add: getFileVersion_def)
qed

lemma copyTo_law:
  assumes "distinct (map fst cs)" and "distinct (map snd cs)" and "om_ok holders" and "\<forall>c\<in>set cs. \<not> om_has holders (fst c)"
    and "\<forall>c\<in>set cs. healthy (sv_sessions s (snd c)) \<and> accepts (node_disk (sv_sessions s (snd c))) path"
    and "length content \<le> unat FILETRANSFER_MAX_SIZE"
  shows "\<exists>h st. copyTo path content enough cs holders s = (Returned h, s\<lparr>sv_sessions := st\<rparr>) \<and> sessions_step (sv_sessions s) st \<and>
    om_ok h \<and> set holders \<subseteq> set h \<and> min enough (length holders + length cs) \<le> length h \<and>
    (\<forall>e\<in>set h. e \<in> set holders \<or> e \<in> set cs \<and> stored (st (snd e)) path = Some (content, getFileVersion (sv_disk s) path)) \<and>
    (\<forall>i. i \<notin> snd ` set cs \<longrightarrow> st i = sv_sessions s i)"
  using assms
proof (induction cs arbitrary: holders s)
  case Nil
  show ?case
    using Nil.prems(3) by (intro exI [of _ holders] exI [of _ "sv_sessions s"]) (simp add: sessions_step_refl)
next
  case (Cons c cs)
  let ?nd = "sv_sessions s (snd c)" and ?v = "getFileVersion (sv_disk s) path"
  have nd: "node_ok ?nd" "n_run ?nd" "upload_ok path ?v content (node_disk ?nd)" "healthy ?nd"
    using Cons.prems(5,6) getFileVersion_range by (auto simp: healthy_def in_step_def upload_ok_def)
  obtain m nd' where call: "node_createFile path ?v content ?nd = (Returned m, nd')" "node_keeps path ?nd nd'" "isAck m"
    "stored nd' path = Some (content, ?v)"
    using node_upload_law [OF nd(1-3), of CREATE_FILE] nd(4) by (auto simp: node_createFile_def)
  define st0 where "st0 = (sv_sessions s)(snd c := nd')"
  let ?h = "om_put (fst c) (snd c) holders" and ?s = "s\<lparr>sv_sessions := st0\<rparr>"
  have step: "sessions_step (sv_sessions s) st0"
    using sessions_step_calls [of "[c]" path "sv_sessions s" st0] call(2) by (simp add: st0_def)
  have new: "\<not> om_has holders (fst c)"
    using Cons.prems(4) by simp
  have h: "om_ok ?h" "set ?h = insert c (set holders)" "length ?h = Suc (length holders)"
    using set_om_put_new [OF Cons.prems(3) new, of "snd c"] length_om_put_new [OF Cons.prems(3) new] Cons.prems(3) by simp_all
  have run: "copyTo path content enough (c # cs) holders s =
      (if length ?h \<ge> enough then (Returned ?h, ?s) else copyTo path content enough cs ?h ?s)"
    using call(1,3) by (simp add: sessionCall_def st0_def Let_def)
  have c: "st0 (snd c) = nd'"
    by (simp add: st0_def)
  have other: "st0 i = sv_sessions s i" if "i \<noteq> snd c" for i
    using that by (simp add: st0_def)
  show ?case
  proof (cases "length ?h \<ge> enough")
    case True
    with run have "copyTo path content enough (c # cs) holders s = (Returned ?h, ?s)"
      by simp
    with h step c call(4) other True show ?thesis
      by (intro exI [of _ ?h] exI [of _ st0]) auto
  next
    case False
    have cs: "\<forall>e\<in>set cs. snd e \<noteq> snd c \<and> fst e \<noteq> fst c"
      using Cons.prems(1,2) by (auto simp: image_iff)
    then have pre: "\<forall>e\<in>set cs. \<not> om_has ?h (fst e)"
        "\<forall>e\<in>set cs. healthy (sv_sessions ?s (snd e)) \<and> accepts (node_disk (sv_sessions ?s (snd e))) path"
      using Cons.prems(4,5) other by (auto simp: om_has_def)
    have dist: "distinct (map fst cs)" "distinct (map snd cs)"
      using Cons.prems(1,2) by simp_all
    obtain h' st where ih: "copyTo path content enough cs ?h ?s = (Returned h', ?s\<lparr>sv_sessions := st\<rparr>)"
      "sessions_step (sv_sessions ?s) st" "om_ok h'" "set ?h \<subseteq> set h'" "min enough (length ?h + length cs) \<le> length h'"
      "\<forall>e\<in>set h'. e \<in> set ?h \<or> e \<in> set cs \<and> stored (st (snd e)) path = Some (content, getFileVersion (sv_disk ?s) path)"
      "\<forall>i. i \<notin> snd ` set cs \<longrightarrow> st i = sv_sessions ?s i"
      using Cons.IH [OF dist h(1) pre Cons.prems(6)] by blast
    have "snd c \<notin> snd ` set cs"
      using Cons.prems(2) by simp
    then have "st (snd c) = nd'"
      using ih(7) c by simp
    moreover have "sessions_step (sv_sessions s) st"
      using sessions_step_trans [OF step] ih(2) by simp
    ultimately show ?thesis
      using run False ih h(2,3) call(4) other by (intro exI [of _ h'] exI [of _ st]) (auto simp: st0_def)
  qed
qed

section \<open>Rebalancing a file\<close>

lemma rebalance_read:
  assumes "node_ok nd" and "healthy nd" and "accepts (node_disk nd) path" and "stored nd path = Some (content, v)"
  shows "\<exists>m nd'. node_readFile path nd = (Returned (m, content), nd') \<and> isAck m \<and> node_ok nd' \<and> n_name nd' = n_name nd \<and>
    node_disk nd' = node_disk nd"
proof -
  have "n_run nd" "user_path (node_disk nd) path" "length path \<le> 65535"
    using assms(2,3) by (simp_all add: healthy_def in_step_def accepts_def)
  from node_readFile_law [OF assms(1) this] assms(2,4) show ?thesis
    by force
qed

lemma node_small: "node_ok nd \<Longrightarrow> accepts (node_disk nd) path \<Longrightarrow> stored nd path = Some (content, v) \<Longrightarrow> length content \<le> unat FILETRANSFER_MAX_SIZE"
  using node_ok_disk [of nd] by (auto simp: stored_on_def accepts_def user_path_def small_files_def)

lemma rebalance_runs:
  assumes "server_ok s" and "holders = source # others" and "om_get (sv_replicas s) path = holders"
    and "healthy (sv_sessions s (snd source))" and "stored (sv_sessions s (snd source)) path = Some (content, v)"
    and "\<forall>e\<in>set (sv_nodes s). healthy (sv_sessions s (snd e))" and "takes (sv_sessions s) (sv_nodes s) path"
    and "takes (sv_sessions s) holders path"
  shows "\<exists>h st. rebalanceFileReplication path holders s =
      (Returned (), persistState (s\<lparr>sv_sessions := st, sv_replicas := om_put path h (sv_replicas s)\<rparr>)) \<and>
    sessions_step (sv_sessions s) st \<and> om_ok h \<and> set holders \<subseteq> set h \<and>
    min (nat (sv_factor s mod 2 ^ 64)) (length holders + length (filter (\<lambda>e. \<not> om_has holders (fst e)) (sv_nodes s))) \<le> length h \<and>
    (\<forall>e\<in>set h. e \<in> set holders \<or> e \<in> set (sv_nodes s) \<and> \<not> om_has holders (fst e) \<and>
       stored (st (snd e)) path = Some (content, getFileVersion (sv_disk s) path))"
proof -
  let ?src = "sv_sessions s (snd source)" and ?n = "nat (sv_factor s mod 2 ^ 64)"
  have hok: "entries_ok (sv_sessions s) holders"
    using holders_ok [OF assms(1), of path] assms(3) by simp
  then have src: "node_ok ?src" "n_name ?src = fst source" "accepts (node_disk ?src) path" and om: "om_ok holders"
    using assms(2,8) by (simp_all add: entries_ok_def takes_def)
  have nok: "entries_ok (sv_sessions s) (sv_nodes s)"
    using assms(1) by (simp add: server_ok_def)
  obtain m nd where rd: "node_readFile path ?src = (Returned (m, content), nd)" "isAck m" "node_ok nd" "n_name nd = n_name ?src"
    "node_disk nd = node_disk ?src"
    using rebalance_read [OF src(1) assms(4) src(3) assms(5)] by blast
  define st0 where "st0 = (sv_sessions s)(snd source := nd)"
  let ?s = "s\<lparr>sv_sessions := st0\<rparr>" and ?cs = "filter (\<lambda>(name, i). \<not> om_has holders name \<and> node_isAlive (st0 i)) (sv_nodes s)"
  have step0: "sessions_step (sv_sessions s) st0"
    using rd(3-5) by (simp add: st0_def sessions_step_def)
  have cand: "e \<in> set ?cs \<longleftrightarrow> e \<in> set (sv_nodes s) \<and> \<not> om_has holders (fst e)"
      "e \<in> set ?cs \<Longrightarrow> st0 (snd e) = sv_sessions s (snd e)" for e
  proof -
    have "st0 (snd e) = sv_sessions s (snd e)" if "e \<in> set (sv_nodes s)" "\<not> om_has holders (fst e)"
    proof -
      have "n_name (sv_sessions s (snd e)) = fst e" "fst e \<noteq> fst source"
        using that nok assms(2) by (auto simp: entries_ok_def om_has_def om_find_def)
      with src(2) show ?thesis
        by (auto simp: st0_def)
    qed
    with assms(6) healthy_isAlive show "e \<in> set ?cs \<longleftrightarrow> e \<in> set (sv_nodes s) \<and> \<not> om_has holders (fst e)"
        "e \<in> set ?cs \<Longrightarrow> st0 (snd e) = sv_sessions s (snd e)"
      by (auto simp: case_prod_beta)
  qed
  have cs: "?cs = filter (\<lambda>e. \<not> om_has holders (fst e)) (sv_nodes s)"
    using cand(1) by (intro filter_cong refl) (auto simp: case_prod_beta)
  have pre: "\<forall>c\<in>set ?cs. \<not> om_has holders (fst c)"
      "\<forall>c\<in>set ?cs. healthy (sv_sessions ?s (snd c)) \<and> accepts (node_disk (sv_sessions ?s (snd c))) path"
    using cand assms(6,7) by (auto simp: takes_def simp del: set_filter)
  have dist: "distinct (map fst ?cs)" "distinct (map snd ?cs)"
    using om_ok_distinct [of "sv_nodes s"] nok entries_distinct [OF nok] by (simp_all add: entries_ok_def distinct_map_filter)
  obtain h st where cp: "copyTo path content ?n ?cs holders ?s = (Returned h, ?s\<lparr>sv_sessions := st\<rparr>)" "sessions_step st0 st" "om_ok h"
    "set holders \<subseteq> set h" "min ?n (length holders + length ?cs) \<le> length h"
    "\<forall>e\<in>set h. e \<in> set holders \<or> e \<in> set ?cs \<and> stored (st (snd e)) path = Some (content, getFileVersion (sv_disk s) path)"
    using copyTo_law [OF dist om pre node_small [OF src(1,3) assms(5)], of ?n] by auto
  let ?s' = "persistState (s\<lparr>sv_sessions := st, sv_replicas := om_put path h (sv_replicas s)\<rparr>)"
  have run: "rebalanceFileReplication path holders s = (Returned (), ?s')"
    using rd(1,2) cp(1) put_all_onto_part [OF om cp(3,4)] assms(2,3)
    by (simp add: rebalanceFileReplication_def sessionCall_def case_prod_beta Let_def flip: st0_def)
  have "\<forall>e\<in>set h. e \<in> set holders \<or> e \<in> set (sv_nodes s) \<and> \<not> om_has holders (fst e) \<and>
      stored (st (snd e)) path = Some (content, getFileVersion (sv_disk s) path)"
    using cp(6) cand(1) by blast
  with run sessions_step_trans [OF step0 cp(2)] cp(3-5) show ?thesis
    unfolding cs by (intro exI [of _ h] exI [of _ st] conjI)
qed


abbreviation demoOne :: server where
  \<comment> \<open>two nodes, of which the first alone holds the file\<close>
  "demoOne \<equiv> (demoServer (newNode ''dn1'' (setFileVersion (writeDisk (newFileManager ''/dn'') ''/dn/a'' [7]) ''a'' 1)) (newNode ''dn2'' (newFileManager ''/dn'')))
     \<lparr>sv_replicas := [(''a'', [(''dn1'', 0)])]\<rparr>"


lemma demoOne_disk:
  defines "d \<equiv> setFileVersion (writeDisk (newFileManager ''/dn'') ''/dn/a'' [7]) ''a'' 1"
  shows "storage_ok d" "small_files d" "accepts d ''a''" "stored_on d ''a'' = Some ([7], 1)"
proof -
  let ?d = "newFileManager ''/dn''"
  have at: "resolvePath (root ?d) ''a'' = ''/dn/a''"
    by code_simp
  have up: "upload_ok ''a'' 1 [7] ?d"
    using demo_disk(2) by (simp add: upload_ok_def int_range_def FILETRANSFER_MAX_SIZE_def)
  have place: "same_place ?d d"
    by (simp add: d_def same_place_def)
  have effect: "upload_effect ''a'' 1 [7] ?d d"
    by (simp add: upload_effect_def d_def at)
  from upload_effect_keeps [OF demo_disk(1) small_files_new place up effect]
  show "storage_ok d" "small_files d"
    by (simp_all add: disk_keeps_def)
  show "accepts d ''a''"
    using demo_disk(2) place by (simp add: accepts_def user_path_def same_place_def)
  have "readDisk d ''/dn/a'' = Some [7]" "getFileVersion d ''a'' = 1"
    using upload_stores [OF demo_disk(1) up, of d] by (simp_all add: d_def at)
  then show "stored_on d ''a'' = Some ([7], 1)"
    using place at by (simp add: stored_on_def same_place_def)
qed

lemma demoOne_ok:
  assumes "healthy a" and "healthy b" and "n_name a = ''dn1''" and "n_name b = ''dn2''"
  shows "server_ok ((demoServer a b)\<lparr>sv_replicas := [(''a'', [(''dn1'', 0)])]\<rparr>)"
proof -
  have "om_ok [(''dn1'', 0 :: nat)]" "om_ok [(''a'', [(''dn1'', 0 :: nat)])]"
    by code_simp+
  with assms demo_ok [of a b] show ?thesis
    by (auto simp: server_ok_def healthy_def entries_ok_def demo_simps locks_ok_def)
qed


end
