(* ===== verification/Squid_Server.thy ===== *)
theory Squid_Server
  imports Heartbeat_Manager
begin

text \<open>
  The server: \<open>server/src/server.cpp\<close>, with the registration of standbys of
  \<open>server/src/standby_replica_manager.cpp\<close>. A new connection is identified and becomes the session of a
  data node, a client or a standby; a request of a client is carried out by the managers and answered
  on its session. Sessions get the number the caller supplies. An accepted connection comes with the
  bytes its peer sends and, should the peer be a data node, the disk behind it and the points at which
  the connection will be cut.
\<close>

section \<open>Standbys\<close>

definition registerStandby :: "string \<Rightarrow> nat \<Rightarrow> server \<Rightarrow> unit outcome \<times> server" where
  \<comment> \<open>the snapshot first, the entry in the map after it\<close>
  "registerStandby name i s =
     bindO (clusterVersionMap s) (\<lambda>versionMap s1.
       bindO (peerCall i (\<lambda>p. sendStateSnap p versionMap (buildPersistableRepMap s1) (sv_epoch s1)) s1) (\<lambda>_ s2.
         (Returned (), s2\<lparr>sv_standbys := map_option (om_put name i) (sv_standbys s2)\<rparr>)))"

definition startPeer :: "string \<Rightarrow> string \<Rightarrow> channel \<Rightarrow> peer" where
  "startPeer type name c = \<lparr>p_name = name, p_run = True, p_end = newProto c type name, p_posts = [], p_suspended = False\<rparr>"

definition handleStandbyConnect :: "string \<Rightarrow> nat \<Rightarrow> channel \<Rightarrow> server \<Rightarrow> unit outcome \<times> server" where
  "handleStandbyConnect name i c s =
     (let s1 = s\<lparr>sv_standbys := Some (case sv_standbys s of None \<Rightarrow> [] | Some m \<Rightarrow> m),
                 sv_peers := (sv_peers s)(i := startPeer ''STANDBY'' name c)\<rparr>
      in registerStandby name i s1)"

section \<open>New connections\<close>

record accepted =
  a_channel :: channel
  a_disk :: disk                 \<comment> \<open>of a data node\<close>
  a_cuts :: "(nat \<times> nat) list"

definition acceptNode :: "int \<Rightarrow> nat \<Rightarrow> string \<Rightarrow> accepted \<Rightarrow> server \<Rightarrow> unit outcome \<times> server" where
  "acceptNode now i name a s =
     (let s1 = s\<lparr>sv_sessions := (sv_sessions s)(i := (newNode name (a_disk a))\<lparr>n_cuts := a_cuts a\<rparr>),
                 sv_nodes := om_put name i (sv_nodes s)\<rparr>
      in bindO (sessionCall i node_syncStatus s1) (\<lambda>files s2.
           if isResponse files
           then buildFileLockMap now (registerDataNodeFiles name i (getFileVersionMap files) s2)
           else (Returned (), s2)))"

fun pushAll :: "nat \<Rightarrow> (string \<times> int) list \<Rightarrow> server \<Rightarrow> unit outcome \<times> server" where
  \<comment> \<open>every file that can be read goes to the new client\<close>
  "pushAll i [] s = (Returned (), s)"
| "pushAll i (e # es) s =
     bindO (getFileFromDataNode (fst e) s) (\<lambda>r s1.
       pushAll i es (case r of None \<Rightarrow> s1 | Some content \<Rightarrow> postTo (PushCreate (fst e) (snd e) content) i s1))"

definition acceptClient :: "nat \<Rightarrow> string \<Rightarrow> channel \<Rightarrow> server \<Rightarrow> unit outcome \<times> server" where
  \<comment> \<open>in the map at once, its worker started at the end\<close>
  "acceptClient i name c s =
     (let s1 = s\<lparr>sv_peers := (sv_peers s)(i := (startPeer ''CLIENT'' name c)\<lparr>p_run := False\<rparr>), sv_clients := om_put name i (sv_clients s)\<rparr>
      in bindO (clusterVersionMap s1) (\<lambda>fileVersionMap s2.
           bindO (pushAll i fileVersionMap s2) (\<lambda>_ s3.
             (Returned (), s3\<lparr>sv_peers := (sv_peers s3)(i := (sv_peers s3 i)\<lparr>p_run := True\<rparr>)\<rparr>))))"

definition caught :: "unit outcome \<times> server \<Rightarrow> unit outcome \<times> server" where
  \<comment> \<open>the handler logs an exception and returns\<close>
  "caught r = (case r of (Threw e, s) \<Rightarrow> (Returned (), s) | _ \<Rightarrow> r)"

definition handleAccept :: "int \<Rightarrow> nat \<Rightarrow> accepted \<Rightarrow> server \<Rightarrow> unit outcome \<times> server" where
  "handleAccept now i a s =
     (case identify (newProto (a_channel a) ''[SERVER]'' ''SERVER'') of
        (Inl e, p1) \<Rightarrow> (Returned (), s)
      | (Inr mex, p1) \<Rightarrow>
          (let name = getString mex PROCESS_NAME ''''; type = getString mex NODE_TYPE ''''
           in if \<not> alive p1 \<or> type \<notin> {''DATANODE'', ''CLIENT'', ''STANDBY''} then (Returned (), s)
              else case response p1 True of
                     (Inl e, p2) \<Rightarrow> (Returned (), s)
                   | (Inr _, p2) \<Rightarrow>
                       if \<not> alive p2 then (Returned (), s)
                       else if type = ''STANDBY'' then caught (handleStandbyConnect name i (chan p2) s)
                       else if type = ''DATANODE'' then caught (acceptNode now i name a s)
                       else caught (acceptClient i name (chan p2) s)))"

section \<open>Requests of clients\<close>

definition receiveUpload :: "proto \<Rightarrow> (frame_error + bool \<times> bytes) \<times> proto" where
  \<comment> \<open>ask for the file and take it\<close>
  "receiveUpload p =
     (case response p True of
        (Inl e, p1) \<Rightarrow> (Inl e, p1)
      | (Inr _, p1) \<Rightarrow> (let (ok, content, p2) = receiveFileData p1 [] in (Inr (ok, content), p2)))"

definition handleClientRequest :: "int \<Rightarrow> nat \<Rightarrow> Message \<Rightarrow> server \<Rightarrow> unit outcome \<times> server" where
  "handleClientRequest now i mex s =
     (let path = getString mex FILE_PATH '''';
          fileVersion = int_of_u32 (getUint32 mex FILE_VERSION 0);
          name = processName (p_end (sv_peers s i));
          answer = (\<lambda>ok. peerCall i (\<lambda>p. response p ok))
      in case opcode mex of
           CREATE_FILE \<Rightarrow>
             bindO (peerCall i receiveUpload s) (\<lambda>(recvOk, content) s1.
               bindO (if recvOk then propagateCreateFile now path fileVersion name content s1 else (Returned False, s1)) answer)
         | READ_FILE \<Rightarrow>
             bindO (getFileFromDataNode path s) (\<lambda>r s1.
               case r of
                 None \<Rightarrow> answer False s1
               | Some content \<Rightarrow>
                   bindO (answer True s1) (\<lambda>_ s2.
                     bindO (peerCall i (\<lambda>p. let (ok, p1) = sendFileData p content in (Inr ok, p1)) s2) (\<lambda>sent s3.
                       peerCall i (\<lambda>p. responseVersion p sent (getKnownVersion path s1)) s3)))
         | UPDATE_FILE \<Rightarrow>
             bindO (peerCall i receiveUpload s) (\<lambda>(recvOk, content) s1.
               bindO (if recvOk then propagateUpdateFile path fileVersion name content s1 else (Returned (-1), s1)) (\<lambda>newVersion s2.
                 if newVersion \<ge> 0 then peerCall i (\<lambda>p. responseVersion p True newVersion) s2 else answer False s2))
         | DELETE_FILE \<Rightarrow> bindO (propagateDeleteFile path name s) (\<lambda>_ s1. answer True s1)
         | SYNC_STATUS \<Rightarrow> bindO (clusterVersionMap s) (\<lambda>m s1. peerCall i (\<lambda>p. responseVersionMap p m) s1)
         | ACQUIRE_LOCK \<Rightarrow> bindO (acquireLock now path name s) answer
         | RELEASE_LOCK \<Rightarrow> bindO (releaseLock now path s) answer
         | HEARTBEAT \<Rightarrow> answer True s
         | CLOSE \<Rightarrow>
             bindO (answer True s) (\<lambda>_ s1.
               (Returned (), s1\<lparr>sv_peers := (sv_peers s1)(i := peer_setIsAlive False (sv_peers s1 i)),
                                sv_pool := sv_pool s1 @ [ForgetClient name]\<rparr>))
         | _ \<Rightarrow> answer False s)"

definition serveClient :: "int \<Rightarrow> nat \<Rightarrow> server \<Rightarrow> unit outcome \<times> server" where
  \<comment> \<open>the worker reads one frame and hands it to the pool, which makes it read again when the request
     has been carried out; an exception of the handler is kept in a future nobody looks at\<close>
  "serveClient now i s =
     (if \<not> p_run (sv_peers s i) \<or> p_suspended (sv_peers s i) then (Returned (), s)
      else let (mex, p1) = receiveAndParse (p_end (sv_peers s i))
           in if \<not> alive p1 then (Returned (), s\<lparr>sv_peers := (sv_peers s)(i := (sv_peers s i)\<lparr>p_run := False, p_end := p1\<rparr>)\<rparr>)
              else case handleClientRequest now i mex
                          (s\<lparr>sv_peers := (sv_peers s)(i := (sv_peers s i)\<lparr>p_end := p1, p_suspended := True\<rparr>)\<rparr>) of
                     (Returned _, s1) \<Rightarrow> (Returned (), s1\<lparr>sv_peers := (sv_peers s1)(i := (sv_peers s1 i)\<lparr>p_suspended := False\<rparr>)\<rparr>)
                   | r \<Rightarrow> r)"

end
