(* ===== verification/Server_Invariant.thy ===== *)
theory Server_Invariant
  imports Replica_Recovery Squid_Server
begin

text \<open>
  The server as a state machine: new connections, requests of clients, heartbeats, the expiry of locks,
  the heartbeats of standbys and the tasks of the request pool, in any order, each carried out as a
  whole. The invariant is that the endpoint map and the replication map refer to sessions of the nodes they
  name, whose storage is well-formed and takes every file of the replication map; it is what the
  theorems about the replication manager ask for. File names are taken from a set of names every data
  node can store; only a request that creates a file and the listing of a new data node have to respect
  it, since the other requests concern files that are in the replication map already, or no data node.
\<close>

section \<open>Calls on the sessions of data nodes\<close>

definition node_step :: "node \<Rightarrow> node \<Rightarrow> bool" where
  "node_step nd nd' \<longleftrightarrow> n_name nd' = n_name nd \<and> (node_ok nd \<longrightarrow> node_ok nd') \<and> same_place (node_disk nd) (node_disk nd')"

lemma sessions_step_iff: "sessions_step st st' \<longleftrightarrow> (\<forall>i. node_step (st i) (st' i))"
  by (simp add: sessions_step_def node_step_def)

lemma node_step_refl [simp]: "node_step nd nd"
  by (simp add: node_step_def same_place_refl)

lemma sessions_step_upd: "node_step (st i) nd \<Longrightarrow> sessions_step st (st(i := nd))"
  by (simp add: sessions_step_iff)

lemma node_step_keeps: "node_keeps path nd nd' \<Longrightarrow> node_step nd nd'"
  by (simp add: node_step_def node_keeps_def disk_keeps_def)

lemma node_step_disk: "node_ok nd' \<Longrightarrow> n_name nd' = n_name nd \<Longrightarrow> node_disk nd' = node_disk nd \<Longrightarrow> node_step nd nd'"
  by (simp add: node_step_def same_place_refl)

lemma node_call_stopped: "\<not> n_run nd \<Longrightarrow> node_call req fn nd = (Blocked, nd)"
  by (simp add: node_call_def)

lemma accepts_path: "accepts d path \<Longrightarrow> user_path d path \<and> length path \<le> 65535"
  by (simp add: accepts_def user_path_def)

lemma node_step_upload:
  assumes "node_ok nd" and "upload_ok path v content (node_disk nd)" and "op = CREATE_FILE \<or> op = UPDATE_FILE"
  shows "node_step nd (snd (node_upload op path v content nd))"
proof (cases "n_run nd")
  case True
  from node_upload_law [OF assms(1) True assms(2,3)] show ?thesis
    by (auto intro: node_step_keeps)
qed (simp add: node_upload_def node_call_stopped)

lemma node_step_read:
  assumes "node_ok nd" and "accepts (node_disk nd) path"
  shows "node_step nd (snd (node_readFile path nd))"
proof (cases "n_run nd")
  case True
  with node_readFile_law [OF assms(1) True, of path] accepts_path [OF assms(2)] show ?thesis
    by (auto intro: node_step_disk)
qed (simp add: node_readFile_def node_call_stopped)

lemma node_step_delete:
  assumes "node_ok nd" and "accepts (node_disk nd) path"
  shows "node_step nd (snd (node_deleteFile path nd))"
proof (cases "n_run nd")
  case True
  with node_deleteFile_law [OF assms(1) True, of path] accepts_path [OF assms(2)] show ?thesis
    by (auto intro: node_step_keeps)
qed (simp add: node_deleteFile_def node_call_stopped)

lemma node_step_heartbeat:
  assumes "node_ok nd"
  shows "node_step nd (snd (node_heartbeat nd))"
proof (cases "n_run nd")
  case True
  with node_heartbeat_law [OF assms True] show ?thesis
    by (auto intro: node_step_disk)
qed (simp add: node_heartbeat_def node_call_stopped)

lemma node_step_sync:
  assumes "node_ok nd"
  shows "node_step nd (snd (node_syncStatus nd))"
proof (cases "n_run nd")
  case True
  with node_syncStatus_law [OF assms True] show ?thesis
    by (auto intro: node_step_disk)
qed (simp add: node_syncStatus_def node_call_stopped)

lemma node_step_setIsAlive: "node_step nd (node_setIsAlive False nd)"
  by (cases "n_ends nd") (auto simp: node_step_def node_setIsAlive_def node_ok_def same_place_refl)

section \<open>What most operations keep\<close>

definition keeps :: "server \<Rightarrow> server \<Rightarrow> bool" where
  \<comment> \<open>calls on sessions, while the maps stay as they are\<close>
  "keeps s s' \<longleftrightarrow> sessions_step (sv_sessions s) (sv_sessions s') \<and> sv_nodes s' = sv_nodes s \<and> sv_replicas s' = sv_replicas s \<and>
     sv_pool s' = sv_pool s \<and> (om_ok (sv_versions s) \<longrightarrow> om_ok (sv_versions s')) \<and> (locks_ok s \<longrightarrow> locks_ok s')"

lemma keeps_refl [simp]: "keeps s s"
  by (simp add: keeps_def sessions_step_refl)

lemma keeps_trans: "keeps s s' \<Longrightarrow> keeps s' s'' \<Longrightarrow> keeps s s''"
  by (auto simp: keeps_def intro: sessions_step_trans)

lemma keeps_core: "core s' = core s \<Longrightarrow> keeps s s'"
  using core_eq [of s' s] by (simp add: keeps_def sessions_step_refl locks_ok_def)

lemma keeps_node_ok: "keeps s s' \<Longrightarrow> node_ok (sv_sessions s i) \<Longrightarrow> node_ok (sv_sessions s' i)"
  by (simp add: keeps_def sessions_step_def)

lemma keeps_sessionCall: "node_step (sv_sessions s i) (snd (f (sv_sessions s i))) \<Longrightarrow> keeps s (snd (sessionCall i f s))"
  by (auto simp: keeps_def sessionCall_def locks_ok_def sessions_step_upd split: prod.splits)

lemma keeps_bind:
  assumes "keeps s (snd m)" and "\<And>x s1. m = (Returned x, s1) \<Longrightarrow> keeps s s1 \<Longrightarrow> keeps s1 (snd (k x s1))"
  shows "keeps s (snd (bindO m k))"
  using assms by (intro bindO_snd [where P = "keeps s"]) (auto intro: keeps_trans)

lemma core_peerCall: "core (snd (peerCall i fn s)) = core s"
  by (simp add: peerCall_def core_def split: prod.splits)

lemma keeps_peerCall: "keeps s (snd (peerCall i fn s))"
  by (rule keeps_core) (rule core_peerCall)

lemma keeps_collectVersions:
  "\<forall>i\<in>set is. node_ok (sv_sessions s i) \<Longrightarrow> keeps s (snd (collectVersions is m s))"
proof (induction "is" m s rule: collectVersions.induct)
  case (2 i "is" m s)
  have step: "keeps s (snd (sessionCall i node_syncStatus s))"
    using "2.prems" by (intro keeps_sessionCall node_step_sync) simp
  show ?case
  proof (cases "node_isAlive (sv_sessions s i)")
    case True
    then show ?thesis
      using step "2.prems" "2.IH"(2) keeps_node_ok by (auto intro!: keeps_bind simp: True)
  qed (use 2 in simp)
qed simp

lemma keeps_registerLock: "keeps s (registerLock now e s)"
  by (auto simp: keeps_def registerLock_def Let_def locks_ok_def sessions_step_refl split: prod.splits)

lemma keeps_fold: "(\<And>x s. keeps s (f x s)) \<Longrightarrow> keeps s (fold f xs s)"
  by (induction xs arbitrary: s) (auto intro: keeps_trans)

lemma keeps_lockRounds:
  "\<forall>i\<in>set is. node_ok (sv_sessions s i) \<Longrightarrow> keeps s (snd (lockRounds now is s))"
proof (induction "now" "is" s rule: lockRounds.induct)
  case (2 now' i "is" s)
  have step: "keeps s (snd (sessionCall i node_syncStatus s))"
    using "2.prems" by (intro keeps_sessionCall node_step_sync) simp
  show ?case
  proof (cases "node_isAlive (sv_sessions s i)")
    case True
    have "keeps s1 (snd (if \<not> isResponse files then lockRounds now' is s1
        else lockRounds now' is (fold (registerLock now') (getFileVersionMap files) s1)))"
      if call: "sessionCall i node_syncStatus s = (Returned files, s1)" "keeps s s1" for files s1
    proof (cases "isResponse files")
      case True
      let ?s2 = "fold (registerLock now') (getFileVersionMap files) s1"
      have "keeps s1 ?s2"
        by (intro keeps_fold keeps_registerLock)
      moreover have "\<forall>j\<in>set is. node_ok (sv_sessions ?s2 j)"
        using "2.prems" keeps_node_ok [OF keeps_trans [OF call(2) calculation]] by simp
      ultimately show ?thesis
        using "2.IH"(3) [of files s1] \<open>node_isAlive (sv_sessions s i)\<close> True by (auto intro: keeps_trans)
    next
      case False
      with "2.IH"(2) [of files s1] \<open>node_isAlive (sv_sessions s i)\<close> "2.prems" keeps_node_ok [OF call(2)] show ?thesis
        by simp
    qed
    with step True show ?thesis
      by (simp add: keeps_bind)
  qed (use 2 in simp)
qed simp

section \<open>The invariant\<close>

definition hosts :: "string set \<Rightarrow> (nat \<Rightarrow> node) \<Rightarrow> string \<times> nat \<Rightarrow> bool" where
  \<comment> \<open>the entry refers to a session of the node it names, and that node can store files of all the names\<close>
  "hosts N st e \<longleftrightarrow> node_ok (st (snd e)) \<and> n_name (st (snd e)) = fst e \<and> (\<forall>q\<in>N. accepts (node_disk (st (snd e))) q)"

definition serves :: "string set \<Rightarrow> (nat \<Rightarrow> node) \<Rightarrow> (string, nat) omap \<Rightarrow> bool" where
  "serves N st es \<longleftrightarrow> om_ok es \<and> (\<forall>e\<in>set es. hosts N st e)"

definition pooled_ok :: "(nat \<Rightarrow> node) \<Rightarrow> pooled \<Rightarrow> bool" where
  "pooled_ok st t = (case t of RollbackDelete i path \<Rightarrow> node_ok (st i) \<and> accepts (node_disk (st i)) path | ForgetClient name \<Rightarrow> True)"

definition steady :: "string set \<Rightarrow> server \<Rightarrow> bool" where
  "steady N s \<longleftrightarrow> serves N (sv_sessions s) (sv_nodes s) \<and>
     om_ok (sv_replicas s) \<and> (\<forall>r\<in>set (sv_replicas s). fst r \<in> N \<and> serves N (sv_sessions s) (snd r)) \<and>
     om_ok (sv_versions s) \<and> locks_ok s \<and> (\<forall>t\<in>set (sv_pool s). pooled_ok (sv_sessions s) t)"

lemma accepts_step: "node_step nd nd' \<Longrightarrow> accepts (node_disk nd) q \<Longrightarrow> accepts (node_disk nd') q"
  by (simp add: node_step_def same_place_def accepts_def user_path_def)

lemma hosts_step: "sessions_step st st' \<Longrightarrow> hosts N st e \<Longrightarrow> hosts N st' e"
  using accepts_step [of "st (snd e)" "st' (snd e)"] by (simp add: hosts_def sessions_step_iff node_step_def)

lemma serves_step: "sessions_step st st' \<Longrightarrow> serves N st es \<Longrightarrow> serves N st' es"
  by (auto simp: serves_def intro: hosts_step)

lemma pooled_ok_step: "sessions_step st st' \<Longrightarrow> pooled_ok st t \<Longrightarrow> pooled_ok st' t"
proof (cases t)
  case (RollbackDelete i path)
  assume "sessions_step st st'" and "pooled_ok st t"
  with RollbackDelete accepts_step [of "st i" "st' i"] show ?thesis
    by (simp add: pooled_ok_def sessions_step_iff node_step_def)
qed (simp add: pooled_ok_def)

lemma steady_keeps:
  assumes "steady N s" and "keeps s s'"
  shows "steady N s'"
  using assms by (auto simp: steady_def keeps_def intro: serves_step pooled_ok_step)

lemma steady_bind:
  assumes "steady N (snd m)" and "\<And>x s1. m = (Returned x, s1) \<Longrightarrow> steady N s1 \<Longrightarrow> steady N (snd (k x s1))"
  shows "steady N (snd (bindO m k))"
  using assms by (intro bindO_snd [where P = "steady N"]) auto

lemma set_om_put: "om_ok m \<Longrightarrow> set (om_put k v m) \<subseteq> insert (k, v) (set m)"
proof
  fix e assume ok: "om_ok m" and e: "e \<in> set (om_put k v m)"
  have "om_find (om_put k v m) (fst e) = Some (snd e)"
    using ok e om_find_in_set [of "om_put k v m" "fst e" "snd e"] by simp
  with ok om_find_in_set [of m "fst e" "snd e"] show "e \<in> insert (k, v) (set m)"
    by (cases e) (auto split: if_splits)
qed

lemma serves_put: "serves N st es \<Longrightarrow> hosts N st (name, i) \<Longrightarrow> serves N st (om_put name i es)"
  using set_om_put [of es name i] by (auto simp: serves_def)

lemma serves_part: "serves N st es \<Longrightarrow> om_ok es' \<Longrightarrow> set es' \<subseteq> set es \<Longrightarrow> serves N st es'"
  by (auto simp: serves_def)

lemma serves_ok: "serves N st es \<Longrightarrow> entries_ok st es" "serves N st es \<Longrightarrow> q \<in> N \<Longrightarrow> takes st es q"
  by (auto simp: serves_def hosts_def entries_ok_def takes_def)

lemma steady_server_ok: "steady N s \<Longrightarrow> server_ok s"
  by (auto simp: steady_def server_ok_def intro: serves_ok(1))

lemma steady_holders: "steady N s \<Longrightarrow> serves N (sv_sessions s) (om_get (sv_replicas s) path) \<and> (path \<in> N \<or> om_get (sv_replicas s) path = [])"
proof (cases "om_find (sv_replicas s) path")
  case None
  then show ?thesis
    by (simp add: om_get_def serves_def om_ok_def)
next
  case (Some h)
  assume st: "steady N s"
  then have "(path, h) \<in> set (sv_replicas s)"
    using Some by (simp add: steady_def om_find_in_set)
  with st Some show ?thesis
    by (auto simp: steady_def om_get_def)
qed

lemma steady_takes: "steady N s \<Longrightarrow> takes (sv_sessions s) (om_get (sv_replicas s) path) path"
  using steady_holders [of N s path] serves_ok(2) [of N "sv_sessions s" _ path] by (auto simp: takes_def)

lemma steady_nodes_ok: "steady N s \<Longrightarrow> \<forall>i\<in>set (map snd (sv_nodes s)). node_ok (sv_sessions s i)"
  by (auto simp: steady_def serves_def hosts_def)

section \<open>Reading, locks and updates\<close>

lemma keeps_clusterVersionMap: "steady N s \<Longrightarrow> keeps s (snd (clusterVersionMap s))"
  unfolding clusterVersionMap_def by (intro keeps_collectVersions steady_nodes_ok)

lemma keeps_buildFileLockMap: "steady N s \<Longrightarrow> keeps s (snd (buildFileLockMap now s))"
  unfolding buildFileLockMap_def by (intro keeps_lockRounds steady_nodes_ok)

lemma keeps_sessions: "sessions_step (sv_sessions s) st \<Longrightarrow> keeps s (s\<lparr>sv_sessions := st\<rparr>)"
  by (simp add: keeps_def locks_ok_def)

lemma keeps_locks: "(om_ok (sv_locks s) \<Longrightarrow> om_ok m) \<Longrightarrow> keeps s (s\<lparr>sv_locks := m\<rparr>)"
  by (simp add: keeps_def locks_ok_def sessions_step_refl)

lemma keeps_getFile: "steady N s \<Longrightarrow> keeps s (snd (getFileFromDataNode path s))"
  using getFile_runs [of s path] steady_server_ok [of N s] steady_takes [of N s path] by (auto intro: keeps_sessions)

lemma keeps_takeLock: "keeps s (snd (takeLock now path name l s))"
  by (auto simp: takeLock_def intro: keeps_locks)

lemma keeps_acquireLock: "steady N s \<Longrightarrow> keeps s (snd (acquireLock now path name s))"
  unfolding acquireLock_def
  by (auto intro!: keeps_bind keeps_takeLock keeps_buildFileLockMap split: option.split)

lemma keeps_releaseLock: "steady N s \<Longrightarrow> keeps s (snd (releaseLock now path s))"
  unfolding releaseLock_def
  by (auto intro!: keeps_bind keeps_locks keeps_buildFileLockMap split: option.split)

lemma keeps_postTo: "keeps s (postTo t i s)"
  by (rule keeps_core) (rule core_postTo)

lemma keeps_expireLock: "keeps s (expireLock e s)"
proof -
  obtain path holder where e: "e = (path, holder)"
    by fastforce
  let ?s1 = "case om_find (sv_clients s) holder of None \<Rightarrow> s | Some i \<Rightarrow> postTo (PostRelease path) i s"
  have "keeps s ?s1"
    by (simp add: keeps_postTo split: option.split)
  moreover have "keeps ?s1 (expireLock e s)"
    unfolding expireLock_def e by (auto simp: Let_def intro!: keeps_locks split: option.split)
  ultimately show ?thesis
    by (rule keeps_trans)
qed

lemma keeps_expiry: "keeps s (checkFileLockExpiration now s)"
  unfolding checkFileLockExpiration_def by (intro keeps_fold keeps_expireLock)

lemma keeps_standbys: "keeps s (sendStandbyHeartbeats s)"
  by (rule keeps_core) (simp add: sendStandbyHeartbeats_def core_def Let_def core_fold_postTo [THEN core_eq(1)]
    core_fold_postTo [THEN core_eq(2)] core_fold_postTo [THEN core_eq(3)] core_fold_postTo [THEN core_eq(4)]
    core_fold_postTo [THEN core_eq(5)] core_fold_postTo [THEN core_eq(6)] core_fold_postTo [THEN core_eq(7)]
    core_fold_postTo [THEN core_eq(8)] core_fold_postTo [THEN core_eq(9)] core_fold_postTo [THEN core_eq(10)] split: option.split)

lemma keeps_commitUpdate: "keeps s (commitUpdate path v origin content s)"
  by (simp add: keeps_def commitUpdate_def Let_def locks_ok_def sessions_step_refl)

lemma keeps_update:
  assumes "steady N s" and "int_range (nextVersion path seen s)" and "length content \<le> unat FILETRANSFER_MAX_SIZE"
  shows "keeps s (snd (propagateUpdateFile path seen origin content s))"
proof -
  obtain es :: "(string \<times> nat) list" and st where run: "propagateUpdateFile path seen origin content s =
       (if length es < min (quorum (sv_factor s)) (length (om_get (sv_replicas s) path)) then (Returned (-1), s\<lparr>sv_sessions := st\<rparr>)
        else (Returned (nextVersion path seen s), commitUpdate path (nextVersion path seen s) origin content (s\<lparr>sv_sessions := st\<rparr>)))"
      and st: "sessions_step (sv_sessions s) st"
    by (rule update_runs [OF steady_server_ok [OF assms(1)] steady_takes [OF assms(1)] assms(2,3), of origin]) (rule that)
  have "keeps s (s\<lparr>sv_sessions := st\<rparr>)"
    using st by (rule keeps_sessions)
  with run keeps_trans [OF _ keeps_commitUpdate] show ?thesis
    by simp
qed

section \<open>Creating and deleting files\<close>

lemma steady_put_replicas:
  assumes "steady N s" and "path \<in> N" and "serves N (sv_sessions s) h"
  shows "steady N (s\<lparr>sv_replicas := om_put path h (sv_replicas s)\<rparr>)"
  using assms set_om_put [of "sv_replicas s" path h] by (auto simp: steady_def locks_ok_def)

lemma steady_addHolder:
  "steady N s \<Longrightarrow> path \<in> N \<Longrightarrow> hosts N (sv_sessions s) e \<Longrightarrow> steady N (addHolder path e s)"
  unfolding addHolder_def by (intro steady_put_replicas serves_put conjunct1 [OF steady_holders]) simp_all

lemma steady_addHolders:
  "steady N s \<Longrightarrow> path \<in> N \<Longrightarrow> \<forall>e\<in>set es. hosts N (sv_sessions s) e \<Longrightarrow> steady N (fold (addHolder path) es s)"
  by (induction es arbitrary: s) (auto simp: steady_addHolder)

lemma keeps_commitCreate: "keeps (fold (addHolder path) es s) (commitCreate now path v origin content es s)"
  by (simp add: keeps_def commitCreate_def Let_def locks_ok_def sessions_step_refl insertLock_def om_insert_def)

lemma steady_create:
  assumes "steady N s" and "path \<in> N" and "int_range version" and "length content \<le> unat FILETRANSFER_MAX_SIZE"
  shows "steady N (snd (propagateCreateFile now path version origin content s))"
proof -
  have nodes: "serves N (sv_sessions s) (sv_nodes s)"
    using assms(1) by (simp add: steady_def)
  obtain es st where run: "propagateCreateFile now path version origin content s =
       (if length es < quorum (sv_factor s)
        then (Returned False, s\<lparr>sv_sessions := st, sv_pool := sv_pool s @ map (\<lambda>e. RollbackDelete (snd e) path) es\<rparr>)
        else (Returned True, commitCreate now path version origin content es (s\<lparr>sv_sessions := st\<rparr>)))"
      and es: "set es \<subseteq> set (sv_nodes s)" and step: "sessions_step (sv_sessions s) st"
    by (rule create_runs [OF steady_server_ok [OF assms(1)] serves_ok(2) [OF nodes assms(2)] assms(3,4), of "now" origin]) blast
  have hosts: "\<forall>e\<in>set es. hosts N st e"
    using serves_step [OF step nodes] es by (auto simp: serves_def)
  have s1: "steady N (s\<lparr>sv_sessions := st\<rparr>)"
    using steady_keeps [OF assms(1) keeps_sessions [OF step]] .
  have "steady N (s\<lparr>sv_sessions := st, sv_pool := sv_pool s @ map (\<lambda>e. RollbackDelete (snd e) path) es\<rparr>)"
    using s1 hosts assms(2) by (auto simp: steady_def locks_ok_def pooled_ok_def hosts_def)
  moreover have "steady N (commitCreate now path version origin content es (s\<lparr>sv_sessions := st\<rparr>))"
    using steady_addHolders [OF s1 assms(2)] hosts by (intro steady_keeps [OF _ keeps_commitCreate]) simp
  ultimately show ?thesis
    by (simp add: run)
qed

lemma fanOut_step:
  assumes "\<And>nd. node_ok nd \<Longrightarrow> accepts (node_disk nd) path \<Longrightarrow> node_step nd (snd (call nd))"
    and "\<forall>e\<in>set es. node_ok (st (snd e)) \<and> accepts (node_disk (st (snd e))) path"
  shows "sessions_step st (snd (fanOut up call es st))"
  using assms(2)
proof (induction es arbitrary: st)
  case (Cons e es)
  obtain r nd where call: "call (st (snd e)) = (r, nd)"
    by fastforce
  show ?case
  proof (cases "up (st (snd e))")
    case True
    have one: "sessions_step st (st(snd e := nd))"
      using assms(1) [of "st (snd e)"] Cons.prems call by (intro sessions_step_upd) simp
    then have "\<forall>f\<in>set es. node_ok ((st(snd e := nd)) (snd f)) \<and> accepts (node_disk ((st(snd e := nd)) (snd f))) path"
      using Cons.prems accepts_step unfolding sessions_step_iff node_step_def by (metis list.set_intros(2))
    from sessions_step_trans [OF one Cons.IH [OF this]]
    have "sessions_step st (snd (bindO (fanOut up call es (st(snd e := nd))) (\<lambda>answers st2. (Returned ((e, m) # answers), st2))))" for m
      by (intro bindO_snd [where P = "sessions_step st"]) (simp_all del: fun_upd_apply)
    with one True call show ?thesis
      by (cases r) (simp_all del: fun_upd_apply)
  qed (use Cons in simp)
qed (simp add: sessions_step_refl)

lemma keeps_fanOutDelete:
  "steady N s \<Longrightarrow> keeps s (snd (fanOutNodes (node_deleteFile path) (om_get (sv_replicas s) path) s))"
  unfolding fanOutNodes_def Let_def case_prod_beta snd_conv
  using steady_holders [of N s path]
  by (intro keeps_sessions fanOut_step [where path = path] node_step_delete) (auto simp: serves_def hosts_def)

lemma steady_part:
  assumes "steady N s" and "om_ok m" and "set m \<subseteq> set (sv_replicas s)" and "om_ok vs"
  shows "steady N (s\<lparr>sv_replicas := m, sv_versions := vs\<rparr>)"
  using assms by (auto simp: steady_def locks_ok_def)

lemma steady_commitDelete: "steady N s \<Longrightarrow> steady N (commitDelete path origin s)"
proof -
  assume s: "steady N s"
  let ?s1 = "s\<lparr>sv_replicas := om_erase path (sv_replicas s), sv_versions := om_erase path (sv_versions s)\<rparr>"
  have "steady N ?s1"
    using s set_om_erase by (intro steady_part) (auto simp: steady_def)
  moreover have "keeps ?s1 (commitDelete path origin s)"
    by (simp add: keeps_def commitDelete_def Let_def locks_ok_def sessions_step_refl eraseLock_def)
  ultimately show ?thesis
    by (rule steady_keeps)
qed

lemma steady_delete:
  assumes "steady N s"
  shows "steady N (snd (propagateDeleteFile path origin s))"
proof -
  have "steady N (snd (fanOutNodes (node_deleteFile path) (om_get (sv_replicas s) path) s))"
    using steady_keeps [OF assms keeps_fanOutDelete [OF assms]] .
  then show ?thesis
    unfolding propagateDeleteFile_def
    by (intro steady_bind) (auto simp: Let_def steady_commitDelete)
qed

lemma steady_pooled:
  assumes "steady N s" and "pooled_ok (sv_sessions s) t"
  shows "steady N (snd (runPooled t s))"
proof (cases t)
  case (RollbackDelete i path)
  have "keeps s (snd (sessionCall i (node_deleteFile path) s))"
    using assms(2) RollbackDelete by (intro keeps_sessionCall node_step_delete) (simp_all add: pooled_ok_def)
  from steady_keeps [OF assms(1) this] RollbackDelete show ?thesis
    by (auto simp: runPooled_def split: outcome.splits prod.splits)
next
  case (ForgetClient name)
  with assms(1) show ?thesis
    by (simp add: runPooled_def steady_def locks_ok_def)
qed

section \<open>Losing a data node\<close>

lemma steady_copyTo:
  assumes "path \<in> N" and "length content \<le> unat FILETRANSFER_MAX_SIZE"
    and "serves N (sv_sessions s) h" and "\<forall>c\<in>set cs. hosts N (sv_sessions s) c"
  shows "keeps s (snd (copyTo path content enough cs h s)) \<and>
    (\<forall>h' s'. copyTo path content enough cs h s = (Returned h', s') \<longrightarrow> serves N (sv_sessions s') h')"
  using assms(3,4)
proof (induction cs arbitrary: h s)
  case (Cons c cs)
  let ?call = "sessionCall (snd c) (node_createFile path (getFileVersion (sv_disk s) path) content) s"
  obtain r s1 where call: "?call = (r, s1)"
    by fastforce
  have "keeps s (snd ?call)"
    using Cons.prems(2) assms(1,2) getFileVersion_range unfolding node_createFile_def
    by (intro keeps_sessionCall node_step_upload) (auto simp: hosts_def upload_ok_def)
  then have step: "keeps s s1" "sessions_step (sv_sessions s) (sv_sessions s1)"
    using call by (simp_all add: keeps_def)
  have h: "serves N (sv_sessions s1) h" "serves N (sv_sessions s1) (om_put (fst c) (snd c) h)"
    using serves_step [OF step(2) Cons.prems(1)] hosts_step [OF step(2), of N c] Cons.prems(2)
      serves_put [of N "sv_sessions s1" h "fst c" "snd c"] by simp_all
  have cs: "\<forall>c\<in>set cs. hosts N (sv_sessions s1) c"
    using hosts_step [OF step(2)] Cons.prems(2) by simp
  show ?case
  proof (cases r)
    case (Returned m)
    with call Cons.IH [OF h(1) cs] Cons.IH [OF h(2) cs] step(1) h show ?thesis
      by (auto simp: Let_def intro: keeps_trans)
  qed (use call step(1) in simp_all)
qed simp

lemma keeps_persist: "keeps s (persistState s)"
  by (simp add: keeps_def locks_ok_def sessions_step_refl)

lemma serves_fold:
  "serves N st es \<Longrightarrow> \<forall>e\<in>set es'. hosts N st e \<Longrightarrow> serves N st (fold (\<lambda>(name, i). om_put name i) es' es)"
  by (induction es' arbitrary: es) (auto intro: serves_put)

lemma rebalance_content:
  assumes "node_ok (sv_sessions s i)" and "accepts (node_disk (sv_sessions s i)) path"
    and "sessionCall i (node_readFile path) s = (Returned (m, content), s1)" and "isAck m"
  shows "length content \<le> unat FILETRANSFER_MAX_SIZE"
proof -
  have run: "n_run (sv_sessions s i)"
    using assms(3) by (auto simp: sessionCall_def node_readFile_def node_call_def split: if_splits)
  obtain v where "stored (sv_sessions s i) path = Some (content, v)"
    using node_readFile_law [OF assms(1) run, of path] accepts_path [OF assms(2)] assms(3,4) by (auto simp: sessionCall_def)
  with node_small [OF assms(1,2)] show ?thesis
    by blast
qed

lemma steady_rebalance:
  assumes "steady N s" and "path \<in> N" and "serves N (sv_sessions s) h"
  shows "steady N (snd (rebalanceFileReplication path h s)) \<and>
    sessions_step (sv_sessions s) (sv_sessions (snd (rebalanceFileReplication path h s)))"
proof (cases h)
  case (Cons source others)
  let ?call = "sessionCall (snd source) (node_readFile path) s"
  have src: "node_ok (sv_sessions s (snd source))" "accepts (node_disk (sv_sessions s (snd source))) path"
    using assms(2,3) Cons by (auto simp: serves_def hosts_def)
  obtain r s1 where call: "?call = (r, s1)"
    by fastforce
  have "keeps s (snd ?call)"
    using src by (intro keeps_sessionCall node_step_read)
  then have k1: "keeps s s1" "sessions_step (sv_sessions s) (sv_sessions s1)"
    using call by (simp_all add: keeps_def)
  note s1 = steady_keeps [OF assms(1) k1(1)]
  show ?thesis
  proof (cases "\<exists>m content. r = Returned (m, content) \<and> isAck m")
    case True
    then obtain m content where r: "r = Returned (m, content)" "isAck m"
      by blast
    have small: "length content \<le> unat FILETRANSFER_MAX_SIZE"
      using rebalance_content [OF src] call r by simp
    let ?cs = "filter (\<lambda>(name, i). \<not> om_has h name \<and> node_isAlive (sv_sessions s1 i)) (sv_nodes s1)"
    let ?copy = "copyTo path content (nat (sv_factor s1 mod 2 ^ 64)) ?cs h s1"
    obtain r2 s2 where copy: "?copy = (r2, s2)"
      by fastforce
    have "\<forall>c\<in>set ?cs. hosts N (sv_sessions s1) c"
      using s1 by (auto simp: steady_def serves_def)
    from steady_copyTo [OF assms(2) small serves_step [OF k1(2) assms(3)] this, of "nat (sv_factor s1 mod 2 ^ 64)"] copy
    have k2: "keeps s1 s2" and h': "\<And>h'. r2 = Returned h' \<Longrightarrow> serves N (sv_sessions s2) h'"
      by auto
    have step: "sessions_step (sv_sessions s) (sv_sessions s2)"
      using sessions_step_trans [OF k1(2)] k2 by (simp add: keeps_def)
    note s2 = steady_keeps [OF s1 k2]
    show ?thesis
    proof (cases r2)
      case (Returned h2)
      have "serves N (sv_sessions s2) (fold (\<lambda>(name, i). om_put name i) h2 (om_get (sv_replicas s2) path))"
        using h' [OF Returned] by (intro serves_fold conjunct1 [OF steady_holders [OF s2]]) (simp add: serves_def)
      from steady_keeps [OF steady_put_replicas [OF s2 assms(2) this] keeps_persist] call r copy Returned Cons step show ?thesis
        by (simp add: rebalanceFileReplication_def Let_def)
    qed (use call r copy Cons s2 step in \<open>simp_all add: rebalanceFileReplication_def Let_def\<close>)
  next
    case False
    with call Cons s1 k1(2) show ?thesis
      by (cases r) (auto simp: rebalanceFileReplication_def)
  qed
qed (use assms(1) in \<open>simp add: rebalanceFileReplication_def sessions_step_refl\<close>)

lemma steady_rebalanceAll:
  "steady N s \<Longrightarrow> \<forall>t\<in>set ts. fst t \<in> N \<and> serves N (sv_sessions s) (snd t) \<Longrightarrow> steady N (snd (rebalanceAll ts s))"
proof (induction ts arbitrary: s)
  case (Cons t ts)
  let ?r = "rebalanceFileReplication (fst t) (snd t) s"
  have r: "steady N (snd ?r)" "sessions_step (sv_sessions s) (sv_sessions (snd ?r))"
    using steady_rebalance [of N s "fst t" "snd t"] Cons.prems by simp_all
  have "\<forall>u\<in>set ts. fst u \<in> N \<and> serves N (sv_sessions (snd ?r)) (snd u)"
    using Cons.prems(2) serves_step [OF r(2)] by simp
  from Cons.IH [OF r(1) this] r(1) show ?case
    by (auto intro!: steady_bind)
qed simp

lemma om_ok_map_values: "om_ok (map (\<lambda>(k, v). (k, f v)) m) = om_ok m"
  by (simp add: om_ok_def comp_def case_prod_beta)

lemma serves_erase: "serves N st es \<Longrightarrow> serves N st (om_erase name es)"
  using set_om_erase [of name es] by (auto simp: serves_def)

lemma serves_erases: "serves N st es \<Longrightarrow> serves N st (fold om_erase names es)"
  by (induction names arbitrary: es) (simp_all add: serves_erase)

lemma steady_eraseFrom:
  assumes "steady N s"
  shows "steady N (snd (eraseFromReplicationMap name s))"
proof -
  let ?s1 = "s\<lparr>sv_replicas := map (\<lambda>(path, holders). (path, om_erase name holders)) (sv_replicas s)\<rparr>"
  have left: "fst r \<in> N \<and> serves N (sv_sessions s) (om_erase name (snd r))" if "r \<in> set (sv_replicas s)" for r
    using assms that serves_erase by (auto simp: steady_def)
  then have "steady N ?s1"
    using assms by (fastforce simp: steady_def locks_ok_def om_ok_map_values)
  then have "steady N (persistState ?s1)"
    using keeps_persist by (rule steady_keeps)
  moreover have "\<forall>t\<in>set (rebalanceTargets name s). fst t \<in> N \<and> serves N (sv_sessions (persistState ?s1)) (snd t)"
    using left by (fastforce simp: rebalanceTargets_def)
  ultimately show ?thesis
    unfolding eraseFromReplicationMap_def Let_def by (rule steady_rebalanceAll)
qed

lemma steady_eraseAll: "steady N s \<Longrightarrow> steady N (snd (eraseAllFromReplicationMap names s))"
  by (induction names arbitrary: s) (simp_all add: steady_bind steady_eraseFrom)

lemma keeps_pingAll: "\<forall>e\<in>set es. node_ok (sv_sessions s (snd e)) \<Longrightarrow> keeps s (snd (pingAll es s))"
proof (induction es arbitrary: s)
  case (Cons e es)
  have "keeps s (snd (sessionCall (snd e) node_heartbeat s))"
    using Cons.prems by (intro keeps_sessionCall node_step_heartbeat) simp
  moreover have "keeps s1 (snd (if isAck hb then pingAll es s1
       else bindO (pingAll es (s1\<lparr>sv_sessions := (sv_sessions s1)(snd e := node_setIsAlive False (sv_sessions s1 (snd e)))\<rparr>))
              (\<lambda>deadNodes s2. (Returned (fst e # deadNodes), s2))))" if "keeps s s1" for hb s1
  proof -
    let ?s2 = "s1\<lparr>sv_sessions := (sv_sessions s1)(snd e := node_setIsAlive False (sv_sessions s1 (snd e)))\<rparr>"
    have k: "keeps s1 ?s2"
      by (intro keeps_sessions sessions_step_upd node_step_setIsAlive)
    have "\<forall>f\<in>set es. node_ok (sv_sessions s1 (snd f))" "\<forall>f\<in>set es. node_ok (sv_sessions ?s2 (snd f))"
      using Cons.prems keeps_node_ok [OF that] keeps_node_ok [OF keeps_trans [OF that k]] by simp_all
    from Cons.IH [OF this(1)] keeps_trans [OF k Cons.IH [OF this(2)]] show ?thesis
      by (cases "isAck hb") (auto intro!: keeps_bind simp del: fun_upd_apply)
  qed
  ultimately show ?case
    by (auto intro!: keeps_bind)
qed simp

lemma steady_heartbeats:
  assumes "steady N s"
  shows "steady N (snd (sendHeartbeats s))"
proof -
  have s1: "steady N (snd (pingAll (sv_nodes s) s))"
    using steady_nodes_ok [OF assms] by (intro steady_keeps [OF assms] keeps_pingAll) simp
  have "steady N (s1\<lparr>sv_nodes := fold om_erase names (sv_nodes s1)\<rparr>)" if "steady N s1" for s1 names
    using that by (simp add: steady_def locks_ok_def serves_erases)
  with s1 show ?thesis
    unfolding sendHeartbeats_def by (intro steady_bind) (auto intro: steady_eraseAll)
qed

section \<open>New connections\<close>

definition fresh :: "nat \<Rightarrow> server \<Rightarrow> bool" where
  \<comment> \<open>a number no map and no waiting task refers to\<close>
  "fresh i s \<longleftrightarrow> i \<notin> snd ` set (sv_nodes s) \<and> (\<forall>r\<in>set (sv_replicas s). i \<notin> snd ` set (snd r)) \<and>
     (\<forall>path. RollbackDelete i path \<notin> set (sv_pool s))"

definition admissible :: "string set \<Rightarrow> disk \<Rightarrow> bool" where
  \<comment> \<open>the disk of a data node: well-formed, able to store the names, and with no other files\<close>
  "admissible N d \<longleftrightarrow> storage_ok d \<and> small_files d \<and> (\<forall>q\<in>N. accepts d q) \<and> fst ` set (getFileVersionMapDisk d) \<subseteq> N"

lemma steady_newSession:
  assumes "steady N s" and "fresh i s"
  shows "steady N (s\<lparr>sv_sessions := (sv_sessions s)(i := nd)\<rparr>)"
proof -
  let ?st = "(sv_sessions s)(i := nd)"
  have same: "serves N ?st es" if "serves N (sv_sessions s) es" "i \<notin> snd ` set es" for es
    using that by (fastforce simp: serves_def hosts_def)
  have "\<forall>t\<in>set (sv_pool s). pooled_ok ?st t"
    using assms by (fastforce simp: steady_def fresh_def pooled_ok_def split: pooled.splits)
  with assms same show ?thesis
    by (simp add: steady_def fresh_def locks_ok_def del: fun_upd_apply)
qed

lemma steady_registerFile:
  assumes "steady N s" and "hosts N (sv_sessions s) (name, i)" and "fst e \<in> N"
  shows "steady N (registerFile name i e s) \<and> sv_sessions (registerFile name i e s) = sv_sessions s"
proof -
  have "steady N (addHolder (fst e) (name, i) s)"
    using assms(1,3,2) by (rule steady_addHolder)
  then show ?thesis
    by (auto simp: registerFile_def Let_def case_prod_beta steady_def locks_ok_def)
qed

lemma steady_register:
  "steady N s \<Longrightarrow> hosts N (sv_sessions s) (name, i) \<Longrightarrow> fst ` set m \<subseteq> N \<Longrightarrow> steady N (registerDataNodeFiles name i m s)"
proof -
  assume "steady N s" "hosts N (sv_sessions s) (name, i)" "fst ` set m \<subseteq> N"
  then have "steady N (fold (registerFile name i) m s)"
  proof (induction m arbitrary: s)
    case (Cons e m)
    then show ?case
      using steady_registerFile [of N s name i e] by simp
  qed simp
  then show ?thesis
    unfolding registerDataNodeFiles_def using keeps_persist by (rule steady_keeps)
qed

lemma steady_outside:
  "steady N (s\<lparr>sv_peers := ps\<rparr>) = steady N s" "steady N (s\<lparr>sv_clients := cs\<rparr>) = steady N s" "steady N (s\<lparr>sv_standbys := sb\<rparr>) = steady N s"
  by (simp_all add: steady_def locks_ok_def)

lemma newNode_cuts: "node_ok ((newNode name d)\<lparr>n_cuts := cs\<rparr>) = node_ok (newNode name d)"
    "n_name ((newNode name d)\<lparr>n_cuts := cs\<rparr>) = name" "node_disk ((newNode name d)\<lparr>n_cuts := cs\<rparr>) = d"
  by (simp_all add: node_ok_def newNode_def)

lemma steady_acceptNode:
  assumes "steady N s" and "fresh i s" and "admissible N (a_disk a)"
  shows "steady N (snd (acceptNode now i name a s))"
proof -
  let ?nd = "(newNode name (a_disk a))\<lparr>n_cuts := a_cuts a\<rparr>"
  let ?s0 = "s\<lparr>sv_sessions := (sv_sessions s)(i := ?nd)\<rparr>"
  let ?s1 = "s\<lparr>sv_sessions := (sv_sessions s)(i := ?nd), sv_nodes := om_put name i (sv_nodes s)\<rparr>"
  have nd: "node_ok ?nd"
    using assms(3) newNode_healthy [of "a_disk a" name] by (simp add: newNode_cuts admissible_def healthy_def)
  have hosts: "hosts N (sv_sessions ?s1) (name, i)"
    using nd assms(3) by (simp add: hosts_def newNode_cuts admissible_def)
  have "steady N ?s0"
    using assms(1,2) by (rule steady_newSession)
  with hosts have s1: "steady N ?s1"
    by (simp add: steady_def locks_ok_def serves_put del: fun_upd_apply)
  have sync: "keeps ?s1 (snd (sessionCall i node_syncStatus ?s1))"
    using nd by (intro keeps_sessionCall node_step_sync) simp
  have run: "n_run ?nd"
    by (simp add: newNode_def)
  have listing: "fst ` set (getFileVersionMapDisk (node_disk ?nd)) \<subseteq> N"
    using assms(3) by (simp add: newNode_cuts admissible_def)
  have files: "fst ` set (getFileVersionMap files) \<subseteq> N" if "node_syncStatus ?nd = (Returned files, nd')" for files nd'
    using node_syncStatus_law [OF nd run] listing that by (auto split: if_splits)
  have call: "keeps ?s1 s2" "fst ` set (getFileVersionMap files) \<subseteq> N"
    if "sessionCall i node_syncStatus ?s1 = (Returned files, s2)" for files s2
    using that sync files by (auto simp: sessionCall_def split: prod.splits)
  have "steady N (snd (if isResponse files then buildFileLockMap now (registerDataNodeFiles name i (getFileVersionMap files) s2)
      else (Returned (), s2)))" if c: "sessionCall i node_syncStatus ?s1 = (Returned files, s2)" for files s2
  proof -
    have s2: "steady N s2" "hosts N (sv_sessions s2) (name, i)"
      using steady_keeps [OF s1 call(1) [OF c]] hosts_step [OF _ hosts] call(1) [OF c] by (simp_all add: keeps_def del: fun_upd_apply)
    from steady_register [OF this call(2) [OF c]] have "steady N (registerDataNodeFiles name i (getFileVersionMap files) s2)" .
    with s2(1) show ?thesis
      using steady_keeps [OF _ keeps_buildFileLockMap] by simp
  qed
  with steady_keeps [OF s1 sync] show ?thesis
    unfolding acceptNode_def Let_def by (intro steady_bind)
qed

lemma steady_pushAll: "steady N s \<Longrightarrow> steady N (snd (pushAll i es s))"
proof (induction es arbitrary: s)
  case (Cons e es)
  have "steady N (snd (getFileFromDataNode (fst e) s))"
    using steady_keeps [OF Cons.prems keeps_getFile [OF Cons.prems]] .
  with Cons.IH steady_keeps [OF _ keeps_postTo] show ?case
    by (auto intro!: steady_bind split: option.split)
qed simp

lemma steady_acceptClient:
  assumes "steady N s"
  shows "steady N (snd (acceptClient i name c s))"
proof -
  let ?s1 = "s\<lparr>sv_peers := (sv_peers s)(i := (startPeer ''CLIENT'' name c)\<lparr>p_run := False\<rparr>), sv_clients := om_put name i (sv_clients s)\<rparr>"
  have "steady N ?s1"
    using assms by (simp add: steady_def locks_ok_def)
  from steady_keeps [OF this keeps_clusterVersionMap [OF this]] show ?thesis
    unfolding acceptClient_def Let_def by (auto intro!: steady_bind steady_pushAll simp: steady_outside)
qed

lemma steady_standby:
  assumes "steady N s"
  shows "steady N (snd (handleStandbyConnect name i c s))"
proof -
  have "steady N (snd (registerStandby name i s1))" if s1: "steady N s1" for s1
    using steady_keeps [OF s1 keeps_clusterVersionMap [OF s1]] steady_keeps [OF _ keeps_peerCall]
    unfolding registerStandby_def by (auto intro!: steady_bind simp: steady_outside)
  with assms show ?thesis
    by (simp add: handleStandbyConnect_def Let_def steady_outside)
qed

lemma snd_caught: "snd (caught r) = snd r"
  by (cases r; cases "fst r") (simp_all add: caught_def)

lemma steady_accept:
  assumes "steady N s" and "fresh i s" and "admissible N (a_disk a)"
  shows "steady N (snd (handleAccept now i a s))"
  using assms(1) steady_acceptNode [OF assms] steady_acceptClient [OF assms(1)] steady_standby [OF assms(1)]
  by (auto simp: handleAccept_def Let_def snd_caught split: sum.split prod.split)

section \<open>Requests of clients\<close>

definition request_ok :: "string set \<Rightarrow> Message \<Rightarrow> server \<Rightarrow> bool" where
  \<comment> \<open>a new file has one of the names, and the version number of an update does not overflow\<close>
  "request_ok N mex s \<longleftrightarrow>
     (opcode mex = CREATE_FILE \<longrightarrow> getString mex FILE_PATH '''' \<in> N) \<and>
     (opcode mex = UPDATE_FILE \<longrightarrow>
        int_range (nextVersion (getString mex FILE_PATH '''') (int_of_u32 (getUint32 mex FILE_VERSION 0)) s))"

lemma receiveFileVec_bound: "receiveFileVec c old = (True, content, c') \<Longrightarrow> length content \<le> unat FILETRANSFER_MAX_SIZE"
  using receiveFileVec_spec [of c old]
  by (auto simp: parseTransfer_def Let_def not_less word_le_nat_alt min_def split: option.splits if_splits)

lemma receiveUpload_bound: "receiveUpload p = (Inr (True, content), p') \<Longrightarrow> length content \<le> unat FILETRANSFER_MAX_SIZE"
  by (auto simp: receiveUpload_def receiveFileData_def Let_def receiveFileVec_bound split: sum.splits prod.splits)

lemma peerCall_result:
  assumes "peerCall i fn s = (Returned x, s1)"
  shows "\<exists>p p'. fn p = (Inr x, p')"
  using assms by (auto simp: peerCall_def peer_call_def Let_def outcome_of_def split: if_splits prod.splits sum.splits)

lemma peerCall_nextVersion: "peerCall i fn s = (r, s1) \<Longrightarrow> nextVersion path seen s1 = nextVersion path seen s"
  by (auto simp: peerCall_def nextVersion_def split: prod.splits)

lemma steady_peerCall: "steady N s \<Longrightarrow> steady N (snd (peerCall i fn s))"
  using steady_keeps [OF _ keeps_peerCall] .

lemma steady_forget: "steady N s \<Longrightarrow> steady N (s\<lparr>sv_peers := ps, sv_pool := sv_pool s @ [ForgetClient name]\<rparr>)"
  by (auto simp: steady_def locks_ok_def pooled_ok_def)

lemma steady_request:
  assumes "steady N s" and "request_ok N mex s"
  shows "steady N (snd (handleClientRequest now i mex s))"
proof -
  let ?path = "getString mex FILE_PATH ''''" and ?v = "int_of_u32 (getUint32 mex FILE_VERSION 0)"
  note call = steady_peerCall
  note ops = steady_keeps [OF assms(1) keeps_getFile [OF assms(1)]] steady_keeps [OF assms(1) keeps_clusterVersionMap [OF assms(1)]]
    steady_keeps [OF assms(1) keeps_acquireLock [OF assms(1)]] steady_keeps [OF assms(1) keeps_releaseLock [OF assms(1)]]
  have up: "steady N s1" "nextVersion ?path ?v s1 = nextVersion ?path ?v s" "fst y \<Longrightarrow> length (snd y) \<le> unat FILETRANSFER_MAX_SIZE"
    if u: "peerCall i receiveUpload s = (Returned y, s1)" for y s1
    using call [OF assms(1), of i receiveUpload] u peerCall_nextVersion [OF u] peerCall_result [OF u] receiveUpload_bound
    by (cases y; auto)+
  show ?thesis
  proof (cases "opcode mex")
    case CREATE_FILE
    with assms(2) have N: "?path \<in> N"
      by (simp add: request_ok_def)
    show ?thesis
      using CREATE_FILE up steady_create [OF _ N] assms(1)
      by (auto simp: handleClientRequest_def Let_def intro!: steady_bind call)
  next
    case UPDATE_FILE
    with assms(2) have v: "int_range (nextVersion ?path ?v s)"
      by (simp add: request_ok_def)
    have "steady N (snd (propagateUpdateFile ?path ?v name content s1))"
      if "steady N s1" "nextVersion ?path ?v s1 = nextVersion ?path ?v s" "length content \<le> unat FILETRANSFER_MAX_SIZE" for name content s1
      using steady_keeps [OF that(1) keeps_update [OF that(1)]] that v by simp
    with UPDATE_FILE up assms(1) show ?thesis
      by (auto simp: handleClientRequest_def Let_def intro!: steady_bind call)
  qed (auto simp: handleClientRequest_def Let_def steady_forget assms(1) intro!: steady_bind call steady_delete ops split: option.split)
qed

lemma steady_serve:
  assumes "steady N s" and "request_ok N (fst (receiveAndParse (p_end (sv_peers s i)))) s"
  shows "steady N (snd (serveClient now i s))"
proof -
  obtain mex p1 where r: "receiveAndParse (p_end (sv_peers s i)) = (mex, p1)"
    by fastforce
  let ?s0 = "s\<lparr>sv_peers := (sv_peers s)(i := (sv_peers s i)\<lparr>p_end := p1, p_suspended := True\<rparr>)\<rparr>"
  have "request_ok N mex ?s0"
    using assms(2) r by (simp add: request_ok_def nextVersion_def)
  with assms(1) have "steady N (snd (handleClientRequest now i mex ?s0))"
    by (intro steady_request) (simp_all add: steady_outside)
  with assms(1) r show ?thesis
    by (auto simp: serveClient_def steady_outside split: prod.split outcome.split)
qed

section \<open>The server\<close>

inductive server_step :: "string set \<Rightarrow> server \<Rightarrow> server \<Rightarrow> bool" for N where
  accept: "fresh i s \<Longrightarrow> admissible N (a_disk a) \<Longrightarrow> server_step N s (snd (handleAccept now i a s))"
| serve: "request_ok N (fst (receiveAndParse (p_end (sv_peers s i)))) s \<Longrightarrow> server_step N s (snd (serveClient now i s))"
| arrive: "server_step N s (s\<lparr>sv_peers := (sv_peers s)(i := (sv_peers s i)\<lparr>p_end := receiving (p_end (sv_peers s i)) bs\<rparr>)\<rparr>)"
| drain: "server_step N s (snd (peerCall i (\<lambda>p. (Inr (), p)) s))"
| heartbeats: "server_step N s (snd (sendHeartbeats s))"
| expiry: "server_step N s (checkFileLockExpiration now s)"
| standbys: "server_step N s (sendStandbyHeartbeats s)"
| pooled: "sv_pool s = ts @ t # us \<Longrightarrow> server_step N s (snd (runPooled t (s\<lparr>sv_pool := ts @ us\<rparr>)))"

lemma steady_step: "server_step N s s' \<Longrightarrow> steady N s \<Longrightarrow> steady N s'"
proof (induction rule: server_step.induct)
  case (pooled s ts t us)
  then have "steady N (s\<lparr>sv_pool := ts @ us\<rparr>)" "pooled_ok (sv_sessions s) t"
    by (auto simp: steady_def locks_ok_def)
  then show ?case
    by (intro steady_pooled) simp_all
qed (simp_all add: steady_accept steady_serve steady_outside steady_peerCall steady_heartbeats
    steady_keeps [OF _ keeps_expiry] steady_keeps [OF _ keeps_standbys])

lemma steady_run: "(server_step N)\<^sup>*\<^sup>* s s' \<Longrightarrow> steady N s \<Longrightarrow> steady N s'"
  by (induction rule: rtranclp_induct) (auto intro: steady_step)

lemma om_ok_loadVersionMap: "om_ok (loadVersionMap d)"
proof -
  have "om_ok (fold (\<lambda>line m. case parse line of None \<Rightarrow> m | Some (p, v) \<Rightarrow> om_put p v m) ls m)"
    if "om_ok m" for parse :: "string \<Rightarrow> (string \<times> int) option" and ls m
    using that by (induction ls arbitrary: m) (auto split: option.split)
  then show ?thesis
    by (simp add: loadVersionMap_def loadEntries_def om_ok_def [of "[]"])
qed

lemma steady_newServer: "steady N (newServer factor epoch d)"
  by (simp add: steady_def newServer_def serves_def om_ok_loadVersionMap locks_ok_def)

lemma delete_returns:
  assumes "steady N s"
  shows "\<exists>s'. propagateDeleteFile path origin s = (Returned (), s')"
proof -
  let ?h = "om_get (sv_replicas s) path"
  have h: "serves N (sv_sessions s) ?h" "takes (sv_sessions s) ?h path"
    using steady_holders [OF assms] steady_takes [OF assms] by blast+
  have "distinct (map snd ?h)" "\<forall>e\<in>set ?h. node_ok (sv_sessions s (snd e)) \<and> user_path (node_disk (sv_sessions s (snd e))) path \<and> length path \<le> 65535"
    using entries_distinct [OF serves_ok(1) [OF h(1)]] h accepts_path by (auto simp: serves_def hosts_def takes_def)
  from deletes.fanOut_law [OF this] obtain answers st where "fanOut node_isAlive (node_deleteFile path) ?h (sv_sessions s) = (Returned answers, st)"
    by blast
  then show ?thesis
    by (simp add: propagateDeleteFile_def fanOutNodes_def Let_def)
qed

lemma update_returns:
  assumes "steady N s" and "int_range (nextVersion path seen s)" and "length content \<le> unat FILETRANSFER_MAX_SIZE"
  shows "\<exists>r s'. propagateUpdateFile path seen origin content s = (Returned r, s')"
proof (rule update_runs [OF steady_server_ok [OF assms(1)] steady_takes [OF assms(1)] assms(2,3), of origin])
qed (auto split: if_splits)

lemma create_returns:
  assumes "steady N s" and "path \<in> N" and "int_range version" and "length content \<le> unat FILETRANSFER_MAX_SIZE"
  shows "\<exists>r s'. propagateCreateFile now path version origin content s = (Returned r, s')"
proof -
  have "takes (sv_sessions s) (sv_nodes s) path"
    using assms(1,2) by (auto simp: steady_def intro: serves_ok(2))
  then show ?thesis
    by (rule create_runs [OF steady_server_ok [OF assms(1)] _ assms(3,4), of path "now" origin]) (auto split: if_splits)
qed

lemma read_returns: "steady N s \<Longrightarrow> \<exists>r s'. getFileFromDataNode path s = (Returned r, s')"
  using getFile_runs [of s path] steady_server_ok [of N s] steady_takes [of N s path] by blast

end
