(* ===== verification/Client_Server.thy ===== *)
theory Client_Server
  imports Server_Invariant Squid_Client
begin

text \<open>
  The parts of the system together: a client or data node that connects to the server, and a client whose
  request goes to the server, from there to the data nodes, and back. Each end is fed with exactly what
  the other end sends.
\<close>

section \<open>The handshake\<close>

lemma identMsg_simps [simp]:
  "getString (identMsg type name s) PROCESS_NAME y = name" "getString (identMsg type name s) NODE_TYPE y = type"
  "wf_msg (identMsg type name s) \<longleftrightarrow> length type \<le> 65535 \<and> length name \<le> 65535" "seq (identMsg type name s) = s"
  by (auto simp: identMsg_def accessor_defs wf_msg_def)

lemma server_handshake:
  assumes "tx_ready c" and "rx_avail c = wireMsg (identMsg type name 0)" and "length type \<le> 65535" and "length name \<le> 65535"
  shows "\<exists>p1 p2. identify (newProto c ''[SERVER]'' ''SERVER'') = (Inr (identMsg type name 0), p1) \<and> alive p1 \<and>
    response p1 True = (Inr (), p2) \<and> alive p2 \<and> tx (chan p2) = tx c @ serverHello \<and> tx_ready (chan p2) \<and> rx_avail (chan p2) = []"
proof -
  let ?p = "newProto c ''[SERVER]'' ''SERVER''" and ?m = "identMsg type name 0"
  have "idle ?p 0 0" "available ?p = take (length (wireMsg ?m)) (wireMsg ?m)"
    using fresh_idle [OF assms(1)] assms(2) by (simp_all add: available_def newProto_def)
  then obtain p1 where p1: "identify ?p = (Inr ?m, p1)" "at_rest p1 1 1" "tx (chan p1) = tx c @ wireMsg (plainMsg IDENTIFY 0)"
    using caller_simple [of ?p 0 0 "[]" ?m "length (wireMsg ?m)" IDENTIFY] assms(3,4)
    by (auto simp: identify_def identifyFormat_def plainMsg_def newProto_def)
  have i1: "idle p1 1 1" "available p1 = []"
    using p1(2) by (simp_all add: at_rest_def)
  obtain p2 where p2: "response p1 True = (Inr (), p2)" "sends p1 1 (wireMsg (ackMsg True 1)) p2"
    using response_sends [of p1 True] i1(1) by (auto simp: idle_def)
  have "alive p1" "alive p2" "tx (chan p2) = tx c @ serverHello" "tx_ready (chan p2)" "rx_avail (chan p2) = []"
    using i1 p1(3) sends_simps [OF p2(2)] by (simp_all add: idle_def serverHello_def available_def)
  with p1(1) p2(1) show ?thesis
    by blast
qed


definition identChannel :: channel where
  \<comment> \<open>of a server to which the data node of the example connects\<close>
  "identChannel = freshChannel\<lparr>rx := [RecvBytes (wireMsg (identMsg ''DATANODE'' ''dn1'' 0))]\<rparr>"

definition demoAccepted :: accepted where
  "demoAccepted = \<lparr>a_channel = identChannel, a_disk = newFileManager ''/dn'', a_cuts = []\<rparr>"

lemma ident_ready: "tx_ready identChannel" "rx_avail identChannel = wireMsg (identMsg ''DATANODE'' ''dn1'' 0)"
  by (simp_all add: identChannel_def freshChannel_def tx_ready_def rx_avail_def)


section \<open>The server in every reachable state\<close>


lemma demo_admissible: "admissible {''a''} (newFileManager ''/dn'')"
proof -
  have "getFileVersionMapDisk (newFileManager ''/dn'') = []"
    by code_simp
  with demo_disk small_files_new show ?thesis
    by (simp add: admissible_def)
qed

lemma demo_reachable:
  "(server_step {''a''})\<^sup>*\<^sup>* (newServer 2 0 (newFileManager ''/srv''))
     (snd (handleAccept 0 0 demoAccepted (newServer 2 0 (newFileManager ''/srv''))))"
  using demo_admissible
  by (intro r_into_rtranclp server_step.accept) (simp_all add: fresh_def newServer_def demoAccepted_def)




section \<open>A request of a client at the server\<close>

definition own_session :: "nat \<Rightarrow> server \<Rightarrow> bool" where
  \<comment> \<open>no other client and no standby has the same session\<close>
  "own_session i s \<longleftrightarrow> (\<forall>e\<in>set (sv_clients s). snd e = i \<longrightarrow> fst e = processName (p_end (sv_peers s i))) \<and>
     (\<forall>m. sv_standbys s = Some m \<longrightarrow> i \<notin> snd ` set m)"

lemma peers_fold_postTo: "i \<notin> set is \<Longrightarrow> sv_peers (fold (postTo t) is s) i = sv_peers s i"
  by (induction "is" arbitrary: s) (auto simp: postTo_def)

lemma standbys_fold_postTo: "sv_standbys (fold (postTo t) is s) = sv_standbys s"
  by (induction "is" arbitrary: s) (auto simp: postTo_def)

lemma commitUpdate_own:
  assumes "own_session i s" and "origin = processName (p_end (sv_peers s i))"
  shows "sv_peers (commitUpdate path v origin content s) i = sv_peers s i"
proof -
  have clients: "i \<notin> set (map snd (filter (\<lambda>(name, i). name \<noteq> origin) (sv_clients s)))"
    using assms by (auto simp: own_session_def)
  have standbys: "sv_peers (sendDelta op path v names s') i = sv_peers s' i" if "sv_standbys s' = sv_standbys s" for op names s'
    using assms(1) that by (auto simp: sendDelta_def own_session_def image_iff intro!: peers_fold_postTo split: option.split)
  show ?thesis
    using clients by (simp add: commitUpdate_def Let_def pushToClients_def peers_fold_postTo standbys)
qed

lemma commitUpdate_others:
  "sv_clients (commitUpdate path v origin content s) = sv_clients s" "sv_standbys (commitUpdate path v origin content s) = sv_standbys s"
  by (simp_all add: commitUpdate_def Let_def pushToClients_def sendDelta_def standbys_fold_postTo core_fold_postTo [THEN core_eq(3)] split: option.split)

lemma own_session_cong:
  "own_session i s \<Longrightarrow> sv_clients s' = sv_clients s \<Longrightarrow> sv_standbys s' = sv_standbys s \<Longrightarrow>
   processName (p_end (sv_peers s' i)) = processName (p_end (sv_peers s i)) \<Longrightarrow> own_session i s'"
  by (simp add: own_session_def)

lemma idle_receive_name:
  assumes "idle p s n" and "available p = wireMsg m @ rest" and "wf_msg m" and "seq m = s"
  shows "\<exists>p'. receiveAndParse p = (m, p') \<and> available p' = rest \<and> idle p' (s + 1) n \<and> tx (chan p') = tx (chan p) \<and> processName p' = processName p"
proof -
  have "om_find (reorderBuffer p) (expectedRecvSeq p) = None" "seq m = expectedRecvSeq p"
    using assms(1,4) by (simp_all add: idle_def)
  from receive_in_order [OF this(1) assms(2,3) this(2)] idle_receive [OF assms] show ?thesis
    by (auto simp: delivered_def)
qed

lemma receiveUpload_run:
  assumes "idle p n m" and "available p = wireFile content @ rest" and "length content \<le> unat FILETRANSFER_MAX_SIZE"
  shows "\<exists>p'. receiveUpload p = (Inr (True, content), p') \<and> idle p' n (m + 1) \<and> available p' = rest \<and>
    tx (chan p') = tx (chan p) @ wireMsg (ackMsg True m) \<and> processName p' = processName p"
proof -
  obtain p1 where p1: "response p True = (Inr (), p1)" "sends p 1 (wireMsg (ackMsg True m)) p1"
    using response_sends [of p True] assms(1) by (auto simp: idle_def)
  have i1: "idle p1 n (m + 1)" "available p1 = wireFile content @ rest" "tx (chan p1) = tx (chan p) @ wireMsg (ackMsg True m)"
    using idle_sends [OF assms(1) p1(2)] sends_simps [OF p1(2)] assms(2) by simp_all
  obtain p2 where p2: "receiveFileData p1 [] = (True, content, p2)" "available p2 = rest" "idle p2 n (m + 1)" "tx (chan p2) = tx (chan p1)"
    using receiveFileData_spec [OF i1(1), of "[]"] parseTransfer_wireFile [OF assms(3), of rest] i1(2) by auto
  have "processName p2 = processName p"
    using p2(1) sends_simps(9) [OF p1(2)] by (auto simp: receiveFileData_def split: prod.splits)
  with p1(1) p2 i1(3) show ?thesis
    by (auto simp: receiveUpload_def)
qed

lemma peerCall_run:
  assumes "p_run (sv_peers s i)" and "p_posts (sv_peers s i) = []" and "fn (p_end (sv_peers s i)) = (Inr x, p)" and "alive p"
  shows "peerCall i fn s = (Returned x, s\<lparr>sv_peers := (sv_peers s)(i := (sv_peers s i)\<lparr>p_end := p\<rparr>)\<rparr>)"
  using assms by (cases "sv_peers s i") (simp add: peerCall_def peer_call_def outcome_of_def)

definition updateAnswer :: "int \<Rightarrow> u32 \<Rightarrow> Message" where
  "updateAnswer r m = (if r \<ge> 0 then ackVersionMsg True r m else ackMsg False m)"

lemma updateAnswer_run:
  assumes "idle p n m"
  shows "\<exists>p'. (if r \<ge> 0 then responseVersion p True r else response p False) = (Inr (), p') \<and> idle p' n (m + 1) \<and>
    available p' = available p \<and> tx (chan p') = tx (chan p) @ wireMsg (updateAnswer r m) \<and> processName p' = processName p"
proof -
  have "\<exists>p'. (if r \<ge> 0 then responseVersion p True r else response p False) = (Inr (), p') \<and> sends p 1 (wireMsg (updateAnswer r m)) p'"
    using response_sends [of p False] responseVersion_sends [of p True r] assms by (auto simp: updateAnswer_def idle_def)
  then obtain p' where p': "(if r \<ge> 0 then responseVersion p True r else response p False) = (Inr (), p')"
    "sends p 1 (wireMsg (updateAnswer r m)) p'"
    by blast
  with idle_sends [OF assms p'(2)] sends_simps [OF p'(2)] show ?thesis
    by simp
qed

definition update_done :: "string \<Rightarrow> bytes \<Rightarrow> int \<Rightarrow> int \<Rightarrow> server \<Rightarrow> server \<Rightarrow> bool" where
  \<comment> \<open>the two ends of an update: committed on enough holders under the new version, or nothing recorded\<close>
  "update_done path content v r s s' \<longleftrightarrow>
     (r = v \<and> getKnownVersion path s' = v \<and>
        (\<exists>H \<subseteq> set (om_get (sv_replicas s) path). min (quorum (sv_factor s)) (length (om_get (sv_replicas s) path)) \<le> card H \<and>
           (\<forall>e\<in>H. stored (sv_sessions s' (snd e)) path = Some (content, v))) \<or>
      r = -1 \<and> sv_versions s' = sv_versions s) \<and>
     ((\<forall>e\<in>set (om_get (sv_replicas s) path). healthy (sv_sessions s (snd e))) \<longrightarrow> r = v)"

lemma update_outcome:
  assumes "steady N s" and "int_range (nextVersion path seen s)" and "length content \<le> unat FILETRANSFER_MAX_SIZE" and "own_session i s"
    and "origin = processName (p_end (sv_peers s i))"
  shows "\<exists>r s'. propagateUpdateFile path seen origin content s = (Returned r, s') \<and> sv_peers s' i = sv_peers s i \<and> own_session i s' \<and>
    update_done path content (nextVersion path seen s) r s s'"
proof -
  let ?h = "om_get (sv_replicas s) path" and ?v = "nextVersion path seen s"
  obtain es :: "(string \<times> nat) list" and st where run: "propagateUpdateFile path seen origin content s =
       (if length es < min (quorum (sv_factor s)) (length ?h) then (Returned (-1), s\<lparr>sv_sessions := st\<rparr>)
        else (Returned ?v, commitUpdate path ?v origin content (s\<lparr>sv_sessions := st\<rparr>)))"
      and es: "set es \<subseteq> set ?h" "card (set es) = length es" "\<forall>e\<in>set es. n_run (st (snd e)) \<and> stored (st (snd e)) path = Some (content, ?v)"
        "\<forall>e\<in>set ?h. healthy (sv_sessions s (snd e)) \<longrightarrow> e \<in> set es \<and> healthy (st (snd e))"
    by (rule update_runs [OF steady_server_ok [OF assms(1)] steady_takes [OF assms(1)] assms(2,3), of origin]) (rule that)
  have own: "own_session i (s\<lparr>sv_sessions := st\<rparr>)"
    using assms(4) by (simp add: own_session_def)
  have all: "length ?h \<le> length es" if "\<forall>e\<in>set ?h. healthy (sv_sessions s (snd e))"
  proof -
    have "set ?h = set es"
      using es(1,4) that by blast
    then show ?thesis
      using om_card [of ?h] steady_holders [OF assms(1), of path] es(2) by (simp add: serves_def)
  qed
  show ?thesis
  proof (cases "length es < min (quorum (sv_factor s)) (length ?h)")
    case True
    with run all own show ?thesis
      by (intro exI [of _ "-1"] exI [of _ "s\<lparr>sv_sessions := st\<rparr>"]) (auto simp: update_done_def)
  next
    case False
    let ?s' = "commitUpdate path ?v origin content (s\<lparr>sv_sessions := st\<rparr>)"
    have "\<exists>H \<subseteq> set ?h. min (quorum (sv_factor s)) (length ?h) \<le> card H \<and> (\<forall>e\<in>H. stored (sv_sessions ?s' (snd e)) path = Some (content, ?v))"
      using es(1-3) False by (intro exI [of _ "set es"]) (auto simp: commitUpdate_simps min_def)
    moreover have "getKnownVersion path ?s' = ?v"
      by (simp add: getKnownVersion_def commitUpdate_simps)
    moreover have "sv_peers ?s' i = sv_peers s i"
      using commitUpdate_own [OF own] assms(5) by simp
    moreover from this own have "own_session i ?s'"
      by (intro own_session_cong [OF own]) (simp_all add: commitUpdate_others)
    ultimately show ?thesis
      using run unfolding if_not_P [OF False] by (intro exI [of _ ?v] exI [of _ ?s']) (simp add: update_done_def)
  qed
qed

lemma handle_update:
  fixes s :: server and i :: nat
  defines "c \<equiv> sv_peers s i"
  assumes "steady N s" and "idle (p_end c) n m" and "available (p_end c) = wireFile content @ []"
    and "p_run c" and "p_posts c = []" and "own_session i s"
    and "length content \<le> unat FILETRANSFER_MAX_SIZE" and "int_range v" and "int_range (nextVersion path v s)"
  shows "\<exists>r s' p. handleClientRequest now i (versionMsg UPDATE_FILE path v q) s = (Returned (), s') \<and> sv_peers s' i = c\<lparr>p_end := p\<rparr> \<and>
    idle p n (m + 2) \<and> available p = [] \<and>
    tx (chan p) = tx (chan (p_end c)) @ wireMsg (ackMsg True m) @ wireMsg (updateAnswer r (m + 1)) \<and>
    own_session i s' \<and> update_done path content (nextVersion path v s) r s s'"
proof -
  let ?name = "processName (p_end c)"
  obtain p2 where p2: "receiveUpload (p_end c) = (Inr (True, content), p2)" "idle p2 n (m + 1)" "available p2 = []"
      "tx (chan p2) = tx (chan (p_end c)) @ wireMsg (ackMsg True m)" "processName p2 = ?name"
    using receiveUpload_run [OF assms(3,4,8)] by blast
  define s1 where "s1 = s\<lparr>sv_peers := (sv_peers s)(i := c\<lparr>p_end := p2\<rparr>)\<rparr>"
  have call: "peerCall i receiveUpload s = (Returned (True, content), s1)"
    using peerCall_run [of s i receiveUpload "(True, content)" p2] assms(5,6) p2(1,2) by (simp add: s1_def c_def idle_def)
  have s1: "steady N s1" "nextVersion path v s1 = nextVersion path v s" "own_session i s1" "sv_peers s1 i = c\<lparr>p_end := p2\<rparr>"
    using assms(2,7) p2(5) by (simp_all add: s1_def steady_outside nextVersion_def own_session_def c_def)
  obtain r s2 where up: "propagateUpdateFile path v ?name content s1 = (Returned r, s2)" "sv_peers s2 i = c\<lparr>p_end := p2\<rparr>"
      "own_session i s2" "update_done path content (nextVersion path v s) r s1 s2"
    using update_outcome [OF s1(1) _ assms(8) s1(3), of path v ?name] assms(10) s1(2,4) p2(5) by auto
  obtain p3 where p3: "(if r \<ge> 0 then responseVersion p2 True r else response p2 False) = (Inr (), p3)" "idle p3 n (m + 1 + 1)"
      "available p3 = []" "tx (chan p3) = tx (chan p2) @ wireMsg (updateAnswer r (m + 1))" "processName p3 = processName p2"
    using updateAnswer_run [OF p2(2), of r] p2(3) by auto
  define s3 where "s3 = s2\<lparr>sv_peers := (sv_peers s2)(i := c\<lparr>p_end := p3\<rparr>)\<rparr>"
  have "(if r \<ge> 0 then peerCall i (\<lambda>p. responseVersion p True r) s2 else peerCall i (\<lambda>p. response p False) s2) = (Returned (), s3)"
    using peerCall_run [of s2 i "\<lambda>p. responseVersion p True r" "()" p3] peerCall_run [of s2 i "\<lambda>p. response p False" "()" p3]
      up(2) assms(5,6) p3(1,2) by (auto simp: s3_def idle_def split: if_splits)
  then have "handleClientRequest now i (versionMsg UPDATE_FILE path v q) s = (Returned (), s3)"
    using call up(1) assms(9) by (simp add: handleClientRequest_def Let_def c_def)
  moreover have "sv_peers s3 i = c\<lparr>p_end := p3\<rparr>" "update_done path content (nextVersion path v s) r s s3"
    using up(4) by (simp_all add: update_done_def s3_def s1_def getKnownVersion_def)
  moreover have "own_session i s3"
    using up(2) p3(5) by (intro own_session_cong [OF up(3)]) (simp_all add: s3_def)
  ultimately show ?thesis
    using p3 p2(4) by (intro exI [of _ r] exI [of _ s3] exI [of _ p3]) (simp add: add.assoc)
qed

lemma serve_update:
  fixes s :: server and i :: nat
  defines "c \<equiv> sv_peers s i"
  assumes "steady N s" and "idle (p_end c) n m" and "available (p_end c) = uploadBytes UPDATE_FILE path v n content"
    and "p_run c" and "\<not> p_suspended c" and "p_posts c = []" and "own_session i s" and "length path \<le> 65535"
    and "length content \<le> unat FILETRANSFER_MAX_SIZE" and "int_range v" and "int_range (nextVersion path v s)"
  shows "\<exists>r s' p. serveClient now i s = (Returned (), s') \<and> sv_peers s' i = c\<lparr>p_end := p\<rparr> \<and> idle p (n + 1) (m + 2) \<and> available p = [] \<and>
    tx (chan p) = tx (chan (p_end c)) @ wireMsg (ackMsg True m) @ wireMsg (updateAnswer r (m + 1)) \<and>
    own_session i s' \<and> update_done path content (nextVersion path v s) r s s'"
proof -
  let ?m = "versionMsg UPDATE_FILE path v n" and ?name = "processName (p_end c)"
  obtain p1 where p1: "receiveAndParse (p_end c) = (?m, p1)" "available p1 = wireFile content @ []" "idle p1 (n + 1) m"
      "tx (chan p1) = tx (chan (p_end c))" "processName p1 = ?name"
    using idle_receive_name [OF assms(3), of ?m "wireFile content"] assms(4,9) by (auto simp: uploadBytes_def)
  define c0 where "c0 = c\<lparr>p_end := p1, p_suspended := True\<rparr>"
  define s0 where "s0 = s\<lparr>sv_peers := (sv_peers s)(i := c0)\<rparr>"
  have s0: "steady N s0" "own_session i s0" "int_range (nextVersion path v s0)" "sv_peers s0 i = c0" "nextVersion path v s0 = nextVersion path v s"
    using assms(2,8,12) p1(5) by (simp_all add: s0_def c0_def steady_outside own_session_def nextVersion_def c_def)
  have c0: "idle (p_end c0) (n + 1) m" "available (p_end c0) = wireFile content @ []" "p_run c0" "p_posts c0 = []"
    using p1(2,3) assms(5,7) by (simp_all add: c0_def)
  obtain r s1 p where h: "handleClientRequest now i ?m s0 = (Returned (), s1)" "sv_peers s1 i = c0\<lparr>p_end := p\<rparr>" "idle p (n + 1) (m + 2)"
      "available p = []" "tx (chan p) = tx (chan (p_end c0)) @ wireMsg (ackMsg True m) @ wireMsg (updateAnswer r (m + 1))"
      "own_session i s1" "update_done path content (nextVersion path v s0) r s0 s1"
    using handle_update [OF s0(1) _ _ _ _ s0(2) assms(10,11) s0(3), of "n + 1" m "now" n] c0 unfolding s0(4) by blast
  define s2 where "s2 = s1\<lparr>sv_peers := (sv_peers s1)(i := (sv_peers s1 i)\<lparr>p_suspended := False\<rparr>)\<rparr>"
  have "serveClient now i s = (Returned (), s2)"
    using assms(5,6) p1(1,3) h(1) by (simp add: serveClient_def c_def c0_def s0_def s2_def idle_def)
  moreover have "sv_peers s2 i = c\<lparr>p_end := p\<rparr>"
    using assms(6) h(2) by (cases c) (simp add: s2_def c0_def)
  moreover have "update_done path content (nextVersion path v s) r s s2"
    using h(7) s0(5) by (simp add: update_done_def s2_def s0_def getKnownVersion_def)
  moreover have "own_session i s2"
    by (intro own_session_cong [OF h(6)]) (simp_all add: s2_def)
  moreover have "tx (chan (p_end c0)) = tx (chan (p_end c))"
    using p1(4) by (simp add: c0_def)
  ultimately show ?thesis
    using h(3-5) by (intro exI [of _ r] exI [of _ s2] exI [of _ p]) simp
qed

section \<open>An update from the client to the data nodes\<close>

lemma ready_update:
  assumes "ready cl c n s" and "length path \<le> 65535" and "length content \<le> unat FILETRANSFER_MAX_SIZE" and "wf_msg m1" and "seq m1 = n + 1"
    and "available (p_end c) = wireMsg (ackMsg True n) @ wireMsg m1"
  shows "\<exists>p. client_updateFile h 0 path content v cl = (Returned m1, setVersionFromAck path m1 (cl\<lparr>ep_session := Some (c\<lparr>p_end := p\<rparr>)\<rparr>)) \<and>
    at_rest p (n + 2) (s + 1) \<and> tx (chan p) = tx (chan (p_end c)) @ uploadBytes UPDATE_FILE path v s content"
proof -
  let ?bs = "wireMsg (ackMsg True n) @ wireMsg m1"
  have idle: "idle (p_end c) n s" and run: "p_run c" "p_posts c = []"
    using assms(1) by (simp_all add: ready_def)
  have "available (p_end c) = take (length ?bs) ?bs"
    using assms(6) by simp
  from caller_upload [OF idle _ assms(2-5) this, of UPDATE_FILE v] obtain p where p:
    "proto_updateFileData (p_end c) path v content = (Inr m1, p)" "at_rest p (n + 2) (s + 1)"
    "tx (chan p) = tx (chan (p_end c)) @ uploadBytes UPDATE_FILE path v s content"
    by (auto simp: uploadCall_def)
  have "c\<lparr>p_run := alive p, p_end := p, p_posts := []\<rparr> = c\<lparr>p_end := p\<rparr>"
    using run p(2) by (cases c) (simp add: at_rest_def idle_def)
  with ready_rpc [OF assms(1), of "\<lambda>p. proto_updateFileData p path v content" m1 p h] p show ?thesis
    by (auto simp: client_updateFile_def messageOr_def)
qed

definition feed :: "nat \<Rightarrow> bytes \<Rightarrow> server \<Rightarrow> server" where
  \<comment> \<open>bytes of a client arrive at the server\<close>
  "feed i bs s = s\<lparr>sv_peers := (sv_peers s)(i := (sv_peers s i)\<lparr>p_end := receiving (p_end (sv_peers s i)) bs\<rparr>)\<rparr>"

definition feedClient :: "bytes \<Rightarrow> 'a client \<Rightarrow> 'a client" where
  "feedClient bs = mapSession (\<lambda>c. c\<lparr>p_end := receiving (p_end c) bs\<rparr>)"

definition sentTo :: "nat \<Rightarrow> server \<Rightarrow> server \<Rightarrow> bytes" where
  \<comment> \<open>what a step of the server sends to a client\<close>
  "sentTo i s s' = drop (length (tx (chan (p_end (sv_peers s i))))) (tx (chan (p_end (sv_peers s' i))))"

definition linked :: "'a client \<Rightarrow> peer \<Rightarrow> nat \<Rightarrow> server \<Rightarrow> u32 \<Rightarrow> u32 \<Rightarrow> bool" where
  \<comment> \<open>a client and its session at the server, both between two requests: the numbers of the next frames of the
     client and of the server\<close>
  "linked cl c i s n m \<longleftrightarrow>
     ep_session cl = Some c \<and> p_run c \<and> p_posts c = [] \<and> at_rest (p_end c) m n \<and>
     p_run (sv_peers s i) \<and> \<not> p_suspended (sv_peers s i) \<and> p_posts (sv_peers s i) = [] \<and> at_rest (p_end (sv_peers s i)) n m \<and>
     own_session i s"

lemma rest_receiving: "at_rest p s n \<Longrightarrow> idle (receiving p bs) s n \<and> available (receiving p bs) = bs \<and> tx (chan (receiving p bs)) = tx (chan p)"
  using available_receiving [of p s n bs] by simp

lemma feed_simps:
  "steady N (feed i bs s) = steady N s" "sv_peers (feed i bs s) i = (sv_peers s i)\<lparr>p_end := receiving (p_end (sv_peers s i)) bs\<rparr>"
  "own_session i (feed i bs s) = own_session i s" "nextVersion path v (feed i bs s) = nextVersion path v s"
  "update_done path content v r (feed i bs s) s' = update_done path content v r s s'"
  by (simp_all add: feed_def steady_outside own_session_def nextVersion_def update_done_def receiving_def)

lemma updateAnswer_simps [simp]: "wf_msg (updateAnswer r m)" "seq (updateAnswer r m) = m" "isAck (updateAnswer r m) \<longleftrightarrow> 0 \<le> r"
  by (simp_all add: updateAnswer_def)

lemma setVersionFromAck_update:
  assumes "int_range r"
  shows "clientVersion path (setVersionFromAck path (updateAnswer r m) cl) = (if 0 \<le> r then r else clientVersion path cl)"
    and "ep_session (setVersionFromAck path (updateAnswer r m) cl) = ep_session cl"
proof -
  have "getUint32 (ackVersionMsg True r m) FILE_VERSION x = u32_of_int r" for x
    by (simp add: ackVersionMsg_def accessor_defs fieldBool_def)
  moreover have "u32_of_int r \<noteq> 0xFFFFFFFF" if "0 \<le> r"
  proof
    assume "u32_of_int r = 0xFFFFFFFF"
    then have "int_of_u32 (u32_of_int r) = int_of_u32 0xFFFFFFFF"
      by simp
    moreover have "int_of_u32 0xFFFFFFFF = -1"
      by (simp add: int_of_u32_def)
    ultimately show False
      using that int_of_u32_of_int [OF assms] by linarith
  qed
  ultimately show "clientVersion path (setVersionFromAck path (updateAnswer r m) cl) = (if 0 \<le> r then r else clientVersion path cl)"
    "ep_session (setVersionFromAck path (updateAnswer r m) cl) = ep_session cl"
    using assms by (simp_all add: setVersionFromAck_def updateAnswer_def clientVersion_def setClientVersion_def Let_def)
qed

lemma clientVersion_session: "clientVersion path ((feedClient bs cl)\<lparr>ep_session := x\<rparr>) = clientVersion path cl"
  by (simp add: clientVersion_def feedClient_def mapSession_def)


lemma fresh_rest: "at_rest (newProto freshChannel type name) 0 0"
  by (simp add: at_rest_def idle_def newProto_def freshChannel_def tx_ready_def available_def rx_avail_def)

abbreviation demoBusy :: server where
  \<comment> \<open>two data nodes that hold a file, and a connected client\<close>
  "demoBusy \<equiv> demoUp\<lparr>sv_peers := (\<lambda>_. startPeer ''CLIENT'' ''c'' freshChannel), sv_clients := [(''c'', 2)]\<rparr>"

lemma demoBusy_steady: "steady {''a''} demoBusy"
proof -
  have "server_ok demoBusy"
    using demoUp_ok(1) by (simp add: server_ok_def locks_ok_def)
  moreover have "hosts {''a''} (sv_sessions demoBusy) e" if "e \<in> {(''dn1'', 0), (''dn2'', 1)}" for e
    using that demo_node [unfolded healthy_def] demo_disk(2) by (auto simp: hosts_def demo_simps)
  ultimately show ?thesis
    by (simp add: steady_def serves_def server_ok_def entries_ok_def demo_simps) (simp add: demoServer_def newServer_def locks_ok_def)
qed

lemma demoBusy_linked:
  "linked (demoClient [] ()) \<lparr>p_name = ''c'', p_run = True, p_end = receiving (newProto freshChannel ''CLIENT'' ''c'') [], p_posts = [],
     p_suspended = False\<rparr> 2 demoBusy 0 0"
proof -
  have "at_rest (receiving (newProto freshChannel ''CLIENT'' ''c'') []) 0 0"
    using rest_receiving [OF fresh_rest, of "''CLIENT''" "''c''" "[]"] by (simp add: at_rest_def)
  moreover have "own_session 2 demoBusy"
    by (simp add: own_session_def startPeer_def newProto_def demoServer_def newServer_def)
  ultimately show ?thesis
    using fresh_rest [of "''CLIENT''" "''c''"] by (simp add: linked_def demoClient_def startPeer_def)
qed


end
