(* ===== verification/Replica_Watcher.thy ===== *)
theory Replica_Watcher
  imports Datanode_Session State_Manager Cluster_Config
begin

text \<open>
  A standby server: \<open>server/src/replica_watcher.cpp\<close>. It follows the reachable server of highest
  priority, applies the snapshots and deltas that server sends, watches its heartbeats against a
  deadline, and promotes itself when every server of higher priority is unreachable. The clock, the
  result of \<open>select\<close> and the outcome of every connection attempt are inputs; frames are read with the
  protocol endpoint from the bytes of the connection.
\<close>

section \<open>The replicated state\<close>

datatype Role = STANDBY | ACTIVE

record watcher =
  w_name :: string
  w_role :: Role
  w_versions :: "(string, int) omap"
  w_replicas :: "(string, string oset) omap"
  w_epoch :: u32
  w_disk :: disk

definition newWatcher :: "string \<Rightarrow> disk \<Rightarrow> watcher" where
  \<comment> \<open>the epoch is resumed from the disk\<close>
  "newWatcher name d =
     \<lparr>w_name = name, w_role = STANDBY, w_versions = [], w_replicas = [], w_epoch = loadEpoch d, w_disk = d\<rparr>"

definition raiseEpoch :: "u32 \<Rightarrow> watcher \<Rightarrow> watcher" where
  "raiseEpoch e w = (if e > w_epoch w then w\<lparr>w_epoch := e\<rparr> else w)"

definition snapEntries :: "Message \<Rightarrow> (string \<times> int \<times> string oset) list" where
  "snapEntries msg =
     List.map_filter (\<lambda>f. if fid f \<noteq> SNAP_ENTRY then None else parseSnapEntry (string_of_bytes (fvalue f))) (mfields msg)"

definition applySnap :: "Message \<Rightarrow> watcher \<Rightarrow> watcher" where
  "applySnap msg w =
     raiseEpoch (getUint32 msg EPOCH 0)
       (w\<lparr>w_versions := fold (\<lambda>(path, ver, dns). om_put path ver) (snapEntries msg) [],
          w_replicas := fold (\<lambda>(path, ver, dns). om_put path dns) (snapEntries msg) []\<rparr>)"

definition deltaOp :: "Message \<Rightarrow> u8" where
  \<comment> \<open>the first byte of the first non-empty operation field\<close>
  "deltaOp msg = (case List.find (\<lambda>f. fid f = DELTA_OP \<and> fvalue f \<noteq> []) (mfields msg) of None \<Rightarrow> 0 | Some f \<Rightarrow> hd (fvalue f))"

definition deltaNodes :: "Message \<Rightarrow> string list" where
  "deltaNodes msg = map (\<lambda>f. string_of_bytes (fvalue f)) (filter (\<lambda>f. fid f = DATANODE_NAME) (mfields msg))"

definition applyDelta :: "Message \<Rightarrow> watcher \<Rightarrow> watcher" where
  "applyDelta msg w =
     (let w1 = raiseEpoch (getUint32 msg EPOCH 0) w;
          filePath = getString msg FILE_PATH '''';
          version = int_of_u32 (getUint32 msg FILE_VERSION 0)
      in if deltaOp msg = 1
         then w1\<lparr>w_versions := om_erase filePath (w_versions w1), w_replicas := om_erase filePath (w_replicas w1)\<rparr>
         else w1\<lparr>w_versions := om_put filePath version (w_versions w1),
                 w_replicas := om_put filePath (os_of_list (deltaNodes msg)) (w_replicas w1)\<rparr>)"

section \<open>The receive loop\<close>

datatype poll = PollError | PollTimeout | PollReady

record tick =
  \<comment> \<open>what one round of the loop sees: the running flag, whether the socket is open, the result of
     \<open>select\<close>, the clock when the deadline is checked and when it is renewed\<close>
  t_running :: bool
  t_socket :: bool
  t_poll :: poll
  t_now :: int
  t_renew :: int

definition receiveStep :: "ClusterConfig \<Rightarrow> tick \<Rightarrow> watcher \<times> proto \<times> int \<Rightarrow> bool option \<times> watcher \<times> proto \<times> int" where
  \<comment> \<open>the last component is the heartbeat deadline; a value in the first one ends the loop\<close>
  "receiveStep cfg t st =
     (let (w, p, deadline) = st
      in if \<not> (t_running t \<and> w_role w = STANDBY) then (Some False, st)
         else if \<not> t_socket t then (Some True, st)
         else if t_poll t = PollError then (Some True, st)
         else if t_now t > deadline then (Some True, st)
         else if t_poll t = PollTimeout then (None, st)
         else let (msg, p1) = receiveAndParse p
              in if \<not> alive p1 then (Some False, w, p1, deadline)
                 else let incomingEpoch = getUint32 msg EPOCH 0; renewed = t_renew t + heartbeat_timeout_ms cfg
                      in if incomingEpoch < w_epoch w then (None, w, p1, deadline)
                         else case opcode msg of
                                STATE_SNAP \<Rightarrow> (None, applySnap msg w, p1, renewed)
                              | STATE_DELTA \<Rightarrow> (None, applyDelta msg w, p1, deadline)
                              | LEADER_HB \<Rightarrow> (None, raiseEpoch incomingEpoch w, p1, renewed)
                              | CLOSE \<Rightarrow> (Some False, w, snd (response p1 True), deadline)
                              | _ \<Rightarrow> (None, w, p1, deadline))"

fun receiveLoop :: "ClusterConfig \<Rightarrow> tick list \<Rightarrow> watcher \<times> proto \<times> int \<Rightarrow> bool option \<times> watcher \<times> proto \<times> int" where
  \<comment> \<open>without a value the loop is still running after the given rounds\<close>
  "receiveLoop cfg [] st = (None, st)"
| "receiveLoop cfg (t # ts) st =
     (case receiveStep cfg t st of
        (Some timedOut, st') \<Rightarrow> (Some timedOut, st')
      | (None, st') \<Rightarrow> receiveLoop cfg ts st')"

section \<open>Promotion\<close>

definition tryConnect :: "int \<Rightarrow> (nat \<Rightarrow> channel option) \<Rightarrow> channel option" where
  \<comment> \<open>the channel of the first successful attempt\<close>
  "tryConnect attempts attempt = map_option (\<lambda>i. the (attempt i)) (List.find (\<lambda>i. attempt i \<noteq> None) [0..<nat attempts])"

definition allHigherPriorityDown :: "ClusterConfig \<Rightarrow> string \<Rightarrow> (ServerEntry \<Rightarrow> nat \<Rightarrow> bool) \<Rightarrow> bool" where
  \<comment> \<open>\<open>probe s i\<close> is whether the \<open>i\<close>-th attempt to reach \<open>s\<close> succeeds\<close>
  "allHigherPriorityDown cfg name probe =
     list_all (\<lambda>s. list_all (\<lambda>i. \<not> probe s i) [0..<nat (promotion_probe_attempts cfg)]) (higherPriorityThan cfg name)"

definition promote :: "watcher \<Rightarrow> watcher" where
  "promote w =
     (let newEpoch = w_epoch w + 1
      in w\<lparr>w_epoch := newEpoch, w_disk := saveEpoch (w_disk w) newEpoch, w_role := ACTIVE\<rparr>)"

definition standbyHandshake :: "channel \<Rightarrow> string \<Rightarrow> channel option" where
  \<comment> \<open>the channel after a completed handshake; a name too long for a field throws, which ends the thread\<close>
  "standbyHandshake c name =
     (let (m, p1) = receiveAndParse (newProto c ''STANDBY'' name)
      in if \<not> alive p1 \<or> opcode m \<noteq> IDENTIFY then None
         else case responseIdent p1 ''STANDBY'' name of
                (Inl e, p2) \<Rightarrow> None
              | (Inr _, p2) \<Rightarrow>
                  (let (ack, p3) = receiveAndParse p2
                   in if \<not> alive p3 \<or> \<not> isAck ack then None else Some (chan p3)))"

record surroundings =
  \<comment> \<open>what one round of the watch loop meets: which servers the scan reaches, the connection attempts to
     the chosen one, the clock and the rounds of the receive loop, and the promotion probes\<close>
  s_scan :: "ServerEntry \<Rightarrow> bool"
  s_connect :: "ServerEntry \<Rightarrow> nat \<Rightarrow> channel option"
  s_start :: int
  s_ticks :: "tick list"
  s_probe :: "ServerEntry \<Rightarrow> nat \<Rightarrow> bool"

definition followTarget :: "ClusterConfig \<Rightarrow> surroundings \<Rightarrow> string \<Rightarrow> ServerEntry option" where
  \<comment> \<open>the first reachable server before its own entry; one with an empty name counts as none\<close>
  "followTarget cfg env name =
     (case List.find (s_scan env) (higherPriorityThan cfg name) of
        None \<Rightarrow> None | Some s \<Rightarrow> if se_name s = '''' then None else Some s)"

definition watchRound :: "ClusterConfig \<Rightarrow> surroundings \<Rightarrow> watcher \<Rightarrow> watcher" where
  "watchRound cfg env w =
     (if w_role w = ACTIVE then w
      else case followTarget cfg env (w_name w) of
             None \<Rightarrow> if allHigherPriorityDown cfg (w_name w) (s_probe env) then promote w else w
           | Some s \<Rightarrow>
               (case tryConnect (reconnect_attempts cfg) (s_connect env s) of
                  None \<Rightarrow> w
                | Some c \<Rightarrow>
                    (case standbyHandshake c (w_name w) of
                       None \<Rightarrow> w
                     | Some c1 \<Rightarrow>
                         (let (timedOut, w1, _) =
                                receiveLoop cfg (s_ticks env)
                                  (w, newProto c1 ''STANDBY'' (w_name w), s_start env + heartbeat_timeout_ms cfg)
                          in if timedOut = Some True \<and> allHigherPriorityDown cfg (w_name w) (s_probe env)
                             then promote w1 else w1))))"

section \<open>Epochs and promotion\<close>

lemma raiseEpoch_simps [simp]:
  "w_name (raiseEpoch e w) = w_name w" "w_role (raiseEpoch e w) = w_role w" "w_disk (raiseEpoch e w) = w_disk w"
  "w_versions (raiseEpoch e w) = w_versions w" "w_replicas (raiseEpoch e w) = w_replicas w"
  "w_epoch (raiseEpoch e w) = max e (w_epoch w)"
  by (auto simp: raiseEpoch_def max_def)

lemma applySnap_simps [simp]:
  "w_name (applySnap m w) = w_name w" "w_role (applySnap m w) = w_role w" "w_disk (applySnap m w) = w_disk w"
  "w_epoch (applySnap m w) = max (getUint32 m EPOCH 0) (w_epoch w)"
  by (simp_all add: applySnap_def)

lemma applyDelta_simps [simp]:
  "w_name (applyDelta m w) = w_name w" "w_role (applyDelta m w) = w_role w" "w_disk (applyDelta m w) = w_disk w"
  "w_epoch (applyDelta m w) = max (getUint32 m EPOCH 0) (w_epoch w)"
  by (simp_all add: applyDelta_def Let_def)

definition follows :: "watcher \<Rightarrow> watcher \<Rightarrow> bool" where
  \<comment> \<open>what reading frames keeps: who the watcher is, its role and disk, and no lower epoch\<close>
  "follows w w' \<longleftrightarrow> w_name w' = w_name w \<and> w_role w' = w_role w \<and> w_disk w' = w_disk w \<and> w_epoch w \<le> w_epoch w'"

lemma receiveStep_follows: "receiveStep cfg t (w, p, dl) = (r, w', p', dl') \<Longrightarrow> follows w w'"
  by (auto simp: receiveStep_def follows_def Let_def split: if_splits prod.splits Opcode.splits)

lemma receiveLoop_follows: "receiveLoop cfg ts (w, p, dl) = (r, w', p', dl') \<Longrightarrow> follows w w'"
proof (induction ts arbitrary: w p dl)
  case Nil
  then show ?case
    by (simp add: follows_def)
next
  case (Cons t ts)
  obtain r1 w1 p1 dl1 where step: "receiveStep cfg t (w, p, dl) = (r1, w1, p1, dl1)"
    by (cases "receiveStep cfg t (w, p, dl)")
  note first = receiveStep_follows [OF step]
  show ?case
  proof (cases r1)
    case None
    with Cons.prems step have "receiveLoop cfg ts (w1, p1, dl1) = (r, w', p', dl')"
      by simp
    from Cons.IH [OF this] first show ?thesis
      by (auto simp: follows_def)
  next
    case (Some b)
    with Cons.prems step first show ?thesis
      by simp
  qed
qed

lemma watchRound_cases:
  "follows w (watchRound cfg env w) \<or>
   (\<exists>w1. watchRound cfg env w = promote w1 \<and> follows w w1 \<and> w_role w = STANDBY \<and>
         allHigherPriorityDown cfg (w_name w) (s_probe env))"
proof (cases "w_role w")
  case STANDBY
  have refl: "follows w w"
    by (simp add: follows_def)
  show ?thesis
    unfolding watchRound_def using STANDBY refl
    by (simp split: option.split prod.split) (blast dest: receiveLoop_follows)
qed (simp add: watchRound_def follows_def)

lemma promote_simps [simp]:
  "w_name (promote w) = w_name w" "w_role (promote w) = ACTIVE" "w_epoch (promote w) = w_epoch w + 1"
  "w_disk (promote w) = saveEpoch (w_disk w) (w_epoch w + 1)"
  by (simp_all add: promote_def Let_def)

lemma succ_epoch: "e < e + 1 \<or> e + 1 = 0" for e :: u32
proof (cases "unat e + Suc 0 < 2 ^ 32")
  case True
  then show ?thesis
    using no_wrap_succ by blast
next
  case False
  moreover have "unat e < 2 ^ 32"
    using unsigned_less [of e, where ?'a = nat] by simp
  ultimately have "unat (e + 1) = 0"
    by (simp add: unat_plus_if')
  then show ?thesis
    by (simp add: unat_eq_zero)
qed

lemma find_nothing: "List.find (\<lambda>_. False) xs = None"
  by (induction xs) simp_all



text \<open>
  C35: no split brain without a partition. If two configured servers both promote themselves, then one of
  them has the other among its servers of higher priority and every one of its probes of that server
  failed in the round that promoted it.
\<close>

theorem no_split_brain:
  assumes "{w_name a, w_name b} \<subseteq> se_name ` set (servers cfg)" and "w_name a \<noteq> w_name b"
    and "w_role a = STANDBY" and "w_role (watchRound cfg ea a) = ACTIVE"
    and "w_role b = STANDBY" and "w_role (watchRound cfg eb b) = ACTIVE"
  shows "(\<exists>s\<in>set (higherPriorityThan cfg (w_name a)). se_name s = w_name b \<and> (\<forall>i<nat (promotion_probe_attempts cfg). \<not> s_probe ea s i)) \<or>
    (\<exists>s\<in>set (higherPriorityThan cfg (w_name b)). se_name s = w_name a \<and> (\<forall>i<nat (promotion_probe_attempts cfg). \<not> s_probe eb s i))"
proof -
  have down: "\<forall>s\<in>set (higherPriorityThan cfg (w_name w)). \<forall>i<nat (promotion_probe_attempts cfg). \<not> s_probe e s i"
    if "w_role w = STANDBY" "w_role (watchRound cfg e w) = ACTIVE" for w e
    using watchRound_cases [of w cfg e] that
    by (auto simp: follows_def allHigherPriorityDown_def list_all_iff)
  have "w_name a \<in> se_name ` set (higherPriorityThan cfg (w_name b)) \<or> w_name b \<in> se_name ` set (higherPriorityThan cfg (w_name a))"
    using one_is_higher [of "w_name a" cfg "w_name b"] assms(1,2) by simp
  with down [OF assms(3,4)] down [OF assms(5,6)] show ?thesis
    by (auto simp: image_iff)
qed

theorem no_split_brain_witness:
  "let cfg = defaultConfig\<lparr>servers := map (\<lambda>n. \<lparr>se_name = n, se_ip = n, se_port = 9000\<rparr>) [''s1'', ''s2'', ''s3'']\<rparr>;
       env = \<lparr>s_scan = (\<lambda>_. False), s_connect = (\<lambda>_ _. None), s_start = 0, s_ticks = [], s_probe = (\<lambda>_ _. False)\<rparr>
   in (\<exists>s\<in>set (higherPriorityThan cfg ''s2''). se_name s = ''s3'' \<and> (\<forall>i<3. \<not> s_probe env s i)) \<or>
      (\<exists>s\<in>set (higherPriorityThan cfg ''s3''). se_name s = ''s2'' \<and> (\<forall>i<3. \<not> s_probe env s i))"
proof -
  let ?cfg = "defaultConfig\<lparr>servers := map (\<lambda>n. \<lparr>se_name = n, se_ip = n, se_port = 9000\<rparr>) [''s1'', ''s2'', ''s3'']\<rparr>"
  let ?env = "\<lparr>s_scan = (\<lambda>_. False), s_connect = (\<lambda>_ _. None), s_start = 0, s_ticks = [], s_probe = (\<lambda>_ _. False)\<rparr>"
  let ?w = "\<lambda>n. newWatcher n (newFileManager ''/srv'')"
  have "w_role (watchRound ?cfg ?env (?w n)) = ACTIVE" for n
    by (simp add: watchRound_def newWatcher_def followTarget_def find_nothing allHigherPriorityDown_def list_all_iff)
  then show ?thesis
    using no_split_brain [of "?w ''s2''" "?w ''s3''" ?cfg ?env ?env]
    by (simp add: newWatcher_def defaultConfig_def Let_def)
qed

lemma receiveStep_quiet:
  assumes "w_role w = STANDBY" and "t_running t" and "t_socket t" and "t_poll t = PollTimeout"
  shows "receiveStep cfg t (w, p, dl) = (if t_now t > dl then Some True else None, w, p, dl)"
  using assms by (simp add: receiveStep_def)

lemma receiveStep_late:
  assumes "w_role w = STANDBY" and "t_running t" and "t_socket t" and "t_now t > dl"
  shows "receiveStep cfg t (w, p, dl) = (Some True, w, p, dl)"
  using assms by (simp add: receiveStep_def)

lemma receiveLoop_silent:
  assumes "w_role w = STANDBY" and "\<forall>t\<in>set quiet. t_running t \<and> t_socket t \<and> t_poll t = PollTimeout"
    and "t_running late" and "t_socket late" and "t_now late > dl"
  shows "receiveLoop cfg (quiet @ late # later) (w, p, dl) = (Some True, w, p, dl)"
  using assms(2)
proof (induction quiet)
  case Nil
  show ?case
    using receiveStep_late [OF assms(1,3-5)] by simp
next
  case (Cons t ts)
  from Cons.prems have "t_running t" "t_socket t" "t_poll t = PollTimeout" "\<forall>t\<in>set ts. t_running t \<and> t_socket t \<and> t_poll t = PollTimeout"
    by auto
  note step = receiveStep_quiet [OF assms(1) this(1-3)] and IH = Cons.IH [OF this(4)]
  show ?case
    unfolding append_Cons receiveLoop.simps step by (simp only: prod.case option.case IH split: if_split) simp
qed

definition identifyMsg :: "u32 \<Rightarrow> Message" where
  "identifyMsg s = \<lparr>opcode = IDENTIFY, flags = 0, seq = s, payloadLen = 0, mfields = []\<rparr>"

lemma wf_identifyMsg [simp]: "wf_msg (identifyMsg s)" "seq (identifyMsg s) = s" "opcode (identifyMsg s) = IDENTIFY"
  by (simp_all add: wf_msg_def identifyMsg_def)

lemma newProto_idle: "tx_ready c \<Longrightarrow> idle (newProto c nt name) 0 0" "available (newProto c nt name) = rx_avail c"
  by (simp_all add: idle_def newProto_def available_def)

lemma responseIdent_sends:
  assumes "tx_ready (chan p)" and "length nt \<le> 65535" and "length name \<le> 65535"
  shows "\<exists>p' bs. responseIdent p nt name = (Inr (), p') \<and> sends p 1 bs p'"
  using sendBuilt_sends [of p "[fieldString NODE_TYPE nt, fieldString PROCESS_NAME name]" RESPONSE FLAG_RESPONSE] assms
  by (auto simp: responseIdent_def responseIdentity_def)

text \<open>The handshake with a server that identifies itself and acknowledges leaves what the server sent after it.\<close>

lemma standbyHandshake_ok:
  assumes "rx_avail c = wireMsg (identifyMsg 0) @ wireMsg (ackMsg True 1) @ rest" and "tx_ready c" and "length name \<le> 65535"
  shows "\<exists>c1. standbyHandshake c name = Some c1 \<and> rx_avail c1 = rest \<and> tx_ready c1"
proof -
  let ?p = "newProto c ''STANDBY'' name"
  have p: "idle ?p 0 0" "available ?p = wireMsg (identifyMsg 0) @ wireMsg (ackMsg True 1) @ rest"
    using newProto_idle(1) [OF assms(2)] newProto_idle(2) [of c] assms(1) by simp_all
  obtain p1 where p1: "receiveAndParse ?p = (identifyMsg 0, p1)" "available p1 = wireMsg (ackMsg True 1) @ rest" "idle p1 1 0"
    using idle_receive [OF p] by auto
  obtain p2 bs where p2: "responseIdent p1 ''STANDBY'' name = (Inr (), p2)" "sends p1 1 bs p2"
    using responseIdent_sends [of p1 "''STANDBY''" name] p1(3) assms(3) by (auto simp: idle_def)
  have "idle p2 1 1" "available p2 = wireMsg (ackMsg True 1) @ rest"
    using idle_sends [OF p1(3) p2(2)] sends_simps(1) [OF p2(2)] p1(2) by simp_all
  then obtain p3 where p3: "receiveAndParse p2 = (ackMsg True 1, p3)" "available p3 = rest" "idle p3 2 1"
    using idle_receive [of p2 1 1 "ackMsg True 1" rest] by auto
  have "alive p1" "alive p3" "tx_ready (chan p3)"
    using p1(3) p3(3) by (simp_all add: idle_def)
  with p1 p2 p3 show ?thesis
    by (simp add: standbyHandshake_def available_def)
qed



end
