(* ===== verification/Standby_Mirror.thy ===== *)
theory Standby_Mirror
  imports Client_Server Replica_Watcher
begin

text \<open>
  The primary and a standby together: \<open>server/src/standby_replica_manager.cpp\<close> on one side and
  \<open>server/src/replica_watcher.cpp\<close> on the other. The abstract state of both is the version map with the
  names of the holders of each file; the theorems state that the standby computes the state of the
  primary from the snapshot and the deltas it is sent.
\<close>

section \<open>What a standby knows of the primary\<close>

definition deltaMsg :: "u8 \<Rightarrow> string \<Rightarrow> int \<Rightarrow> string list \<Rightarrow> u32 \<Rightarrow> u32 \<Rightarrow> Message" where
  "deltaMsg op path v names e q =
     \<lparr>opcode = STATE_DELTA, flags = 0, seq = q, payloadLen = 0,
      mfields = [fieldUint32 EPOCH e, \<lparr>fid = DELTA_OP, fvalue = [op]\<rparr>, fieldString FILE_PATH path, fieldUint32 FILE_VERSION (u32_of_int v)] @
        map (fieldString DATANODE_NAME) names\<rparr>"

definition hbMsg :: "u32 \<Rightarrow> u32 \<Rightarrow> Message" where
  "hbMsg e q = \<lparr>opcode = LEADER_HB, flags = 0, seq = q, payloadLen = 0, mfields = [fieldUint32 EPOCH e]\<rparr>"

definition applyPost :: "posted \<Rightarrow> watcher \<Rightarrow> watcher" where
  \<comment> \<open>what a standby does with the frame of a posted task\<close>
  "applyPost t w =
     (case t of
        PostDelta op path v names e \<Rightarrow> applyDelta (deltaMsg op path v names e 0) w
      | PostHb e \<Rightarrow> raiseEpoch e w
      | _ \<Rightarrow> w)"

definition mirrors :: "watcher \<Rightarrow> server \<Rightarrow> bool" where
  \<comment> \<open>the same versions, and for every file with a version the names of its holders\<close>
  "mirrors w s \<longleftrightarrow> w_versions w = sv_versions s \<and> om_ok (w_replicas w) \<and>
     (\<forall>path. om_has (sv_versions s) path \<longrightarrow> om_find (w_replicas w) path = Some (om_keys (om_get (sv_replicas s) path)))"

definition tracks :: "nat \<Rightarrow> watcher \<Rightarrow> server \<Rightarrow> bool" where
  \<comment> \<open>once it has received what is on its way to it\<close>
  "tracks i w s \<longleftrightarrow> mirrors (fold applyPost (p_posts (sv_peers s i)) w) s"

definition is_standby :: "nat \<Rightarrow> server \<Rightarrow> bool" where
  \<comment> \<open>a connected standby that shares its session with nobody\<close>
  "is_standby i s \<longleftrightarrow> peer_isAlive (sv_peers s i) \<and> i \<notin> snd ` set (sv_clients s) \<and>
     (\<exists>m. sv_standbys s = Some m \<and> distinct (map snd m) \<and> i \<in> snd ` set m)"

lemma deltaMsg_simps [simp]:
  "opcode (deltaMsg op path v names e q) = STATE_DELTA" "getUint32 (deltaMsg op path v names e q) EPOCH x = e"
  "getString (deltaMsg op path v names e q) FILE_PATH y = path" "getUint32 (deltaMsg op path v names e q) FILE_VERSION x = u32_of_int v"
  by (simp_all add: deltaMsg_def accessor_defs)

lemma deltaMsg_fields [simp]: "deltaOp (deltaMsg op path v names e q) = op" "deltaNodes (deltaMsg op path v names e q) = names"
  by (simp_all add: deltaMsg_def deltaOp_def deltaNodes_def fieldString_def fieldUint32_def comp_def)

lemma applyDelta_msg:
  "applyDelta (deltaMsg op path v names e q) w =
     (let w1 = raiseEpoch e w
      in if op = 1 then w1\<lparr>w_versions := om_erase path (w_versions w), w_replicas := om_erase path (w_replicas w)\<rparr>
         else w1\<lparr>w_versions := om_put path (int_of_u32 (u32_of_int v)) (w_versions w),
                 w_replicas := om_put path (os_of_list names) (w_replicas w)\<rparr>)"
  by (simp add: applyDelta_def Let_def)

section \<open>Writes of the primary\<close>

lemma peers_postTo: "sv_peers (fold (postTo t) is s) i = (sv_peers s i)\<lparr>p_posts := p_posts (sv_peers s i) @ replicate (count_list is i) t\<rparr>"
proof (induction "is" arbitrary: s)
  case (Cons j js)
  have "sv_peers (postTo t j s) i = (sv_peers s i)\<lparr>p_posts := p_posts (sv_peers s i) @ (if j = i then [t] else [])\<rparr>"
    by (simp add: postTo_def)
  then show ?case
    by (simp add: Cons)
qed simp

lemma count_once: "distinct xs \<Longrightarrow> x \<in> set xs \<Longrightarrow> count_list xs x = 1"
  by (induction xs) auto

lemma peers_sendDelta:
  assumes "is_standby i s"
  shows "sv_peers (sendDelta op path v names s) i =
    (sv_peers s i)\<lparr>p_posts := p_posts (sv_peers s i) @ [PostDelta op path v names (sv_epoch s)]\<rparr>"
proof -
  obtain m where m: "sv_standbys s = Some m" "distinct (map snd m)" "i \<in> snd ` set m" "peer_isAlive (sv_peers s i)"
    using assms by (auto simp: is_standby_def)
  let ?is = "filter (\<lambda>i. peer_isAlive (sv_peers s i)) (map snd m)"
  have "distinct ?is" "i \<in> set ?is"
    using m(2-4) by (simp_all add: distinct_map image_iff)
  then have "count_list ?is i = 1"
    by (rule count_once)
  then show ?thesis
    using m(1) by (simp add: sendDelta_def peers_postTo)
qed

lemma peers_pushToClients:
  assumes "i \<notin> snd ` set clients"
  shows "sv_peers (pushToClients t origin clients s) i = sv_peers s i"
proof -
  have "i \<notin> set (map snd (filter (\<lambda>(name, i). name \<noteq> origin) clients))"
    using assms by auto
  then have "count_list (map snd (filter (\<lambda>(name, i). name \<noteq> origin) clients)) i = 0"
    by (rule count_notin)
  then show ?thesis
    by (simp add: pushToClients_def peers_postTo)
qed

lemma standbys_keep [simp]:
  "sv_standbys (sendDelta op path v names s) = sv_standbys s" "sv_standbys (pushToClients t origin cs s) = sv_standbys s"
  by (simp_all add: sendDelta_def pushToClients_def standbys_fold_postTo split: option.split)

lemma os_ok_keys: "om_ok m \<Longrightarrow> os_ok (om_keys m)"
  by (simp add: os_ok_def om_ok_def om_keys_def)

lemma om_has_put [simp]: "om_has (om_put k v m) k' \<longleftrightarrow> k' = k \<or> om_has m k'"
  by (simp add: om_has_def)

lemma om_has_erase: "om_ok m \<Longrightarrow> om_has (om_erase k m) k' \<longleftrightarrow> k' \<noteq> k \<and> om_has m k'"
  by (simp add: om_has_def om_find_erase)

lemma mirrors_put:
  assumes "mirrors w s" and "int_range v" and "op \<noteq> 1" and "sv_versions s' = om_put path v (sv_versions s)"
    and "os_of_list names = om_keys (om_get (sv_replicas s') path)" and "\<And>q. q \<noteq> path \<Longrightarrow> om_get (sv_replicas s') q = om_get (sv_replicas s) q"
  shows "mirrors (applyPost (PostDelta op path v names e) w) s'"
  using assms by (simp add: mirrors_def applyPost_def applyDelta_msg Let_def)

lemma mirrors_erase:
  assumes "mirrors w s" and "om_ok (sv_versions s)" and "sv_versions s' = om_erase path (sv_versions s)"
    and "\<And>q. q \<noteq> path \<Longrightarrow> om_get (sv_replicas s') q = om_get (sv_replicas s) q"
  shows "mirrors (applyPost (PostDelta 1 path v names e) w) s'"
  using assms by (simp add: mirrors_def applyPost_def applyDelta_msg Let_def om_has_erase om_find_erase)

lemma is_standby_cong:
  "is_standby i s \<Longrightarrow> peer_isAlive (sv_peers s' i) = peer_isAlive (sv_peers s i) \<Longrightarrow> sv_clients s' = sv_clients s \<Longrightarrow>
   sv_standbys s' = sv_standbys s \<Longrightarrow> is_standby i s'"
  by (simp add: is_standby_def)

lemma tracks_cong:
  "tracks i w s \<Longrightarrow> p_posts (sv_peers s' i) = p_posts (sv_peers s i) \<Longrightarrow> sv_versions s' = sv_versions s \<Longrightarrow>
   sv_replicas s' = sv_replicas s \<Longrightarrow> tracks i w s'"
  by (simp add: tracks_def mirrors_def)

lemma peers_others [simp]:
  "sv_peers (addHolder p e s) = sv_peers s" "sv_standbys (addHolder p e s) = sv_standbys s" "sv_epoch (addHolder p e s) = sv_epoch s"
  "sv_peers (insertLock t p s) = sv_peers s" "sv_standbys (insertLock t p s) = sv_standbys s" "sv_epoch (insertLock t p s) = sv_epoch s"
  "sv_peers (eraseLock p s) = sv_peers s" "sv_standbys (eraseLock p s) = sv_standbys s" "sv_epoch (eraseLock p s) = sv_epoch s"
  "sv_clients (eraseLock p s) = sv_clients s" "sv_versions (eraseLock p s) = sv_versions s" "sv_replicas (eraseLock p s) = sv_replicas s"
  by (simp_all add: addHolder_def insertLock_def eraseLock_def)

lemma peers_addHolders [simp]:
  "sv_peers (fold (addHolder p) es s) = sv_peers s" "sv_standbys (fold (addHolder p) es s) = sv_standbys s"
  "sv_epoch (fold (addHolder p) es s) = sv_epoch s"
  by (induction es arbitrary: s) simp_all

lemma epoch_pushToClients [simp]: "sv_epoch (pushToClients t origin cs s) = sv_epoch s" "sv_epoch (sendDelta op path v names s) = sv_epoch s"
  by (rule core_pushToClients [THEN core_eq(10)], rule core_sendDelta [THEN core_eq(10)])

lemma tracks_post:
  assumes "tracks i w s" and "p_posts (sv_peers s' i) = p_posts (sv_peers s i) @ [t]"
    and "\<And>w'. mirrors w' s \<Longrightarrow> mirrors (applyPost t w') s'"
  shows "tracks i w s'"
  using assms by (simp add: tracks_def)

lemma tracks_commitUpdate:
  assumes "steady N s" and "is_standby i s" and "tracks i w s" and "int_range v"
  shows "tracks i w (commitUpdate path v origin content s) \<and> is_standby i (commitUpdate path v origin content s)"
proof -
  let ?s = "persistState (s\<lparr>sv_versions := om_put path v (sv_versions s), sv_disk := setFileVersion (sv_disk s) path v\<rparr>)"
  let ?names = "om_keys (om_get (sv_replicas s) path)" and ?s' = "commitUpdate path v origin content s"
  have sb: "is_standby i ?s" and free: "i \<notin> snd ` set (sv_clients s)"
    using assms(2) by (simp_all add: is_standby_def)
  have peer: "sv_peers ?s' i = (sv_peers s i)\<lparr>p_posts := p_posts (sv_peers s i) @ [PostDelta 0 path v ?names (sv_epoch s)]\<rparr>"
    using peers_sendDelta [OF sb] free by (simp add: commitUpdate_def Let_def peers_pushToClients)
  have "os_ok ?names"
    using steady_holders [OF assms(1), of path] by (simp add: serves_def os_ok_keys)
  then have names: "os_of_list ?names = ?names"
    by (rule os_of_list_id)
  have "tracks i w ?s'"
  proof (rule tracks_post [OF assms(3)])
    show "p_posts (sv_peers ?s' i) = p_posts (sv_peers s i) @ [PostDelta 0 path v ?names (sv_epoch s)]"
      by (simp add: peer)
    show "mirrors (applyPost (PostDelta 0 path v ?names (sv_epoch s)) w') ?s'" if "mirrors w' s" for w'
      using that assms(4) names by (intro mirrors_put) (simp_all add: commitUpdate_simps)
  qed
  moreover have "is_standby i ?s'"
    using peer by (intro is_standby_cong [OF assms(2)]) (simp_all add: peer_isAlive_def commitUpdate_def Let_def)
  ultimately show ?thesis
    by blast
qed

lemma keys_addHolders:
  assumes "om_ok (om_get (sv_replicas s) path)"
  shows "om_ok (om_get (sv_replicas (fold (addHolder path) es s)) path) \<and>
    set (om_keys (om_get (sv_replicas (fold (addHolder path) es s)) path)) = set (om_keys (om_get (sv_replicas s) path)) \<union> fst ` set es"
  using assms
proof (induction es arbitrary: s)
  case (Cons e es)
  have one: "om_get (sv_replicas (addHolder path e s)) path = om_put (fst e) (snd e) (om_get (sv_replicas s) path)"
    by (simp add: addHolder_def om_get_def)
  have keys: "set (om_keys (om_put k x m)) = insert k (set (om_keys m))" for k :: string and x :: nat and m
  proof (intro set_eqI)
    fix q
    have "q \<in> set (om_keys m') \<longleftrightarrow> om_find m' q \<noteq> None" for m' :: "(string, nat) omap"
      using om_find_None_iff [of m' q] by (auto simp: om_keys_def)
    then show "q \<in> set (om_keys (om_put k x m)) \<longleftrightarrow> q \<in> insert k (set (om_keys m))"
      by simp
  qed
  from Cons.IH [of "addHolder path e s"] Cons.prems show ?case
    by (simp add: one keys)
qed simp

lemma get_addHolders_other: "q \<noteq> path \<Longrightarrow> om_get (sv_replicas (fold (addHolder path) es s)) q = om_get (sv_replicas s) q"
  by (simp add: om_get_def replicas_addHolders_other)

lemma tracks_commitCreate:
  assumes "is_standby i s" and "tracks i w s" and "int_range v" and "om_get (sv_replicas s) path = []"
  shows "tracks i w (commitCreate now path v origin content es s) \<and> is_standby i (commitCreate now path v origin content es s)"
proof -
  let ?s1 = "fold (addHolder path) es s" and ?names = "map fst es" and ?s' = "commitCreate now path v origin content es s"
  define s5 where "s5 = persistState (insertLock now path (?s1\<lparr>sv_versions := om_put path v (sv_versions ?s1)\<rparr>)
      \<lparr>sv_disk := setFileVersion (sv_disk (insertLock now path (?s1\<lparr>sv_versions := om_put path v (sv_versions ?s1)\<rparr>))) path v\<rparr>)"
  have s': "?s' = pushToClients (PushCreate path v content) origin (sv_clients s) (sendDelta 0 path v ?names s5)"
    by (simp add: commitCreate_def Let_def s5_def)
  have s5: "sv_peers s5 = sv_peers s" "sv_clients s5 = sv_clients s" "sv_standbys s5 = sv_standbys s" "sv_epoch s5 = sv_epoch s"
    by (simp_all add: s5_def)
  have sb: "is_standby i s5" and free: "i \<notin> snd ` set (sv_clients s)"
    using assms(1) by (simp_all add: is_standby_def s5)
  have peer: "sv_peers ?s' i = (sv_peers s i)\<lparr>p_posts := p_posts (sv_peers s i) @ [PostDelta 0 path v ?names (sv_epoch s)]\<rparr>"
    using peers_sendDelta [OF sb] free by (simp add: s' s5 peers_pushToClients)
  have names: "os_of_list ?names = om_keys (om_get (sv_replicas ?s') path)"
    using keys_addHolders [of s path es] assms(4)
    by (intro os_eqI) (simp_all add: commitCreate_simps os_ok_keys om_keys_def [of "[]"])
  have "tracks i w ?s'"
  proof (rule tracks_post [OF assms(2)])
    show "p_posts (sv_peers ?s' i) = p_posts (sv_peers s i) @ [PostDelta 0 path v ?names (sv_epoch s)]"
      by (simp add: peer)
    show "mirrors (applyPost (PostDelta 0 path v ?names (sv_epoch s)) w') ?s'" if "mirrors w' s" for w'
      using that assms(3) names by (intro mirrors_put) (simp_all add: commitCreate_simps get_addHolders_other)
  qed
  moreover have "is_standby i ?s'"
    using peer by (intro is_standby_cong [OF assms(1)]) (simp_all add: peer_isAlive_def s' s5)
  ultimately show ?thesis
    by blast
qed

lemma tracks_commitDelete:
  assumes "steady N s" and "is_standby i s" and "tracks i w s"
  shows "tracks i w (commitDelete path origin s) \<and> is_standby i (commitDelete path origin s)"
proof -
  let ?s1 = "eraseLock path (pushToClients (PushDelete path) origin (sv_clients s) s)" and ?s' = "commitDelete path origin s"
  define s4 where "s4 = persistState (?s1\<lparr>sv_replicas := om_erase path (sv_replicas s), sv_versions := om_erase path (sv_versions s),
      sv_disk := snd (deleteFileAndVersion (sv_disk ?s1) path)\<rparr>)"
  have ok: "om_ok (sv_versions s)" "om_ok (sv_replicas s)"
    using assms(1) by (simp_all add: steady_def)
  have s': "?s' = sendDelta 1 path 0 [] s4"
    by (simp add: commitDelete_def Let_def s4_def)
  have free: "i \<notin> snd ` set (sv_clients s)"
    using assms(2) by (simp add: is_standby_def)
  have s4: "sv_peers s4 i = sv_peers s i" "sv_clients s4 = sv_clients s" "sv_standbys s4 = sv_standbys s" "sv_epoch s4 = sv_epoch s"
      "sv_versions s4 = om_erase path (sv_versions s)" "sv_replicas s4 = om_erase path (sv_replicas s)"
    using free by (simp_all add: s4_def peers_pushToClients)
  have "is_standby i s4"
    by (rule is_standby_cong [OF assms(2)]) (simp_all add: s4)
  then have peer: "sv_peers ?s' i = (sv_peers s i)\<lparr>p_posts := p_posts (sv_peers s i) @ [PostDelta 1 path 0 [] (sv_epoch s)]\<rparr>"
    using peers_sendDelta by (simp add: s' s4)
  have "tracks i w ?s'"
  proof (rule tracks_post [OF assms(3)])
    show "p_posts (sv_peers ?s' i) = p_posts (sv_peers s i) @ [PostDelta 1 path 0 [] (sv_epoch s)]"
      by (simp add: peer)
    show "mirrors (applyPost (PostDelta 1 path 0 [] (sv_epoch s)) w') ?s'" if "mirrors w' s" for w'
      using that ok by (intro mirrors_erase) (simp_all add: s' s4 om_get_def om_find_erase)
  qed
  moreover have "is_standby i ?s'"
    using peer by (intro is_standby_cong [OF assms(2)]) (simp_all add: peer_isAlive_def s' s4)
  ultimately show ?thesis
    by blast
qed

inductive primary_write :: "string set \<Rightarrow> server \<Rightarrow> server \<Rightarrow> bool" for N where
  update: "int_range (nextVersion path seen s) \<Longrightarrow> length content \<le> unat FILETRANSFER_MAX_SIZE \<Longrightarrow>
    primary_write N s (snd (propagateUpdateFile path seen origin content s))"
| create: "path \<in> N \<Longrightarrow> om_get (sv_replicas s) path = [] \<Longrightarrow> int_range v \<Longrightarrow> length content \<le> unat FILETRANSFER_MAX_SIZE \<Longrightarrow>
    primary_write N s (snd (propagateCreateFile now path v origin content s))"
| delete: "primary_write N s (snd (propagateDeleteFile path origin s))"

lemma tracks_sessions: "tracks i w (s\<lparr>sv_sessions := st\<rparr>) = tracks i w s" "is_standby i (s\<lparr>sv_sessions := st\<rparr>) = is_standby i s"
    "tracks i w (s\<lparr>sv_pool := ts\<rparr>) = tracks i w s" "is_standby i (s\<lparr>sv_pool := ts\<rparr>) = is_standby i s"
  by (simp_all add: tracks_def mirrors_def is_standby_def)

lemma tracks_update:
  assumes "steady N s" and "is_standby i s" and "tracks i w s" and "int_range (nextVersion path seen s)" and "length content \<le> unat FILETRANSFER_MAX_SIZE"
  shows "tracks i w (snd (propagateUpdateFile path seen origin content s)) \<and> is_standby i (snd (propagateUpdateFile path seen origin content s))"
proof -
  let ?v = "nextVersion path seen s"
  obtain es :: "(string \<times> nat) list" and st where run: "propagateUpdateFile path seen origin content s =
       (if length es < min (quorum (sv_factor s)) (length (om_get (sv_replicas s) path)) then (Returned (-1), s\<lparr>sv_sessions := st\<rparr>)
        else (Returned ?v, commitUpdate path ?v origin content (s\<lparr>sv_sessions := st\<rparr>)))" and st: "sessions_step (sv_sessions s) st"
    by (rule update_runs [OF steady_server_ok [OF assms(1)] steady_takes [OF assms(1)] assms(4,5), of origin]) (rule that)
  have "steady N (s\<lparr>sv_sessions := st\<rparr>)"
    using steady_keeps [OF assms(1) keeps_sessions [OF st]] .
  from tracks_commitUpdate [OF this, of i w ?v path origin content] assms(2-4) run show ?thesis
    by (simp add: tracks_sessions)
qed

lemma tracks_create:
  assumes "steady N s" and "is_standby i s" and "tracks i w s" and "path \<in> N" and "om_get (sv_replicas s) path = []" and "int_range v"
    and "length content \<le> unat FILETRANSFER_MAX_SIZE"
  shows "tracks i w (snd (propagateCreateFile now path v origin content s)) \<and> is_standby i (snd (propagateCreateFile now path v origin content s))"
proof -
  have takes: "takes (sv_sessions s) (sv_nodes s) path"
    using assms(1,4) by (auto simp: steady_def intro: serves_ok(2))
  obtain es st where run: "propagateCreateFile now path v origin content s =
       (if length es < quorum (sv_factor s)
        then (Returned False, s\<lparr>sv_sessions := st, sv_pool := sv_pool s @ map (\<lambda>e. RollbackDelete (snd e) path) es\<rparr>)
        else (Returned True, commitCreate now path v origin content es (s\<lparr>sv_sessions := st\<rparr>)))"
    by (rule create_runs [OF steady_server_ok [OF assms(1)] takes assms(6,7), of "now" origin]) (rule that)
  from tracks_commitCreate [of i "s\<lparr>sv_sessions := st\<rparr>" w v path "now" origin content es] assms(2,3,5,6) run show ?thesis
    by (simp add: tracks_sessions)
qed

lemma tracks_delete:
  assumes "steady N s" and "is_standby i s" and "tracks i w s"
  shows "tracks i w (snd (propagateDeleteFile path origin s)) \<and> is_standby i (snd (propagateDeleteFile path origin s))"
proof -
  let ?h = "om_get (sv_replicas s) path"
  define st where "st = snd (fanOut node_isAlive (node_deleteFile path) ?h (sv_sessions s))"
  have fan: "snd (fanOutNodes (node_deleteFile path) ?h s) = s\<lparr>sv_sessions := st\<rparr>"
    by (simp add: fanOutNodes_def st_def split: prod.split)
  have steady: "steady N (s\<lparr>sv_sessions := st\<rparr>)"
    using steady_keeps [OF assms(1) keeps_fanOutDelete [OF assms(1), of path]] by (simp add: fan)
  show ?thesis
    unfolding propagateDeleteFile_def
  proof (rule bindO_snd [where P = "\<lambda>s'. tracks i w s' \<and> is_standby i s'"])
    show "tracks i w (snd (fanOutNodes (node_deleteFile path) ?h s)) \<and> is_standby i (snd (fanOutNodes (node_deleteFile path) ?h s))"
      using assms(2,3) by (simp add: fan tracks_sessions)
    fix answers s1
    assume "fanOutNodes (node_deleteFile path) ?h s = (Returned answers, s1)"
    then have "s1 = s\<lparr>sv_sessions := st\<rparr>"
      using fan by simp
    with tracks_commitDelete [OF steady, of i w path origin] assms(2,3)
    show "tracks i w (snd (let asked = length answers; acks = length (acked answers)
         in if asked > 0 \<and> acks < min (quorum (sv_factor s1)) asked then (Returned (), s1) else (Returned (), commitDelete path origin s1))) \<and>
       is_standby i (snd (let asked = length answers; acks = length (acked answers)
         in if asked > 0 \<and> acks < min (quorum (sv_factor s1)) asked then (Returned (), s1) else (Returned (), commitDelete path origin s1)))"
      by (simp add: tracks_sessions Let_def)
  qed
qed

text \<open>
  C9: a standby follows the writes of the primary. Let a connected standby know the versions of all files
  and the names of their holders, once it has received what is on its way to it. After any sequence of
  updates, deletions and creations of new files, whether they were committed or not, the same holds
  for the new state of the primary: every committed write sends it exactly the change of the maps.
\<close>

theorem standby_tracks:
  assumes "(primary_write N)\<^sup>*\<^sup>* s s'" and "steady N s" and "is_standby i s" and "tracks i w s"
  shows "tracks i w s' \<and> is_standby i s'"
proof -
  have "steady N s' \<and> tracks i w s' \<and> is_standby i s'"
    using assms
  proof (induction rule: rtranclp_induct)
    case (step s1 s2)
    then have s1: "steady N s1" "is_standby i s1" "tracks i w s1"
      by simp_all
    from step.hyps(2) show ?case
    proof cases
      case (update path seen content origin)
      then show ?thesis
        using s1 tracks_update steady_keeps [OF s1(1) keeps_update [OF s1(1)]] by simp
    next
      case (create path v content "now" origin)
      then show ?thesis
        using s1 tracks_create steady_create by simp
    next
      case (delete path origin)
      then show ?thesis
        using s1 tracks_delete steady_delete by simp
    qed
  qed simp
  then show ?thesis
    by blast
qed

section \<open>Catching up\<close>

definition state_post :: "u32 \<Rightarrow> posted \<Rightarrow> bool" where
  \<comment> \<open>a delta or heartbeat of the given epoch that fits into a frame\<close>
  "state_post e t = (case t of
     PostDelta op path v names e' \<Rightarrow> e' = e \<and> length path \<le> 65535 \<and> length names \<le> 251 \<and> (\<forall>x\<in>set names. length x \<le> 65535)
   | PostHb e' \<Rightarrow> e' = e
   | _ \<Rightarrow> False)"

definition postMsg :: "posted \<Rightarrow> u32 \<Rightarrow> Message" where
  "postMsg t q = (case t of PostDelta op path v names e \<Rightarrow> deltaMsg op path v names e q | PostHb e \<Rightarrow> hbMsg e q | _ \<Rightarrow> emptyMessage)"

fun postFrames :: "posted list \<Rightarrow> u32 \<Rightarrow> bytes" where
  "postFrames [] q = []"
| "postFrames (t # ts) q = wireMsg (postMsg t q) @ postFrames ts (q + 1)"

lemma wf_op_field [simp]: "wf_field \<lparr>fid = DELTA_OP, fvalue = [op]\<rparr>"
  by (simp add: wf_field_def)

lemma postMsg_wf: "state_post e t \<Longrightarrow> wf_msg (postMsg t q) \<and> seq (postMsg t q) = q"
  by (auto simp: state_post_def postMsg_def deltaMsg_def hbMsg_def wf_msg_def split: posted.splits)

lemma runPost_sends:
  assumes "state_post e t" and "idle p n q"
  shows "\<exists>p'. runPost t p = (Inr (), p') \<and> sends p 1 (wireMsg (postMsg t q)) p'"
proof -
  have p: "tx_ready (chan p)" "nextSendSeq p = q"
    using assms(2) by (simp_all add: idle_def)
  show ?thesis
  proof (cases t)
    case (PostDelta op path v names e')
    let ?fs = "[fieldUint32 EPOCH e', \<lparr>fid = DELTA_OP, fvalue = [op]\<rparr>, fieldString FILE_PATH path, fieldUint32 FILE_VERSION (u32_of_int v)] @
        map (fieldString DATANODE_NAME) names"
    have "\<forall>f\<in>set ?fs. wf_field f" "length ?fs \<le> 255"
      using assms(1) PostDelta by (auto simp: state_post_def)
    from sendBuilt_sends [OF p(1) this, of STATE_DELTA 0] p(2) PostDelta show ?thesis
      by (simp add: runPost_def sendStateDelta_def stateDeltaFormat_def postMsg_def deltaMsg_def)
  next
    case (PostHb e')
    from sendBuilt_sends [OF p(1), of "[fieldUint32 EPOCH e']" LEADER_HB 0] p(2) PostHb show ?thesis
      by (simp add: runPost_def sendLeaderHb_def leaderHbFormat_def postMsg_def hbMsg_def)
  qed (use assms(1) in \<open>simp_all add: state_post_def\<close>)
qed

lemma drainPosts_sends:
  assumes "\<forall>t\<in>set ts. state_post e t" and "idle p n q"
  shows "\<exists>p'. drainPosts ts p = (Inr (), p') \<and> idle p' n (q + of_nat (length ts)) \<and> tx (chan p') = tx (chan p) @ postFrames ts q \<and>
    available p' = available p"
  using assms
proof (induction ts arbitrary: p q)
  case (Cons t ts)
  obtain p1 where p1: "runPost t p = (Inr (), p1)" "sends p 1 (wireMsg (postMsg t q)) p1"
    using runPost_sends [of e t p n q] Cons.prems by auto
  have i1: "idle p1 n (q + 1)" "tx (chan p1) = tx (chan p) @ wireMsg (postMsg t q)" "available p1 = available p"
    using idle_sends [OF Cons.prems(2) p1(2)] sends_simps [OF p1(2)] by simp_all
  from Cons.IH [OF _ i1(1)] Cons.prems(1) p1(1) i1(2,3) show ?case
    by (auto simp: algebra_simps)
qed simp

definition prompt :: "ClusterConfig \<Rightarrow> int \<Rightarrow> tick \<Rightarrow> bool" where
  \<comment> \<open>a round that finds a frame before the deadline, and would not bring the deadline forward\<close>
  "prompt cfg deadline t \<longleftrightarrow> t_running t \<and> t_socket t \<and> t_poll t = PollReady \<and> t_now t \<le> deadline \<and>
     deadline \<le> t_renew t + heartbeat_timeout_ms cfg"

lemma receiveStep_post:
  assumes "idle p q n" and "available p = wireMsg (postMsg t q) @ rest" and "state_post e t" and "w_epoch w \<le> e" and "w_role w = STANDBY"
    and "prompt cfg D k" and "D \<le> dl"
  shows "\<exists>p' dl'. receiveStep cfg k (w, p, dl) = (None, applyPost t w, p', dl') \<and> idle p' (q + 1) n \<and> available p' = rest \<and> D \<le> dl'"
proof -
  obtain p' where r: "receiveAndParse p = (postMsg t q, p')" "available p' = rest" "idle p' (q + 1) n"
    using idle_receive [OF assms(1,2)] postMsg_wf [OF assms(3)] by blast
  have late: "\<not> t_now k > dl"
    using assms(6,7) by (simp add: prompt_def)
  show ?thesis
  proof (cases t)
    case (PostDelta op path v names e')
    with r assms(3-7) late show ?thesis
      by (auto simp: receiveStep_def prompt_def Let_def postMsg_def applyPost_def applyDelta_msg state_post_def idle_def)
  next
    case (PostHb e')
    have "getUint32 (hbMsg e' q) EPOCH 0 = e'" "opcode (hbMsg e' q) = LEADER_HB"
      by (simp_all add: hbMsg_def accessor_defs)
    with PostHb r assms(3-7) late show ?thesis
      by (auto simp: receiveStep_def prompt_def Let_def postMsg_def applyPost_def state_post_def idle_def)
  qed (use assms(3) in \<open>simp_all add: state_post_def\<close>)
qed

lemma applyPost_keeps:
  assumes "state_post e t" and "w_epoch w \<le> e"
  shows "w_epoch (applyPost t w) \<le> e" "w_role (applyPost t w) = w_role w"
  using assms by (auto simp: state_post_def applyPost_def split: posted.splits)

lemma receiveLoop_posts:
  assumes "\<forall>t\<in>set ts. state_post e t" and "idle p q n" and "available p = postFrames ts q" and "w_epoch w \<le> e" and "w_role w = STANDBY"
    and "\<forall>k\<in>set ks. prompt cfg D k" and "length ks = length ts" and "D \<le> dl"
  shows "\<exists>p' dl'. receiveLoop cfg ks (w, p, dl) = (None, fold applyPost ts w, p', dl')"
  using assms
proof (induction ts arbitrary: p q w ks dl)
  case (Cons t ts)
  obtain k ks' where ks: "ks = k # ks'" "length ks' = length ts"
    using Cons.prems(7) by (cases ks) auto
  have av: "available p = wireMsg (postMsg t q) @ postFrames ts (q + 1)"
    using Cons.prems(3) by simp
  obtain p1 dl1 where step: "receiveStep cfg k (w, p, dl) = (None, applyPost t w, p1, dl1)" "idle p1 (q + 1) n"
      "available p1 = postFrames ts (q + 1)" "D \<le> dl1"
    using receiveStep_post [OF Cons.prems(2) av, of e w cfg D k dl] Cons.prems ks(1) by auto
  have "\<exists>p' dl'. receiveLoop cfg ks' (applyPost t w, p1, dl1) = (None, fold applyPost ts (applyPost t w), p', dl')"
    using Cons.prems ks step(2-4) applyPost_keeps [of e t w] by (intro Cons.IH) auto
  with step(1) ks(1) show ?case
    by simp
qed simp


section \<open>The snapshot\<close>

definition snapMsg :: "(string, int) omap \<Rightarrow> (string, string oset) omap \<Rightarrow> u32 \<Rightarrow> u32 \<Rightarrow> Message" where
  "snapMsg vm rm e q =
     \<lparr>opcode = STATE_SNAP, flags = 0, seq = q, payloadLen = 0,
      mfields = fieldUint32 EPOCH e # map (\<lambda>x. fieldString SNAP_ENTRY (snapEntry rm x)) vm\<rparr>"

definition holderNames :: "(string, string oset) omap \<Rightarrow> string \<Rightarrow> string oset" where
  "holderNames rm path = (case om_find rm path of None \<Rightarrow> [] | Some dns \<Rightarrow> dns)"

definition printable :: "(string, int) omap \<Rightarrow> (string, string oset) omap \<Rightarrow> bool" where
  \<comment> \<open>names without blanks and commas, and holders in order\<close>
  "printable vm rm \<longleftrightarrow> om_ok vm \<and>
     (\<forall>e\<in>set vm. plain_name (fst e) \<and> int_range (snd e) \<and> os_ok (holderNames rm (fst e)) \<and> (\<forall>d\<in>set (holderNames rm (fst e)). plain_datanode d))"

lemma parse_snapEntry:
  assumes "plain_name path" and "int_range v" and "os_ok (holderNames rm path)" and "\<forall>d\<in>set (holderNames rm path). plain_datanode d"
  shows "parseSnapEntry (snapEntry rm (path, v)) = Some (path, v, holderNames rm path)"
proof -
  have "snapEntry rm (path, v) = snapEntry [(path, holderNames rm path)] (path, v)"
    by (simp add: snapEntry_def holderNames_def om_find_def split: option.split)
  moreover have "om_find [(path, holderNames rm path)] path = Some (holderNames rm path)"
    by (simp add: om_find_def)
  ultimately show ?thesis
    using parseSnapEntry_snapEntry [OF assms(1,2) _ assms(3,4), of "[(path, holderNames rm path)]"] by simp
qed

lemma snapEntries_msg:
  assumes "printable vm rm"
  shows "snapEntries (snapMsg vm rm e q) = map (\<lambda>(path, v). (path, v, holderNames rm path)) vm"
proof -
  have "List.map_filter (\<lambda>f. if fid f \<noteq> SNAP_ENTRY then None else parseSnapEntry (string_of_bytes (fvalue f)))
      (map (\<lambda>x. fieldString SNAP_ENTRY (snapEntry rm x)) xs) = map (\<lambda>(path, v). (path, v, holderNames rm path)) xs" if "set xs \<subseteq> set vm" for xs
    using that
  proof (induction xs)
    case (Cons x xs)
    then have "parseSnapEntry (snapEntry rm x) = Some (fst x, snd x, holderNames rm (fst x))"
      using assms parse_snapEntry [of "fst x" "snd x" rm] by (auto simp: printable_def)
    with Cons show ?case
      by (simp add: List.map_filter_simps fieldString_def case_prod_beta)
  qed (simp add: List.map_filter_simps)
  then show ?thesis
    by (simp add: snapEntries_def snapMsg_def List.map_filter_simps fieldUint32_def)
qed

lemma fold_put_all: "om_ok m \<Longrightarrow> fold (\<lambda>(k, v). om_put k v) m [] = m"
  using put_all_onto_part [of "[]" m] by (simp add: om_ok_def)

lemma applySnap_msg:
  assumes "printable vm rm"
  shows "w_versions (applySnap (snapMsg vm rm e q) w) = vm"
    and "om_ok (w_replicas (applySnap (snapMsg vm rm e q) w))"
    and "om_has vm path \<Longrightarrow> om_find (w_replicas (applySnap (snapMsg vm rm e q) w)) path = Some (holderNames rm path)"
proof -
  let ?reps = "map (\<lambda>(path, v). (path, holderNames rm path)) vm"
  have ok: "om_ok vm" "om_ok ?reps"
    using assms by (simp_all add: printable_def om_ok_def comp_def case_prod_beta)
  have "fold (\<lambda>(path, ver, dns). om_put path ver) (snapEntries (snapMsg vm rm e q)) [] = fold (\<lambda>(k, v). om_put k v) vm []"
    "fold (\<lambda>(path, ver, dns). om_put path dns) (snapEntries (snapMsg vm rm e q)) [] = fold (\<lambda>(k, v). om_put k v) ?reps []"
    by (simp_all add: snapEntries_msg [OF assms] fold_map comp_def case_prod_unfold)
  then show "w_versions (applySnap (snapMsg vm rm e q) w) = vm" and reps: "om_ok (w_replicas (applySnap (snapMsg vm rm e q) w))"
    using ok by (simp_all add: applySnap_def fold_put_all)
  have w: "w_replicas (applySnap (snapMsg vm rm e q) w) = ?reps"
    using ok \<open>fold (\<lambda>(path, ver, dns). om_put path dns) _ [] = _\<close> by (simp add: applySnap_def fold_put_all)
  have "om_find ?reps path = map_option (\<lambda>_. holderNames rm path) (om_find vm path)"
    by (induction vm) (auto simp: om_find_def)
  then show "om_find (w_replicas (applySnap (snapMsg vm rm e q) w)) path = Some (holderNames rm path)" if "om_has vm path"
    using that by (auto simp: w om_has_def)
qed

lemma collectVersions_sessions: "\<exists>st. snd (collectVersions is m s) = s\<lparr>sv_sessions := st\<rparr>"
proof (induction "is" m s rule: collectVersions.induct)
  case (1 m s)
  show ?case
    by (intro exI [of _ "sv_sessions s"]) simp
next
  case (2 i "is" m s)
  show ?case
  proof (cases "node_isAlive (sv_sessions s i)")
    case True
    obtain r nd where r: "node_syncStatus (sv_sessions s i) = (r, nd)"
      by fastforce
    have call: "sessionCall i node_syncStatus s = (r, s\<lparr>sv_sessions := (sv_sessions s)(i := nd)\<rparr>)"
      by (simp add: sessionCall_def r)
    show ?thesis
    proof (cases r)
      case (Returned mex)
      from "2.IH"(2) [of mex "s\<lparr>sv_sessions := (sv_sessions s)(i := nd)\<rparr>"] True call Returned show ?thesis
        by auto
    qed (use True call in auto)
  qed (use 2 in simp)
qed

lemma holderNames_persistable: "holderNames (buildPersistableRepMap s) path = om_keys (om_get (sv_replicas s) path)"
proof -
  have "om_find (map (\<lambda>(path, holders). (path, om_keys holders)) m) path = map_option om_keys (om_find m path)"
    for m :: "(string, (string, nat) omap) omap"
    by (induction m) (auto simp: om_find_def)
  then show ?thesis
    by (simp add: holderNames_def buildPersistableRepMap_def om_get_def om_keys_def split: option.split)
qed

lemma snap_sends:
  assumes "idle p n q" and "length vm \<le> 254" and "\<forall>x\<in>set vm. length (snapEntry rm x) \<le> 65535"
  shows "\<exists>p'. sendStateSnap p vm rm e = (Inr (), p') \<and> sends p 1 (wireMsg (snapMsg vm rm e q)) p'"
  using sendBuilt_sends [of p "fieldUint32 EPOCH e # map (\<lambda>x. fieldString SNAP_ENTRY (snapEntry rm x)) vm" STATE_SNAP 0] assms
  by (auto simp: sendStateSnap_def stateSnapFormat_def snapMsg_def idle_def)

lemma snapMsg_simps:
  "opcode (snapMsg vm rm e q) = STATE_SNAP" "getUint32 (snapMsg vm rm e q) EPOCH x = e" "seq (snapMsg vm rm e q) = q"
  "length vm \<le> 254 \<Longrightarrow> \<forall>x\<in>set vm. length (snapEntry rm x) \<le> 65535 \<Longrightarrow> wf_msg (snapMsg vm rm e q)"
  by (auto simp: snapMsg_def accessor_defs wf_msg_def)

lemma snd_om_put: "snd ` set (om_put k v m) \<subseteq> insert v (snd ` set m)" "v \<in> snd ` set (om_put k v m)"
  by (induction m) auto

lemma distinct_om_put: "distinct (map snd m) \<Longrightarrow> v \<notin> snd ` set m \<Longrightarrow> distinct (map snd (om_put k v m))"
proof (induction m)
  case (Cons e m)
  then have "snd e \<notin> snd ` set (om_put k v m)"
    using snd_om_put(1) [of k v m] by auto
  with Cons show ?case
    by auto
qed simp


section \<open>The theorems at work\<close>

abbreviation demoPrompt :: tick where
  "demoPrompt \<equiv> \<lparr>t_running = True, t_socket = True, t_poll = PollReady, t_now = 0, t_renew = 0\<rparr>"

abbreviation demoStandby :: watcher where
  "demoStandby \<equiv> (newWatcher ''sb'' (newFileManager ''/sb''))\<lparr>w_versions := [(''a'', 1)], w_replicas := [(''a'', [''dn1'', ''dn2''])]\<rparr>"

abbreviation demoPrimary :: server where
  "demoPrimary \<equiv> demoBusy\<lparr>sv_standbys := Some [(''sb'', 3)]\<rparr>"

lemma demoPrimary_tracks: "steady {''a''} demoPrimary" "is_standby 3 demoPrimary" "tracks 3 demoStandby demoPrimary"
proof -
  show "steady {''a''} demoPrimary"
    using demoBusy_steady by (simp add: steady_def server_ok_def pooled_ok_def locks_ok_def)
  show "is_standby 3 demoPrimary"
    by (simp add: is_standby_def peer_isAlive_def startPeer_def newProto_def)
  show "tracks 3 demoStandby demoPrimary"
    by (simp add: tracks_def mirrors_def startPeer_def demoServer_def om_ok_def om_keys_def om_get_def om_find_def om_has_def)
qed

theorem standby_tracks_witness:
  "tracks 3 demoStandby (snd (propagateUpdateFile ''a'' 0 ''c'' [1, 2, 3] demoPrimary))"
proof -
  have "int_range (nextVersion ''a'' 0 demoPrimary)" "length [1, 2, 3] \<le> unat FILETRANSFER_MAX_SIZE"
    using demo_content(1) by (simp_all add: nextVersion_def demoServer_def om_find_def int_range_def)
  then have "(primary_write {''a''})\<^sup>*\<^sup>* demoPrimary (snd (propagateUpdateFile ''a'' 0 ''c'' [1, 2, 3] demoPrimary))"
    by (intro r_into_rtranclp primary_write.update)
  from standby_tracks [OF this demoPrimary_tracks] show ?thesis
    by blast
qed

abbreviation demoPosting :: server where
  "demoPosting \<equiv> (newServer 2 0 (newFileManager ''/srv''))\<lparr>sv_versions := [(''a'', 2)], sv_replicas := [(''a'', [(''dn1'', 0), (''dn2'', 1)])],
     sv_peers := (\<lambda>_. (startPeer ''STANDBY'' ''sb'' freshChannel)\<lparr>p_posts := [PostDelta 0 ''a'' 2 [''dn1'', ''dn2''] 0]\<rparr>)\<rparr>"

lemma demoPosting_tracks: "tracks 3 demoStandby demoPosting"
  by (simp add: tracks_def mirrors_def applyPost_def applyDelta_msg raiseEpoch_def om_ok_def om_keys_def om_get_def om_find_def om_has_def os_of_list_def
      newWatcher_def int_range_def)

lemma demoStandby_simps: "w_role demoStandby = STANDBY" "w_epoch demoStandby = 0" "prompt defaultConfig 0 demoPrompt"
proof -
  have "loadEpoch (newFileManager ''/sb'') = 0"
    by code_simp
  then show "w_role demoStandby = STANDBY" "w_epoch demoStandby = 0" "prompt defaultConfig 0 demoPrompt"
    by (simp_all add: newWatcher_def prompt_def defaultConfig_def)
qed

lemma fresh_standby: "idle (newProto freshChannel ''STANDBY'' ''sb'') 0 0" "at_rest (newProto freshChannel ''SERVER'' ''sb'') 0 0"
  using fresh_rest [of "''STANDBY''" "''sb''"] fresh_rest [of "''SERVER''" "''sb''"] by (simp_all add: at_rest_def)


abbreviation demoJoined :: server where
  "demoJoined \<equiv> (newServer 2 0 (newFileManager ''/srv''))\<lparr>sv_versions := [(''a'', 2)], sv_replicas := [(''a'', [(''dn1'', 0), (''dn2'', 1)])],
     sv_peers := (\<lambda>_. startPeer ''STANDBY'' ''sb'' freshChannel), sv_standbys := Some []\<rparr>"


end
