(* ===== verification/Failover.thy ===== *)
theory Failover
  imports Standby_Mirror
begin

text \<open>
  The program of a server, \<open>server/src/main.cpp\<close>, and what a failover does to the data: a standby that
  is promoted starts a new server over its own disk, and the data nodes connect to it and report their
  files. The theorems state which part of the state of the old primary the new one has.
\<close>

section \<open>The program of a server\<close>

definition atoi :: "string \<Rightarrow> int" where
  \<comment> \<open>the C library: a long with saturation, converted to an \<open>int\<close>; 0 without digits\<close>
  "atoi s =
     (let (neg, s') = read_sign (skip_ws s);
          n = int (digits_val (takeWhile is_digit s'));
          v = max (- (2 ^ 63)) (min (2 ^ 63 - 1) (if neg then - n else n))
      in (v + 2 ^ 31) mod 2 ^ 32 - 2 ^ 31)"

definition DEFAULT_PORT :: int where
  "DEFAULT_PORT = 12345"

definition DEFAULT_REPLICATION_FACTOR :: int where
  "DEFAULT_REPLICATION_FACTOR = 2"

datatype serverStart =
    RunServer int server                       \<comment> \<open>the port and the server that is run\<close>
  | RunWatcher int int ClusterConfig watcher   \<comment> \<open>a standby, with the port and replication factor of a later server\<close>
  | ExitCode int

definition serverMain :: "string list \<Rightarrow> disk \<Rightarrow> serverStart" where
  \<comment> \<open>the arguments with the name of the program first\<close>
  "serverMain argv d =
     (let argc = length argv;
          port = (if argc > 1 then atoi (argv ! 1) else DEFAULT_PORT);
          replicationFactor = (if argc > 2 then atoi (argv ! 2) else DEFAULT_REPLICATION_FACTOR);
          configPath = (if argc > 3 then argv ! 3 else '''');
          myName = (if argc > 4 then argv ! 4 else '''')
      in if configPath = '''' \<or> myName = ''''
         then RunServer port (newServer replicationFactor 0 (createFileVersionFile d))
         else case fromFile d configPath of
                Inl e \<Rightarrow> ExitCode 1
              | Inr config \<Rightarrow>
                  (let d1 = createFileVersionFile d
                   in if isPrimary config myName
                      then RunServer port (newServer (replication_factor config) (loadEpoch d1) d1)
                      else RunWatcher port (replication_factor config) config (newWatcher myName d1)))"

definition onPromote :: "int \<Rightarrow> int \<Rightarrow> u32 \<Rightarrow> disk \<Rightarrow> serverStart" where
  \<comment> \<open>the callback of the watcher; it gets the new epoch and nothing else\<close>
  "onPromote port replicationFactor newEpoch d = RunServer port (newServer replicationFactor newEpoch (createFileVersionFile d))"

section \<open>Data nodes connect again\<close>

record joining =
  j_id :: nat
  j_name :: string
  j_disk :: disk

fun joinAll :: "int \<Rightarrow> joining list \<Rightarrow> server \<Rightarrow> unit outcome \<times> server" where
  \<comment> \<open>the data nodes are accepted one after the other, over connections that are not cut\<close>
  "joinAll now [] s = (Returned (), s)"
| "joinAll now (j # js) s =
     bindO (acceptNode now (j_id j) (j_name j) \<lparr>a_channel = freshChannel, a_disk = j_disk j, a_cuts = []\<rparr> s) (\<lambda>_. joinAll now js)"

definition bestVersion :: "string \<Rightarrow> server \<Rightarrow> int" where
  "bestVersion path s = (case om_find (sv_versions s) path of Some v \<Rightarrow> v | None \<Rightarrow> 0)"

subsection \<open>Registering the files of a data node\<close>

lemma registerFile_path:
  "om_find (sv_versions (registerFile name i e s)) path =
     (if fst e = path \<and> snd e > bestVersion path s then Some (snd e) else om_find (sv_versions s) path)"
  "om_get (sv_replicas (registerFile name i e s)) path =
     (if fst e = path then om_put name i (om_get (sv_replicas s) path) else om_get (sv_replicas s) path)"
  by (auto simp: registerFile_def addHolder_def bestVersion_def Let_def om_get_def split: prod.splits)

lemma register_other:
  "path \<notin> fst ` set m \<Longrightarrow>
   om_find (sv_versions (fold (registerFile name i) m s)) path = om_find (sv_versions s) path \<and>
   om_get (sv_replicas (fold (registerFile name i) m s)) path = om_get (sv_replicas s) path"
  by (induction m arbitrary: s) (auto simp: registerFile_path)

lemma register_path:
  assumes "om_ok m"
  shows "om_find (sv_versions (fold (registerFile name i) m s)) path =
      (case om_find m path of Some v \<Rightarrow> if v > bestVersion path s then Some v else om_find (sv_versions s) path
       | None \<Rightarrow> om_find (sv_versions s) path)"
    "om_get (sv_replicas (fold (registerFile name i) m s)) path =
      (if om_has m path then om_put name i (om_get (sv_replicas s) path) else om_get (sv_replicas s) path)"
proof -
  have "om_find (sv_versions (fold (registerFile name i) m s)) path =
      (case om_find m path of Some v \<Rightarrow> if v > bestVersion path s then Some v else om_find (sv_versions s) path
       | None \<Rightarrow> om_find (sv_versions s) path) \<and>
    om_get (sv_replicas (fold (registerFile name i) m s)) path =
      (if om_has m path then om_put name i (om_get (sv_replicas s) path) else om_get (sv_replicas s) path)"
    using assms
  proof (induction m arbitrary: s)
    case Nil
    then show ?case
      by (simp add: om_has_def)
  next
    case (Cons e m)
    have ok: "om_ok m" "fst e \<notin> fst ` set m"
      using Cons.prems by (auto simp: om_ok_def)
    show ?case
    proof (cases "fst e = path")
      case True
      with ok(2) register_other [of path m name i "registerFile name i e s"] show ?thesis
        by (simp add: registerFile_path om_has_def om_find_Cons)
    next
      case False
      then have "bestVersion path (registerFile name i e s) = bestVersion path s"
        by (simp add: bestVersion_def registerFile_path)
      with False Cons.IH [OF ok(1), of "registerFile name i e s"] show ?thesis
        by (simp add: registerFile_path om_has_def om_find_Cons split: option.split)
    qed
  qed
  then show "om_find (sv_versions (fold (registerFile name i) m s)) path =
      (case om_find m path of Some v \<Rightarrow> if v > bestVersion path s then Some v else om_find (sv_versions s) path
       | None \<Rightarrow> om_find (sv_versions s) path)"
    "om_get (sv_replicas (fold (registerFile name i) m s)) path =
      (if om_has m path then om_put name i (om_get (sv_replicas s) path) else om_get (sv_replicas s) path)"
    by simp_all
qed

subsection \<open>Accepting a data node\<close>

definition quiet :: "server \<Rightarrow> server \<Rightarrow> bool" where
  \<comment> \<open>the data nodes were only asked for their files\<close>
  "quiet s s' \<longleftrightarrow> sv_versions s' = sv_versions s \<and> sv_replicas s' = sv_replicas s \<and> sv_nodes s' = sv_nodes s \<and> sv_pool s' = sv_pool s \<and>
     (\<forall>i. node_disk (sv_sessions s' i) = node_disk (sv_sessions s i) \<and> (healthy (sv_sessions s i) \<longrightarrow> healthy (sv_sessions s' i)))"

lemma quiet_refl: "quiet s s"
  by (simp add: quiet_def)

lemma quiet_trans: "quiet s s' \<Longrightarrow> quiet s' s'' \<Longrightarrow> quiet s s''"
  by (simp add: quiet_def)

definition listed :: "server \<Rightarrow> nat \<Rightarrow> bool" where
  \<comment> \<open>a session that is in order, of a data node whose listing fits into a frame\<close>
  "listed s i \<longleftrightarrow> healthy (sv_sessions s i) \<and> listing_fits (node_disk (sv_sessions s i))"

lemma quiet_listed: "quiet s s' \<Longrightarrow> listed s i \<Longrightarrow> listed s' i"
  by (simp add: quiet_def listed_def)

lemma sync_quiet:
  assumes "listed s i"
  shows "\<exists>m s'. sessionCall i node_syncStatus s = (Returned m, s') \<and> isResponse m \<and>
    getFileVersionMap m = getFileVersionMapDisk (node_disk (sv_sessions s i)) \<and> quiet s s'"
proof -
  have "node_ok (sv_sessions s i)" "n_run (sv_sessions s i)"
    using assms by (simp_all add: listed_def healthy_def in_step_def)
  from node_syncStatus_law [OF this] obtain m nd where "node_syncStatus (sv_sessions s i) = (Returned m, nd)" "isResponse m"
      "getFileVersionMap m = getFileVersionMapDisk (node_disk (sv_sessions s i))" "node_disk nd = node_disk (sv_sessions s i)" "healthy nd"
    using assms by (auto simp: listed_def)
  then show ?thesis
    by (auto simp: sessionCall_def quiet_def)
qed

lemma quiet_registerLocks: "quiet s (fold (registerLock now) m s)"
proof (induction m arbitrary: s)
  case (Cons e m)
  have "quiet s (registerLock now e s)"
    by (auto simp: registerLock_def quiet_def Let_def split: prod.split)
  from quiet_trans [OF this Cons.IH] show ?case
    by simp
qed (simp add: quiet_refl)

lemma lockRounds_quiet:
  assumes "\<forall>i\<in>set is. listed s i"
  shows "\<exists>s'. lockRounds now is s = (Returned (), s') \<and> quiet s s'"
  using assms
proof (induction "is" arbitrary: s)
  case Nil
  then show ?case
    by (simp add: quiet_refl)
next
  case (Cons i "is")
  then have "node_isAlive (sv_sessions s i)"
    by (simp add: listed_def healthy_isAlive)
  moreover obtain m s1 where m: "sessionCall i node_syncStatus s = (Returned m, s1)" "isResponse m" "quiet s s1"
    using sync_quiet [of s i] Cons.prems by auto
  let ?s2 = "fold (registerLock now) (getFileVersionMap m) s1"
  have q: "quiet s ?s2"
    using quiet_trans [OF m(3) quiet_registerLocks] .
  moreover obtain s' where "lockRounds now is ?s2 = (Returned (), s')" "quiet ?s2 s'"
    using Cons.IH [of ?s2] Cons.prems quiet_listed [OF q] by auto
  ultimately show ?case
    using m quiet_trans [OF q] by simp
qed

lemma fold_registerFile_frame:
  "sv_sessions (fold (registerFile name i) m s) = sv_sessions s" "sv_nodes (fold (registerFile name i) m s) = sv_nodes s"
  "sv_pool (fold (registerFile name i) m s) = sv_pool s"
  by (induction m arbitrary: s) (simp_all add: registerFile_def addHolder_def Let_def split: prod.split)

lemma register_cong:
  "sv_versions s = sv_versions s' \<Longrightarrow> sv_replicas s = sv_replicas s' \<Longrightarrow>
   sv_versions (fold (registerFile name i) m s) = sv_versions (fold (registerFile name i) m s') \<and>
   sv_replicas (fold (registerFile name i) m s) = sv_replicas (fold (registerFile name i) m s')"
proof (induction m arbitrary: s s')
  case (Cons e m)
  have "sv_versions (registerFile name i e s) = sv_versions (registerFile name i e s')"
      "sv_replicas (registerFile name i e s) = sv_replicas (registerFile name i e s')"
    using Cons.prems by (simp_all add: registerFile_def addHolder_def Let_def split: prod.split)
  from Cons.IH [OF this] show ?case
    by simp
qed simp

lemma acceptNode_joins:
  assumes "storage_ok d" and "small_files d" and "listing_fits d" and "\<forall>e\<in>set (sv_nodes s). listed s (snd e)" and "i \<notin> snd ` set (sv_nodes s)"
  shows "\<exists>s'. acceptNode now i name \<lparr>a_channel = freshChannel, a_disk = d, a_cuts = []\<rparr> s = (Returned (), s') \<and>
    sv_nodes s' = om_put name i (sv_nodes s) \<and> sv_pool s' = sv_pool s \<and> listed s' i \<and> node_disk (sv_sessions s' i) = d \<and>
    (\<forall>j. j \<noteq> i \<longrightarrow> node_disk (sv_sessions s' j) = node_disk (sv_sessions s j) \<and> (listed s j \<longrightarrow> listed s' j)) \<and>
    sv_versions s' = sv_versions (fold (registerFile name i) (getFileVersionMapDisk d) s) \<and>
    sv_replicas s' = sv_replicas (fold (registerFile name i) (getFileVersionMapDisk d) s)"
proof -
  let ?m = "getFileVersionMapDisk d" and ?nd = "(newNode name d)\<lparr>n_cuts := []\<rparr>"
  define s1 where "s1 = s\<lparr>sv_sessions := (sv_sessions s)(i := ?nd), sv_nodes := om_put name i (sv_nodes s)\<rparr>"
  have "?nd = newNode name d"
    by (simp add: newNode_def)
  then have i1: "listed s1 i" "node_disk (sv_sessions s1 i) = d"
    using newNode_healthy [OF assms(1,2)] assms(3) by (simp_all add: listed_def s1_def)
  have o1: "listed s1 j = listed s j" "sv_sessions s1 j = sv_sessions s j" if "j \<noteq> i" for j
    using that by (simp_all add: listed_def s1_def)
  obtain m s2 where m: "sessionCall i node_syncStatus s1 = (Returned m, s2)" "isResponse m" "getFileVersionMap m = ?m" "quiet s1 s2"
    using sync_quiet [OF i1(1)] i1(2) by auto
  define s3 where "s3 = registerDataNodeFiles name i ?m s2"
  have s3: "sv_sessions s3 = sv_sessions s2" "sv_nodes s3 = sv_nodes s2" "sv_pool s3 = sv_pool s2"
    "sv_versions s3 = sv_versions (fold (registerFile name i) ?m s2)" "sv_replicas s3 = sv_replicas (fold (registerFile name i) ?m s2)"
    by (simp_all add: s3_def registerDataNodeFiles_def fold_registerFile_frame)
  have l3: "listed s3 j = listed s2 j" for j
    by (simp add: listed_def s3)
  have "listed s3 j" if "j \<in> set (map snd (sv_nodes s3))" for j
  proof -
    have "j \<in> insert i (snd ` set (sv_nodes s))"
      using that m(4) snd_om_put(1) [of name i "sv_nodes s"] by (auto simp: s3 quiet_def s1_def)
    then have "listed s1 j"
      using i1(1) o1(1) [of j] assms(4) by (cases "j = i") auto
    with quiet_listed [OF m(4)] show ?thesis
      by (simp add: l3)
  qed
  then obtain s' where s': "buildFileLockMap now s3 = (Returned (), s')" "quiet s3 s'"
    using lockRounds_quiet [of "map snd (sv_nodes s3)" s3 "now"] by (auto simp: buildFileLockMap_def)
  have run: "acceptNode now i name \<lparr>a_channel = freshChannel, a_disk = d, a_cuts = []\<rparr> s = (Returned (), s')"
    using m(1-3) s'(1) by (simp add: acceptNode_def Let_def s1_def [symmetric] s3_def [symmetric])
  have keep: "listed s' j" if "listed s1 j" for j
    using that quiet_listed [OF m(4)] quiet_listed [OF s'(2)] by (simp add: l3)
  have disk: "node_disk (sv_sessions s' j) = node_disk (sv_sessions s1 j)" for j
    using m(4) s'(2) by (simp add: quiet_def s3)
  have maps: "sv_versions s' = sv_versions (fold (registerFile name i) ?m s)" "sv_replicas s' = sv_replicas (fold (registerFile name i) ?m s)"
    using m(4) s'(2) register_cong [of s2 s name i ?m] by (simp_all add: quiet_def s3 s1_def)
  have rest: "sv_nodes s' = om_put name i (sv_nodes s)" "sv_pool s' = sv_pool s"
    using m(4) s'(2) by (simp_all add: quiet_def s3 s1_def)
  have others: "node_disk (sv_sessions s' j) = node_disk (sv_sessions s j) \<and> (listed s j \<longrightarrow> listed s' j)" if "j \<noteq> i" for j
    using disk [of j] keep [of j] o1 [OF that] by simp
  show ?thesis
    using run keep [OF i1(1)] disk [of i] i1(2) maps rest others by (intro exI [of _ s'] conjI) simp_all
qed

subsection \<open>Accepting all of them\<close>

definition uses_ids :: "nat set \<Rightarrow> server \<Rightarrow> bool" where
  \<comment> \<open>the sessions the server refers to\<close>
  "uses_ids U s \<longleftrightarrow> snd ` set (sv_nodes s) \<subseteq> U \<and> (\<forall>h\<in>snd ` set (sv_replicas s). snd ` set h \<subseteq> U) \<and> sv_pool s = []"

lemma uses_fresh: "uses_ids U s \<Longrightarrow> i \<notin> U \<Longrightarrow> fresh i s"
  by (fastforce simp: uses_ids_def fresh_def)

lemma uses_registerFile:
  assumes "\<forall>h\<in>snd ` set (sv_replicas s). snd ` set h \<subseteq> U" and "i \<in> U"
  shows "\<forall>h\<in>snd ` set (sv_replicas (registerFile name i e s)). snd ` set h \<subseteq> U"
proof -
  let ?h = "om_get (sv_replicas s) (fst e)"
  have "snd ` set ?h \<subseteq> U"
  proof (cases "om_find (sv_replicas s) (fst e)")
    case (Some h)
    then have "h \<in> snd ` set (sv_replicas s)"
      by (force simp: om_find_def dest: map_of_SomeD)
    with assms(1) have "snd ` set h \<subseteq> U" ..
    with Some show ?thesis
      by (simp add: om_get_def)
  qed (simp add: om_get_def)
  then have "snd ` set (om_put name i ?h) \<subseteq> U"
    using snd_om_put(1) [of name i ?h] assms(2) by blast
  moreover have "sv_replicas (registerFile name i e s) = om_put (fst e) (om_put name i ?h) (sv_replicas s)"
    by (simp add: registerFile_def addHolder_def Let_def split: prod.split)
  ultimately have "\<forall>h\<in>insert (om_put name i ?h) (snd ` set (sv_replicas s)). snd ` set h \<subseteq> U"
    and "snd ` set (sv_replicas (registerFile name i e s)) \<subseteq> insert (om_put name i ?h) (snd ` set (sv_replicas s))"
    using assms(1) snd_om_put(1) [of "fst e" "om_put name i ?h" "sv_replicas s"] by (simp_all only: ball_simps simp_thms)
  then show ?thesis
    by blast
qed

lemma uses_register:
  assumes "\<forall>h\<in>snd ` set (sv_replicas s). snd ` set h \<subseteq> U" and "i \<in> U"
  shows "\<forall>h\<in>snd ` set (sv_replicas (fold (registerFile name i) m s)). snd ` set h \<subseteq> U"
  using assms
proof (induction m arbitrary: s)
  case (Cons e m)
  from Cons.IH [OF uses_registerFile [OF Cons.prems] Cons.prems(2)] show ?case
    by simp
qed simp

definition reported :: "string \<Rightarrow> joining \<Rightarrow> int option" where
  "reported path j = om_find (getFileVersionMapDisk (j_disk j)) path"

definition bestOf :: "string \<Rightarrow> joining list \<Rightarrow> int \<Rightarrow> int" where
  "bestOf path js b = fold (\<lambda>j b. case reported path j of None \<Rightarrow> b | Some v \<Rightarrow> max b v) js b"

definition holdersOf :: "string \<Rightarrow> joining list \<Rightarrow> (string, nat) omap \<Rightarrow> (string, nat) omap" where
  "holdersOf path js h = fold (\<lambda>j h. if reported path j = None then h else om_put (j_name j) (j_id j) h) js h"

definition joinable :: "string set \<Rightarrow> joining \<Rightarrow> bool" where
  "joinable N j \<longleftrightarrow> admissible N (j_disk j) \<and> listing_fits (j_disk j)"

lemma acceptNode_path:
  assumes "steady N s" and "uses_ids U s" and "\<forall>e\<in>set (sv_nodes s). listed s (snd e)" and "joinable N j" and "j_id j \<notin> U"
  shows "\<exists>s'. acceptNode now (j_id j) (j_name j) \<lparr>a_channel = freshChannel, a_disk = j_disk j, a_cuts = []\<rparr> s = (Returned (), s') \<and>
    steady N s' \<and> uses_ids (insert (j_id j) U) s' \<and> (\<forall>e\<in>set (sv_nodes s'). listed s' (snd e)) \<and>
    listed s' (j_id j) \<and> node_disk (sv_sessions s' (j_id j)) = j_disk j \<and>
    (\<forall>i. i \<noteq> j_id j \<longrightarrow> node_disk (sv_sessions s' i) = node_disk (sv_sessions s i) \<and> (listed s i \<longrightarrow> listed s' i)) \<and>
    bestVersion path s' = bestOf path [j] (bestVersion path s) \<and>
    om_get (sv_replicas s') path = holdersOf path [j] (om_get (sv_replicas s) path)"
proof -
  let ?i = "j_id j" and ?m = "getFileVersionMapDisk (j_disk j)"
  let ?a = "\<lparr>a_channel = freshChannel, a_disk = j_disk j, a_cuts = []\<rparr>"
  have d: "storage_ok (j_disk j)" "small_files (j_disk j)" "listing_fits (j_disk j)" "admissible N (a_disk ?a)"
    using assms(4) by (simp_all add: joinable_def admissible_def)
  have out: "?i \<notin> snd ` set (sv_nodes s)"
    using assms(2,5) by (auto simp: uses_ids_def)
  obtain s' where s': "acceptNode now ?i (j_name j) ?a s = (Returned (), s')"
    "sv_nodes s' = om_put (j_name j) ?i (sv_nodes s)" "sv_pool s' = sv_pool s" "listed s' ?i" "node_disk (sv_sessions s' ?i) = j_disk j"
    and others: "\<forall>k. k \<noteq> ?i \<longrightarrow> node_disk (sv_sessions s' k) = node_disk (sv_sessions s k) \<and> (listed s k \<longrightarrow> listed s' k)"
    and maps: "sv_versions s' = sv_versions (fold (registerFile (j_name j) ?i) ?m s)"
      "sv_replicas s' = sv_replicas (fold (registerFile (j_name j) ?i) ?m s)"
    using acceptNode_joins [OF d(1-3) assms(3) out, of "now" "j_name j"] by blast
  have "steady N s'"
    using steady_acceptNode [OF assms(1) uses_fresh [OF assms(2,5)] d(4), of "now" "j_name j"] s'(1) by simp
  moreover have "uses_ids (insert ?i U) s'"
  proof -
    have "\<forall>h\<in>snd ` set (sv_replicas s). snd ` set h \<subseteq> insert ?i U"
      using assms(2) unfolding uses_ids_def by blast
    from uses_register [OF this insertI1, of "j_name j" ?m] have "\<forall>h\<in>snd ` set (sv_replicas s'). snd ` set h \<subseteq> insert ?i U"
      by (simp only: maps)
    moreover have "snd ` set (sv_nodes s') \<subseteq> insert ?i U" "sv_pool s' = []"
      using assms(2) s'(2,3) snd_om_put(1) [of "j_name j" ?i "sv_nodes s"] unfolding uses_ids_def by auto
    ultimately show ?thesis
      unfolding uses_ids_def by blast
  qed
  moreover have "listed s' (snd e)" if "e \<in> set (sv_nodes s')" for e
  proof (cases "snd e = ?i")
    case False
    with that s'(2) snd_om_put(1) [of "j_name j" ?i "sv_nodes s"] have "snd e \<in> snd ` set (sv_nodes s)"
      by auto
    with assms(3) others False show ?thesis
      by auto
  qed (use s'(4) in simp)
  moreover have "bestVersion path s' = bestOf path [j] (bestVersion path s)"
    using register_path(1) [OF om_ok_getFileVersionMapDisk, of "j_name j" ?i "j_disk j" s path]
    by (auto simp: bestOf_def reported_def bestVersion_def maps max_def split: option.splits)
  moreover have "om_get (sv_replicas s') path = holdersOf path [j] (om_get (sv_replicas s) path)"
    using register_path(2) [OF om_ok_getFileVersionMapDisk, of "j_name j" ?i "j_disk j" s path]
    by (simp add: holdersOf_def reported_def maps om_has_def)
  ultimately show ?thesis
    using s' others by (intro exI [of _ s'] conjI) simp_all
qed

lemma joinAll_path:
  assumes "steady N s" and "uses_ids U s" and "\<forall>e\<in>set (sv_nodes s). listed s (snd e)" and "\<forall>j\<in>set js. joinable N j"
    and "distinct (map j_id js)" and "\<forall>j\<in>set js. j_id j \<notin> U"
  shows "\<exists>s'. joinAll now js s = (Returned (), s') \<and> steady N s' \<and>
    (\<forall>j\<in>set js. listed s' (j_id j) \<and> node_disk (sv_sessions s' (j_id j)) = j_disk j) \<and>
    (\<forall>i. i \<notin> j_id ` set js \<longrightarrow> node_disk (sv_sessions s' i) = node_disk (sv_sessions s i) \<and> (listed s i \<longrightarrow> listed s' i)) \<and>
    bestVersion path s' = bestOf path js (bestVersion path s) \<and>
    om_get (sv_replicas s') path = holdersOf path js (om_get (sv_replicas s) path)"
  using assms
proof (induction js arbitrary: s U)
  case Nil
  then show ?case
    by (simp add: bestOf_def holdersOf_def)
next
  case (Cons j js)
  let ?U = "insert (j_id j) U"
  obtain s1 where s1: "acceptNode now (j_id j) (j_name j) \<lparr>a_channel = freshChannel, a_disk = j_disk j, a_cuts = []\<rparr> s = (Returned (), s1)"
    "steady N s1" "uses_ids ?U s1" "\<forall>e\<in>set (sv_nodes s1). listed s1 (snd e)" "listed s1 (j_id j)" "node_disk (sv_sessions s1 (j_id j)) = j_disk j"
    and others: "\<forall>i. i \<noteq> j_id j \<longrightarrow> node_disk (sv_sessions s1 i) = node_disk (sv_sessions s i) \<and> (listed s i \<longrightarrow> listed s1 i)"
    and p1: "bestVersion path s1 = bestOf path [j] (bestVersion path s)" "om_get (sv_replicas s1) path = holdersOf path [j] (om_get (sv_replicas s) path)"
    using acceptNode_path [of N s U j "now" path] Cons.prems by auto
  have "\<forall>j'\<in>set js. j_id j' \<notin> ?U" "\<forall>j'\<in>set js. joinable N j'" "distinct (map j_id js)"
    using Cons.prems(4-6) by (auto simp: image_iff)
  from Cons.IH [OF s1(2-4) this(2,3,1)] obtain s' where s': "joinAll now js s1 = (Returned (), s')" "steady N s'"
    "\<forall>j\<in>set js. listed s' (j_id j) \<and> node_disk (sv_sessions s' (j_id j)) = j_disk j"
    "\<forall>i. i \<notin> j_id ` set js \<longrightarrow> node_disk (sv_sessions s' i) = node_disk (sv_sessions s1 i) \<and> (listed s1 i \<longrightarrow> listed s' i)"
    "bestVersion path s' = bestOf path js (bestVersion path s1)" "om_get (sv_replicas s') path = holdersOf path js (om_get (sv_replicas s1) path)"
    by blast
  have "j_id j \<notin> j_id ` set js"
    using Cons.prems(5) by auto
  with s' s1 others p1 show ?case
    by (intro exI [of _ s'] conjI) (auto simp: bestOf_def holdersOf_def)
qed

section \<open>A committed update survives\<close>

lemma bestOf_eq:
  assumes "b \<le> v" and "\<forall>j\<in>set js. \<forall>w. reported path j = Some w \<longrightarrow> w \<le> v"
  shows "bestOf path js b \<le> v" "\<exists>j\<in>set js. reported path j = Some v \<Longrightarrow> bestOf path js b = v"
proof -
  have "bestOf path js b \<le> v \<and> b \<le> bestOf path js b \<and> ((\<exists>j\<in>set js. reported path j = Some v) \<longrightarrow> bestOf path js b = v)"
    using assms
  proof (induction js arbitrary: b)
    case (Cons j js)
    let ?b = "case reported path j of None \<Rightarrow> b | Some w \<Rightarrow> max b w"
    have step: "bestOf path (j # js) b = bestOf path js ?b"
      by (simp add: bestOf_def)
    have b: "b \<le> ?b" "?b \<le> v" "reported path j = Some v \<longrightarrow> ?b = v"
      using Cons.prems by (auto split: option.split)
    have ih: "bestOf path js ?b \<le> v \<and> ?b \<le> bestOf path js ?b \<and> ((\<exists>j\<in>set js. reported path j = Some v) \<longrightarrow> bestOf path js ?b = v)"
      using Cons.IH [OF b(2)] Cons.prems(2) by simp
    with b show ?case
      unfolding step by (metis dual_order.trans order_antisym set_ConsD)
  qed (simp add: bestOf_def)
  then show "bestOf path js b \<le> v" "\<exists>j\<in>set js. reported path j = Some v \<Longrightarrow> bestOf path js b = v"
    by blast+
qed

lemma set_holdersOf:
  assumes "om_ok h" and "distinct (map j_name js)" and "\<forall>j\<in>set js. \<not> om_has h (j_name j)"
  shows "set (holdersOf path js h) = set h \<union> {(j_name j, j_id j) |j. j \<in> set js \<and> reported path j \<noteq> None}"
  using assms
proof (induction js arbitrary: h)
  case (Cons j js)
  let ?h = "if reported path j = None then h else om_put (j_name j) (j_id j) h"
  have "om_ok ?h" "\<forall>j'\<in>set js. \<not> om_has ?h (j_name j')"
    using Cons.prems by (auto simp: image_iff)
  moreover have "set ?h = set h \<union> (if reported path j = None then {} else {(j_name j, j_id j)})"
    using set_om_put_new [OF Cons.prems(1), of "j_name j" "j_id j"] Cons.prems(3) by simp
  ultimately show ?case
    using Cons.IH [of ?h] Cons.prems(2) by (auto simp: holdersOf_def)
qed (simp add: holdersOf_def)

definition top_level :: "string \<Rightarrow> bool" where
  \<comment> \<open>a name directly below the storage root, the only ones a data node reports\<close>
  "top_level path \<longleftrightarrow> clean_components path \<and> path \<noteq> [] \<and> CHR ''/'' \<notin> set path \<and> path \<noteq> ''.squid''"

lemma reported_stored:
  assumes "storage_ok (j_disk j)" and "clean_root (root (j_disk j))" and "top_level path"
  shows "stored_on (j_disk j) path = None \<Longrightarrow> reported path j = None"
    "stored_on (j_disk j) path = Some (c, w) \<Longrightarrow> \<exists>w'. reported path j = Some w' \<and> (w' = w \<or> w = -1 \<and> w' = 0)"
proof -
  let ?d = "j_disk j"
  have path: "resolvePath (root ?d) path = root ?d @ CHR ''/'' # path"
    using assms(2,3) by (simp add: resolvePath_clean top_level_def)
  have files: "path \<in> set (getFiles ?d) \<longleftrightarrow> readDisk ?d (resolvePath (root ?d) path) \<noteq> None"
    using assms by (simp add: in_getFiles path top_level_def storage_ok_def)
  have version: "getFileVersion ?d path = (case om_find (savedVersions (versionLines ?d)) path of Some v \<Rightarrow> v | None \<Rightarrow> -1)"
    using assms(1) om_find_savedVersions [of ?d path] by (simp add: storage_ok_def getFileVersion_def findVersion_map_of)
  show "stored_on ?d path = None \<Longrightarrow> reported path j = None"
    by (simp add: stored_on_def reported_def om_find_getFileVersionMapDisk files)
  show "stored_on ?d path = Some (c, w) \<Longrightarrow> \<exists>w'. reported path j = Some w' \<and> (w' = w \<or> w = -1 \<and> w' = 0)"
    by (auto simp: stored_on_def reported_def om_find_getFileVersionMapDisk files version split: option.splits)
qed

lemma pigeonhole_names:
  assumes "om_ok h" and "H \<subseteq> set h" and "m \<le> card H" and "length h < m + card (fst ` set h \<inter> names)"
  shows "\<exists>e\<in>H. fst e \<in> names"
proof (rule ccontr)
  assume none: "\<not> (\<exists>e\<in>H. fst e \<in> names)"
  have inj: "inj_on fst (set h)"
    using assms(1) by (auto simp: distinct_map dest: om_ok_distinct)
  have fin: "finite (fst ` set h)"
    by simp
  have "card (fst ` H) + card (fst ` set h \<inter> names) = card (fst ` H \<union> (fst ` set h \<inter> names))"
    using none assms(2) finite_subset [of H "set h"] by (subst card_Un_disjoint) auto
  also have "\<dots> \<le> card (fst ` set h)"
    using assms(2) by (intro card_mono) auto
  also have "\<dots> \<le> length h"
    using card_image_le [of "set h" fst] card_length [of h] by simp
  finally show False
    using assms(3,4) card_image [OF inj_on_subset [OF inj assms(2)]] by simp
qed

lemma committed_disks:
  fixes s path seen
  defines "h \<equiv> om_get (sv_replicas s) path" and "v \<equiv> nextVersion path seen s"
  assumes "server_ok s" and "takes (sv_sessions s) h path" and "int_range v" and "length content \<le> unat FILETRANSFER_MAX_SIZE" and "0 < v"
    and "\<forall>e\<in>set h. \<forall>c w. stored (sv_sessions s (snd e)) path = Some (c, w) \<longrightarrow> w < v"
    and "propagateUpdateFile path seen origin content s = (Returned v, s')"
  shows "\<exists>H \<subseteq> set h. min (quorum (sv_factor s)) (length h) \<le> card H \<and> (\<forall>e\<in>H. stored (sv_sessions s' (snd e)) path = Some (content, v)) \<and>
    (\<forall>e\<in>set h. \<forall>c w. stored (sv_sessions s' (snd e)) path = Some (c, w) \<longrightarrow> w < v \<or> c = content \<and> w = v)"
proof -
  obtain es :: "(string \<times> nat) list" and st where run:
    "propagateUpdateFile path seen origin content s =
       (if length es < min (quorum (sv_factor s)) (length h) then (Returned (-1), s\<lparr>sv_sessions := st\<rparr>)
        else (Returned v, commitUpdate path v origin content (s\<lparr>sv_sessions := st\<rparr>)))"
    and es: "set es \<subseteq> set h" "card (set es) = length es" "\<forall>e\<in>set es. n_run (st (snd e)) \<and> stored (st (snd e)) path = Some (content, v)"
    and up: "\<forall>e\<in>set h. upload_step path v content (sv_sessions s (snd e)) (st (snd e))"
    by (rule update_runs [OF assms(3-6) [unfolded h_def v_def], of origin, folded h_def v_def]) (rule that, assumption+)
  have quorum: "min (quorum (sv_factor s)) (length h) \<le> length es" and st: "sv_sessions s' = st"
    using run assms(7,9) by (auto simp: commitUpdate_simps split: if_splits)
  have "w < v \<or> c = content \<and> w = v" if "e \<in> set h" "stored (st (snd e)) path = Some (c, w)" for e c w
    using that up assms(8) by (fastforce simp: upload_step_def)
  then show ?thesis
    using quorum es st by (intro exI [of _ "set es"]) auto
qed

lemma recovered:
  fixes s :: server
  assumes "steady N s" and "uses_ids {} s" and "sv_replicas s = []" and "bestVersion path s \<le> v" and "0 < v"
    and "\<forall>j\<in>set js. joinable N j \<and> clean_root (root (j_disk j))" and "distinct (map j_id js)" and "distinct (map j_name js)" and "top_level path"
    and "\<forall>j\<in>set js. \<forall>c w. stored_on (j_disk j) path = Some (c, w) \<longrightarrow> w < v \<or> c = content \<and> w = v"
    and "\<exists>j\<in>set js. stored_on (j_disk j) path = Some (content, v)"
  shows "\<exists>s' s''. joinAll now js s = (Returned (), s') \<and> getKnownVersion path s' = v \<and> getFileFromDataNode path s' = (Returned (Some content), s'')"
proof -
  have nodes: "sv_nodes s = []"
    using assms(2) by (simp add: uses_ids_def)
  obtain s' where s': "joinAll now js s = (Returned (), s')" "steady N s'"
    and js: "\<forall>j\<in>set js. listed s' (j_id j) \<and> node_disk (sv_sessions s' (j_id j)) = j_disk j"
    and best: "bestVersion path s' = bestOf path js (bestVersion path s)"
    and holders: "om_get (sv_replicas s') path = holdersOf path js []"
    using joinAll_path [OF assms(1,2) _ _ assms(7), of "now" path] assms(3,6) nodes by (auto simp: om_get_def)
  have disk: "storage_ok (j_disk j)" "clean_root (root (j_disk j))" if "j \<in> set js" for j
    using assms(6) that by (auto simp: joinable_def admissible_def)
  note stored = reported_stored [OF disk assms(9)]
  have "w' \<le> v" if "j \<in> set js" "reported path j = Some w'" for j w'
    using stored(1) [OF that(1,1)] stored(2) [OF that(1,1)] that assms(5,10) by (cases "stored_on (j_disk j) path") fastforce+
  moreover have new: "reported path j = Some v" if "j \<in> set js" "stored_on (j_disk j) path = Some (content, v)" for j
    using stored(2) [OF that(1,1,2)] assms(5) by auto
  ultimately have "bestVersion path s' = v"
    unfolding best using assms(4,11) by (intro bestOf_eq(2)) auto
  then have known: "getKnownVersion path s' = v"
    using assms(5) by (auto simp: bestVersion_def getKnownVersion_def split: option.splits)
  have set: "set (om_get (sv_replicas s') path) = {(j_name j, j_id j) |j. j \<in> set js \<and> reported path j \<noteq> None}"
    using set_holdersOf [of "[]" js path] assms(8) by (simp add: holders om_has_def)
  from getFile_runs [OF steady_server_ok [OF s'(2)] steady_takes [OF s'(2)], of path] obtain r st where
    read: "getFileFromDataNode path s' = (Returned r, s'\<lparr>sv_sessions := st\<rparr>)"
    and only: "\<forall>c. r = Some c \<longrightarrow> (\<exists>e\<in>set (om_get (sv_replicas s') path). current v path (sv_sessions s' (snd e)) c)"
    and enough: "(\<exists>e\<in>set (om_get (sv_replicas s') path). healthy (sv_sessions s' (snd e)) \<and> (\<exists>c. current v path (sv_sessions s' (snd e)) c)) \<longrightarrow> r \<noteq> None"
    unfolding known by blast
  have "r \<noteq> None"
  proof -
    obtain j where j: "j \<in> set js" "stored_on (j_disk j) path = Some (content, v)"
      using assms(11) by blast
    then have "(j_name j, j_id j) \<in> set (om_get (sv_replicas s') path)"
      using new set by blast
    moreover have "healthy (sv_sessions s' (j_id j))" "current v path (sv_sessions s' (j_id j)) content"
      using js j by (auto simp: listed_def current_def)
    ultimately show ?thesis
      using enough by fastforce
  qed
  moreover have "c = content" if r: "r = Some c" for c
  proof -
    obtain e where "e \<in> set (om_get (sv_replicas s') path)" "current v path (sv_sessions s' (snd e)) c"
      using only r by blast
    then obtain j where "j \<in> set js" "current v path (sv_sessions s' (j_id j)) c"
      unfolding set by auto
    with js assms(5,10) show ?thesis
      by (fastforce simp: current_def)
  qed
  ultimately show ?thesis
    using s'(1) known read by auto
qed

text \<open>
  C2: a committed update survives the failover. Let an update be acknowledged by the old primary, and let
  a promoted server start over a disk that knows no newer version. When more of the holders than the
  primary could do without come back, with the disks they had, and other data nodes have no newer copy,
  then the new server knows the version of that update once they are registered, and a read returns its
  content. The name must be one directly below the storage root: files in directories are not reported.
\<close>

theorem update_survives_failover:
  fixes s path seen
  defines "h \<equiv> om_get (sv_replicas s) path" and "v \<equiv> nextVersion path seen s"
  assumes "server_ok s" and "takes (sv_sessions s) h path" and "int_range v" and "length content \<le> unat FILETRANSFER_MAX_SIZE" and "0 < v"
    and "\<forall>e\<in>set h. \<forall>c w. stored (sv_sessions s (snd e)) path = Some (c, w) \<longrightarrow> w < v"
    and "propagateUpdateFile path seen origin content s = (Returned v, s')"
    and "onPromote port factor newEpoch d = RunServer port s0" and "\<forall>w. om_find (loadVersionMap (createFileVersionFile d)) path = Some w \<longrightarrow> w \<le> v"
    and "\<forall>j\<in>set js. joinable N j \<and> clean_root (root (j_disk j))" and "distinct (map j_id js)" and "distinct (map j_name js)" and "top_level path"
    and "\<forall>j\<in>set js. \<forall>i. (j_name j, i) \<in> set h \<longrightarrow> j_disk j = node_disk (sv_sessions s' i)"
    and "\<forall>j\<in>set js. j_name j \<notin> fst ` set h \<longrightarrow> (\<forall>c w. stored_on (j_disk j) path = Some (c, w) \<longrightarrow> w < v)"
    and "length h < min (quorum (sv_factor s)) (length h) + card (fst ` set h \<inter> j_name ` set js)"
  shows "\<exists>s1 s2. joinAll now js s0 = (Returned (), s1) \<and> getKnownVersion path s1 = v \<and> getFileFromDataNode path s1 = (Returned (Some content), s2)"
proof -
  have s0: "s0 = newServer factor newEpoch (createFileVersionFile d)"
    using assms(10) by (simp add: onPromote_def)
  have start: "steady N s0" "uses_ids {} s0" "sv_replicas s0 = []" "bestVersion path s0 \<le> v"
    using steady_newServer assms(7,11) by (auto simp: s0 uses_ids_def newServer_def bestVersion_def split: option.split)
  obtain H where H: "H \<subseteq> set h" "min (quorum (sv_factor s)) (length h) \<le> card H"
      "\<forall>e\<in>H. stored (sv_sessions s' (snd e)) path = Some (content, v)"
    and old: "\<forall>e\<in>set h. \<forall>c w. stored (sv_sessions s' (snd e)) path = Some (c, w) \<longrightarrow> w < v \<or> c = content \<and> w = v"
    using committed_disks [OF assms(3-9) [unfolded h_def v_def]] unfolding h_def v_def by blast
  have "om_ok h"
    using holders_ok [OF assms(3), of path] by (simp add: entries_ok_def h_def)
  from pigeonhole_names [OF this H(1,2) assms(18)] obtain e j where e: "e \<in> H" "j \<in> set js" "j_name j = fst e"
    by auto
  then have "(j_name j, snd e) \<in> set h"
    using H(1) by auto
  with assms(16) e(2) have "j_disk j = node_disk (sv_sessions s' (snd e))"
    by blast
  then have "stored_on (j_disk j) path = Some (content, v)"
    using H(3) e(1) by simp
  then have some: "\<exists>j\<in>set js. stored_on (j_disk j) path = Some (content, v)"
    using e(2) by blast
  have "w < v \<or> c = content \<and> w = v" if "j \<in> set js" "stored_on (j_disk j) path = Some (c, w)" for j c w
  proof (cases "j_name j \<in> fst ` set h")
    case True
    then obtain i where "(j_name j, i) \<in> set h"
      by auto
    with assms(16) old that show ?thesis
      by fastforce
  qed (use assms(17) that in blast)
  then show ?thesis
    using recovered [OF start assms(7,12-15), of content "now"] some by blast
qed

lemma healthy_update:
  assumes "healthy nd" and "upload_ok path v content (node_disk nd)"
  shows "\<exists>m nd'. node_updateFile path v content nd = (Returned m, nd') \<and> isAck m \<and>
    node_disk nd' = setFileVersion (writeDisk (node_disk nd) (resolvePath (root (node_disk nd)) path) content) path v"
proof -
  obtain S d D where ends: "n_ends nd = (S, d, D)"
    by (cases "n_ends nd")
  let ?req = "uploadBytes UPDATE_FILE path v (nextSendSeq S) content" and ?fn = "\<lambda>p. uploadCall UPDATE_FILE p path v content"
  have nd: "n_run nd" "n_link nd" "n_cuts nd = []" "storage_ok d" "upload_ok path v content d"
    and rest: "at_rest S (nextSendSeq D) (nextSendSeq S)" "at_rest D (nextSendSeq S) (nextSendSeq D)"
    using assms ends by (auto simp: healthy_def in_step_def session_ok_def)
  obtain k j r S' d' D' whole where ex: "exchange k j ?req ?fn (S, d, D) = (r, S', d', D')"
    and call: "node_call ?req ?fn nd = (outcome_of r,
      nd\<lparr>n_run := alive S', n_link := whole, n_ends := (if whole then S' else dropUnread S', d', D'), n_cuts := tl (n_cuts nd)\<rparr>)"
    and k: "k = length ?req" "j = answer_length d D ?req"
    using node_call_linked [OF nd(1,2) ends, of ?req ?fn] nd(3) by blast
  from upload_exchange [OF rest upload_args_ok [OF nd(4,5)] disjI2 [OF refl] ex] k upload_answer(1) [OF nd(4,5) rest(2) disjI2 [OF refl]]
  obtain m where "r = Inr m" "isAck m" "d' = setFileVersion (writeDisk d (resolvePath (root d) path) content) path v"
    by auto
  with call ends show ?thesis
    by (simp add: node_updateFile_def node_upload_def outcome_of_def)
qed

abbreviation demoWritten :: disk where
  "demoWritten \<equiv> setFileVersion (writeDisk (newFileManager ''/dn'') ''/dn/a'' [1, 2, 3]) ''a'' 2"

lemma demoUp_written:
  obtains s' where "propagateUpdateFile ''a'' 0 ''c'' [1, 2, 3] demoUp = (Returned 2, s')" "node_disk (sv_sessions s' 0) = demoWritten"
proof -
  have path: "resolvePath (root (newFileManager ''/dn'')) ''a'' = ''/dn/a''"
    by code_simp
  have "upload_ok ''a'' 2 [1, 2, 3] (newFileManager ''/dn'')"
    using demo_disk(2) demo_content by (simp add: upload_ok_def)
  then have "\<exists>m nd'. node_updateFile ''a'' 2 [1, 2, 3] (newNode name (newFileManager ''/dn'')) = (Returned m, nd') \<and> isAck m \<and> node_disk nd' = demoWritten" for name
    using healthy_update [OF demo_node, of "''a''" 2 "[1, 2, 3]" name] by (simp add: path)
  then obtain m1 n1 m2 n2 where
    "node_updateFile ''a'' 2 [1, 2, 3] (newNode ''dn1'' (newFileManager ''/dn'')) = (Returned m1, n1)" "isAck m1" "node_disk n1 = demoWritten"
    "node_updateFile ''a'' 2 [1, 2, 3] (newNode ''dn2'' (newFileManager ''/dn'')) = (Returned m2, n2)" "isAck m2"
    by metis
  then have "fst (propagateUpdateFile ''a'' 0 ''c'' [1, 2, 3] demoUp) = Returned 2"
      "node_disk (sv_sessions (snd (propagateUpdateFile ''a'' 0 ''c'' [1, 2, 3] demoUp)) 0) = demoWritten"
    using healthy_isAlive [OF demo_node]
    by (simp_all add: propagateUpdateFile_def fanOutNodes_def demo_simps Let_def acked_def commitUpdate_simps quorum_2)
  then show ?thesis
    using that by (cases "propagateUpdateFile ''a'' 0 ''c'' [1, 2, 3] demoUp") simp
qed

lemma demoWritten_joinable: "joinable {''a''} \<lparr>j_id = 0, j_name = ''dn1'', j_disk = demoWritten\<rparr>" "clean_root (root demoWritten)"
proof -
  have "storage_ok demoWritten" "user_path demoWritten ''a''" "resolvePath (root demoWritten) ''a'' \<notin> set (unopenable demoWritten)"
      "getFileVersionMapDisk demoWritten = [(''a'', 2)]"
    by code_simp+
  moreover have "small_files demoWritten"
  proof -
    have "resolvePath (root (newFileManager ''/dn'')) ''a'' = ''/dn/a''"
      by code_simp
    moreover have "upload_ok ''a'' 2 [1, 2, 3] (newFileManager ''/dn'')"
      using demo_disk(2) demo_content by (simp add: upload_ok_def)
    ultimately show ?thesis
      using upload_effect_keeps [OF demo_disk(1) small_files_new, of demoWritten "''a''" 2 "[1, 2, 3]"]
      by (simp add: disk_keeps_def same_place_def upload_effect_def)
  qed
  ultimately show "joinable {''a''} \<lparr>j_id = 0, j_name = ''dn1'', j_disk = demoWritten\<rparr>"
    by (simp add: joinable_def admissible_def accepts_def listing_fits_def)
  show "clean_root (root demoWritten)"
    by code_simp
qed

theorem update_survives_failover_witness:
  "\<exists>s' s1 s2. propagateUpdateFile ''a'' 0 ''c'' [1, 2, 3] demoUp = (Returned 2, s') \<and>
     joinAll 0 [\<lparr>j_id = 0, j_name = ''dn1'', j_disk = node_disk (sv_sessions s' 0)\<rparr>] (newServer 2 1 (createFileVersionFile (newFileManager ''/sb''))) = (Returned (), s1) \<and>
     getFileFromDataNode ''a'' s1 = (Returned (Some [1, 2, 3]), s2)"
proof -
  let ?j = "\<lparr>j_id = 0, j_name = ''dn1'', j_disk = demoWritten\<rparr>" and ?s0 = "newServer 2 1 (createFileVersionFile (newFileManager ''/sb''))"
  obtain s' where s': "propagateUpdateFile ''a'' 0 ''c'' [1, 2, 3] demoUp = (Returned 2, s')" "node_disk (sv_sessions s' 0) = demoWritten"
    by (rule demoUp_written)
  have empty: "readDisk (newFileManager ''/dn'') ''/dn/a'' = None" "resolvePath (root (newFileManager ''/dn'')) ''a'' = ''/dn/a''"
      "loadVersionMap (createFileVersionFile (newFileManager ''/sb'')) = []" "top_level ''a''"
    by code_simp+
  have old: "\<forall>e\<in>set (om_get (sv_replicas demoUp) ''a''). \<forall>c w. stored (sv_sessions demoUp (snd e)) ''a'' = Some (c, w) \<longrightarrow> w < nextVersion ''a'' 0 demoUp"
    by (simp add: demo_simps stored_on_def empty)
  have "\<exists>s1 s2. joinAll 0 [?j] ?s0 = (Returned (), s1) \<and> getKnownVersion ''a'' s1 = nextVersion ''a'' 0 demoUp \<and>
      getFileFromDataNode ''a'' s1 = (Returned (Some [1, 2, 3]), s2)"
    using demo_content demoWritten_joinable s' empty
    by (intro update_survives_failover [OF demoUp_ok(1,3) _ _ _ old, where origin = "''c''" and s' = s' and port = 0 and factor = 2 and newEpoch = 1 and
          d = "newFileManager ''/sb''" and N = "{''a''}"]) (auto simp: demo_simps onPromote_def quorum_2)
  with s' show ?thesis
    by auto
qed

section \<open>What a new primary starts with\<close>

lemma loads_createFileVersionFile:
  "loadVersionMap (createFileVersionFile d) = loadVersionMap d" "loadEpoch (createFileVersionFile d) = loadEpoch d"
proof -
  have root: "root (createFileVersionFile d) = root d"
    by (simp add: createFileVersionFile_def split: option.split)
  have path: "versionPath d = versionFilePath (root d)" "epochPath d \<noteq> versionFilePath (root d)"
    by (simp_all add: versionPath_def versionFilePath_def epochPath_def)
  have "fileLines (createFileVersionFile d) (versionPath d) = fileLines d (versionPath d)"
    by (simp add: fileLines_def createFileVersionFile_def path readDisk_writeDisk string_of_bytes_def split: option.split)
  then show "loadVersionMap (createFileVersionFile d) = loadVersionMap d"
    using state_paths_root [OF root] by (simp add: loadVersionMap_def)
  have "readDisk (createFileVersionFile d) (epochPath d) = readDisk d (epochPath d)"
    using path(2) by (simp add: createFileVersionFile_def readDisk_writeDisk split: option.split)
  then show "loadEpoch (createFileVersionFile d) = loadEpoch d"
    using state_paths_root [OF root] by (simp add: loadEpoch_def)
qed

lemma loadVersionMap_saveEpoch:
  assumes "replaceable d (epochPath d)"
  shows "loadVersionMap (saveEpoch d e) = loadVersionMap d"
proof -
  have "versionPath d \<noteq> tmpPath (epochPath d)" "versionPath d \<noteq> epochPath d"
    by (simp_all add: versionPath_def epochPath_def tmpPath_path_append)
  then have "readDisk (saveEpoch d e) (versionPath d) = readDisk d (versionPath d)"
    using readDisk_atomicWrite [OF assms] by (simp add: saveEpoch_def)
  then show ?thesis
    using state_paths_root [of "saveEpoch d e" d] by (simp add: loadVersionMap_def fileLines_def saveEpoch_def)
qed

lemma watch_disk:
  assumes "w_role w = STANDBY" and "w' = fold (watchRound cfg) envs w"
  shows "(w_role w' = STANDBY \<and> w_disk w' = w_disk w) \<or> (w_role w' = ACTIVE \<and> w_disk w' = saveEpoch (w_disk w) (w_epoch w'))"
  using assms
proof (induction envs arbitrary: w)
  case (Cons env envs)
  let ?w = "watchRound cfg env w"
  have active: "fold (watchRound cfg) es v = v" if "w_role v = ACTIVE" for es v
    using that by (induction es) (simp_all add: watchRound_def)
  from watchRound_cases [of w cfg env] show ?case
  proof
    assume "follows w ?w"
    with Cons.prems Cons.IH [of ?w] show ?thesis
      by (auto simp: follows_def)
  next
    assume "\<exists>w1. ?w = promote w1 \<and> follows w w1 \<and> w_role w = STANDBY \<and> allHigherPriorityDown cfg (w_name w) (s_probe env)"
    then obtain w1 where w1: "?w = promote w1" "follows w w1"
      by blast
    with Cons.prems(2) active [of ?w] have "w' = promote w1"
      by simp
    with w1(2) show ?thesis
      by (simp add: follows_def)
  qed
qed simp


lemma atoi_read_int:
  assumes "read_int s = Some (v, r)"
  shows "atoi s = v"
proof -
  have v: "int_range v"
    using assms by (auto simp: read_int_def Let_def split: prod.splits if_splits)
  then have "max (- (2 ^ 63)) (min (2 ^ 63 - 1) v) = v" "(v + 2 ^ 31) mod 2 ^ 32 - 2 ^ 31 = v"
    by (simp_all add: int_range_def)
  then show ?thesis
    using assms by (auto simp: read_int_def atoi_def Let_def split: prod.splits if_splits)
qed

lemma atoi_show_int [simp]: "int_range n \<Longrightarrow> atoi (show_int n) = n"
  using read_int_show_int [of n "[]"] by (simp add: atoi_read_int)

text \<open>
  Exactly one of the configured servers starts as the primary, on the port it is given: the first of
  the configuration. It starts with the epoch on its own disk, so a primary that comes back after a
  standby took over becomes primary again, with the epoch of before.
\<close>

theorem one_primary:
  assumes "fromFile d path = Inr cfg" and "path \<noteq> []" and "servers cfg \<noteq> []" and "\<forall>e\<in>set (servers cfg). se_name e \<noteq> []" and "int_range port"
  shows "\<exists>!name. name \<in> se_name ` set (servers cfg) \<and> (\<exists>s. serverMain [prog, show_int port, f, path, name] d = RunServer port s \<and> sv_epoch s = loadEpoch d)"
proof (rule ex1I)
  let ?first = "se_name (hd (servers cfg))"
  show "?first \<in> se_name ` set (servers cfg) \<and> (\<exists>s. serverMain [prog, show_int port, f, path, ?first] d = RunServer port s \<and> sv_epoch s = loadEpoch d)"
    using assms by (simp add: serverMain_def isPrimary_def newServer_def loads_createFileVersionFile)
  show "name = ?first" if "name \<in> se_name ` set (servers cfg) \<and>
      (\<exists>s. serverMain [prog, show_int port, f, path, name] d = RunServer port s \<and> sv_epoch s = loadEpoch d)" for name
    using that assms by (auto simp: serverMain_def isPrimary_def Let_def split: if_splits)
qed

abbreviation demoConfigDisk :: disk where
  "demoConfigDisk \<equiv> writeDisk (newFileManager ''/sb'') ''/c'' (bytes_of_string (''[servers]'' @ [CHR 0x0A] @ ''s1=h:1'' @ [CHR 0x0A]))"

lemma demoConfig: "fromFile demoConfigDisk ''/c'' = Inr (standalone ''h'' 1 ''s1'')"
  by code_simp

theorem one_primary_witness:
  "\<exists>!name. name \<in> se_name ` set (servers (standalone ''h'' 1 ''s1'')) \<and>
     (\<exists>s. serverMain [''server'', show_int 9000, ''2'', ''/c'', name] demoConfigDisk = RunServer 9000 s \<and> sv_epoch s = loadEpoch demoConfigDisk)"
  by (rule one_primary [OF demoConfig]) (simp_all add: standalone_def int_range_def)


end
