(* ===== verification/Program_Start.thy ===== *)
theory Program_Start
  imports Failover Squid_Client
begin

text \<open>
  The programs of the data node, of the command line client and of the mounted file system:
  \<open>datanode/src/main.cpp\<close>, \<open>client/src/main.cpp\<close> and \<open>client/src/squidfs_main.cpp\<close>. Each reads its arguments
  and the configuration, connects, and runs what the other theories model. The connections that come
  about, the number of rounds of endless loops and the loop of libfuse are arguments.
\<close>

section \<open>How a program ends\<close>

datatype programEnd =
    Ended int          \<comment> \<open>with an exit code\<close>
  | Uncaught           \<comment> \<open>an exception leaves \<open>main\<close>\<close>
  | Hung
  | NullArgument       \<comment> \<open>a string is built from the null pointer at the end of \<open>argv\<close>\<close>

definition endOf :: "int \<Rightarrow> 'a outcome \<Rightarrow> programEnd" where
  "endOf rc r = (case r of Returned _ \<Rightarrow> Ended rc | Threw e \<Rightarrow> Uncaught | Blocked \<Rightarrow> Hung)"

definition caughtEnd :: "programEnd \<Rightarrow> programEnd" where
  \<comment> \<open>a handler around everything that returns 1\<close>
  "caughtEnd r = (if r = Uncaught then Ended 1 else r)"

definition isConfigFile :: "string \<Rightarrow> bool" where
  "isConfigFile arg \<longleftrightarrow> length arg > 5 \<and> drop (length arg - 5) arg = ''.conf''"

definition SERVER_IP :: string where
  "SERVER_IP = ''127.0.0.1''"

definition SERVER_PORT :: int where
  "SERVER_PORT = 12345"

section \<open>The data node\<close>

definition datanodeMain :: "string list \<Rightarrow> string \<Rightarrow> disk \<Rightarrow> channel option list \<Rightarrow> nat \<Rightarrow> (connect_error + unit) outcome \<times> endpoint_proc" where
  \<comment> \<open>the second argument is the name of the working directory\<close>
  "datanodeMain argv cwd d dials rounds =
     (let argc = length argv;
          server_ip = (if argc > 1 then argv ! 1 else SERVER_IP);
          server_port = (if argc > 2 then atoi (argv ! 2) else SERVER_PORT);
          node_identity = (if argc > 3 then argv ! 3 else '''');
          configPath = (if argc > 4 then argv ! 4 else '''');
          identity = (if node_identity = '''' then cwd else node_identity);
          datanode = (newDataNode server_ip server_port dials)\<lparr>ep_name := identity\<rparr>;
          connected = (if configPath = '''' then datanode
                       else case fromFile d configPath of Inl e \<Rightarrow> datanode | Inr config \<Rightarrow> snd (connectWithFailover config datanode))
      in datanodeRun rounds connected)"

section \<open>The command line client\<close>

definition TEST_FILE :: string where
  "TEST_FILE = ''testfile.txt''"

definition clientTarget :: "string list \<Rightarrow> disk \<Rightarrow> programEnd + (string \<times> int \<times> string)" where
  \<comment> \<open>address, port and name; the first argument is read before it is known to exist\<close>
  "clientTarget argv d =
     (let argc = length argv
      in if argc \<le> 1 then Inl NullArgument
         else if isConfigFile (argv ! 1)
         then case fromFile d (argv ! 1) of
                Inl e \<Rightarrow> Inl (Ended 1)
              | Inr cfg \<Rightarrow>
                  (let processName = (if argc > 2 then argv ! 2 else ''CLIENT_1'')
                   in case servers cfg of [] \<Rightarrow> Inr (SERVER_IP, SERVER_PORT, processName) | e # _ \<Rightarrow> Inr (se_ip e, se_port e, processName))
         else Inr (argv ! 1, (if argc > 2 then atoi (argv ! 2) else SERVER_PORT), (if argc > 3 then argv ! 3 else ''CLIENT_1'')))"

definition clientScript :: "'a push_handler \<Rightarrow> nat \<Rightarrow> 'a client \<Rightarrow> (Message list \<times> bytes) outcome \<times> 'a client" where
  \<comment> \<open>the answers, and the content that was read\<close>
  "clientScript h n cl =
     bindO (client_syncStatus cl) (\<lambda>m1 c1.
     bindO (client_createFile h n TEST_FILE (bytes_of_string ''hello'') 0 c1) (\<lambda>m2 c2.
     bindO (client_acquireLock h n TEST_FILE c2) (\<lambda>m3 c3.
     bindO (client_updateFile h n TEST_FILE (bytes_of_string ''world'') 0 c3) (\<lambda>m4 c4.
     bindO (client_releaseLock h n TEST_FILE c4) (\<lambda>m5 c5.
     bindO (client_readFile h n TEST_FILE c5) (\<lambda>(m6, readBuf) c6.
     bindO (client_syncStatus c6) (\<lambda>m7 c7.
     bindO (client_heartbeat c7) (\<lambda>m8 c8.
     bindO (disconnect c8) (\<lambda>_ c9. (Returned ([m1, m2, m3, m4, m5, m6, m7, m8], readBuf), c9))))))))))"

definition clientMain :: "string list \<Rightarrow> disk \<Rightarrow> channel option list \<Rightarrow> nat \<Rightarrow> programEnd" where
  \<comment> \<open>the push handler only prints\<close>
  "clientMain argv d dials n =
     (case clientTarget argv d of
        Inl e \<Rightarrow> e
      | Inr (ip, port, name) \<Rightarrow>
          (case connectToServer (newClient ip port name dials ()) of
             (Inl e, cl) \<Rightarrow> Uncaught
           | (Inr _, cl) \<Rightarrow> endOf 0 (fst (clientScript (\<lambda>_ _ u. u) n cl))))"

section \<open>The mounted file system\<close>

definition mountAndRun :: "('a client \<Rightarrow> int outcome \<times> 'a client) \<Rightarrow> 'a client \<Rightarrow> programEnd" where
  \<comment> \<open>after the connection: the status, the file system loop with its result, and the disconnect\<close>
  "mountAndRun fs_run cl =
     (case bindO (client_syncStatus cl) (\<lambda>_ c1. bindO (fs_run c1) (\<lambda>rc c2. bindO (disconnect c2) (\<lambda>_ c3. (Returned rc, c3)))) of
        (Returned rc, _) \<Rightarrow> Ended rc | (Threw e, _) \<Rightarrow> Uncaught | (Blocked, _) \<Rightarrow> Hung)"

definition fuseMain :: "string list \<Rightarrow> disk \<Rightarrow> channel option list \<Rightarrow> (unit client \<Rightarrow> int outcome \<times> unit client) \<Rightarrow> programEnd" where
  \<comment> \<open>\<open>fs_run\<close> is the loop of libfuse over the operations of the file system\<close>
  "fuseMain argv d dials fs_run =
     (let argc = length argv
      in if argc < 3 then Ended 1
         else if isConfigFile (argv ! 2)
         then caughtEnd
                (case fromFile d (argv ! 2) of
                   Inl e \<Rightarrow> Uncaught
                 | Inr cfg \<Rightarrow>
                     (let processName = (if argc > 3 then argv ! 3 else ''FUSE_CLIENT'')
                      in case connectWithFailover cfg (newClient SERVER_IP SERVER_PORT processName dials ()) of
                           (Inl e, cl) \<Rightarrow> Uncaught | (Inr _, cl) \<Rightarrow> mountAndRun fs_run cl))
         else let serverPort = (if argc > 3 then atoi (argv ! 3) else SERVER_PORT);
                  processName = (if argc > 4 then argv ! 4 else ''FUSE_CLIENT'')
              in case connectToServer (newClient (argv ! 2) serverPort processName dials ()) of
                   (Inl e, cl) \<Rightarrow> Uncaught | (Inr _, cl) \<Rightarrow> mountAndRun fs_run cl)"

section \<open>What the programs do with their configuration\<close>

text \<open>
  A data node that found a server through its configuration keeps that session: the run loop does not
  connect to the single server of the command line while the session is alive. Without a readable
  configuration that server is the one it connects to.
\<close>

theorem failover_session_kept:
  fixes argv :: "string list" and dials :: "channel option list"
  defines "dn \<equiv> (newDataNode (argv ! 1) (atoi (argv ! 2)) dials)\<lparr>ep_name := argv ! 3\<rparr>"
  assumes "length argv = 5" and "argv ! 3 \<noteq> []" and "argv ! 4 \<noteq> []"
  shows "case fromFile d (argv ! 4) of
      Inr cfg \<Rightarrow> ep_isAlive (snd (connectWithFailover cfg dn)) \<longrightarrow>
        datanodeMain argv cwd d dials rounds = (Returned (Inr ()), snd (connectWithFailover cfg dn))
    | Inl e \<Rightarrow> datanodeMain argv cwd d dials 0 = (let (r, dn') = connectToServer dn in (Returned r, dn'))"
proof (cases "fromFile d (argv ! 4)")
  case (Inl e)
  have "\<not> ep_isAlive dn"
    by (simp add: dn_def newDataNode_def ep_isAlive_def)
  with Inl assms show ?thesis
    by (auto simp: datanodeMain_def datanodeRun_def Let_def split: prod.split sum.split)
next
  case (Inr cfg)
  have "datanodeLoop rounds e = (Returned (), e)" if "ep_isAlive e" for e :: endpoint_proc
    using that by (induction rounds) simp_all
  with Inr assms show ?thesis
    by (simp add: datanodeMain_def datanodeRun_def Let_def)
qed

text \<open>
  The command line client makes one attempt to connect. Given a configuration it takes the first server
  of the list; when that one cannot be reached the program ends with an exception, whatever other
  servers are configured. Without an argument it reads a string from a null pointer.
\<close>

theorem client_main_single_server:
  shows "clientMain [prog] d dials n = NullArgument"
    and "isConfigFile path \<Longrightarrow> fromFile d path = Inr cfg \<Longrightarrow> clientMain [prog, path] d (None # dials) n = Uncaught"
  by (simp_all add: clientMain_def clientTarget_def connectToServer_def dial_def newClient_def Let_def split: list.split)

text \<open>
  With a configuration file no exception ends the program of the mounted file system: whatever fails on
  the way, it returns 1, unless a call never comes back.
\<close>

theorem fuse_config_catches:
  assumes "3 \<le> length argv" and "isConfigFile (argv ! 2)"
  shows "fuseMain argv d dials fs_run \<notin> {Uncaught, NullArgument}"
proof -
  have "mountAndRun fs_run cl \<noteq> NullArgument" for cl :: "unit client"
    by (simp add: mountAndRun_def split: outcome.split prod.split)
  then show ?thesis
    using assms by (auto simp: fuseMain_def caughtEnd_def Let_def split: sum.split prod.split)
qed

end
