(* ===== verification/Thread_Pool.thy ===== *)
theory Thread_Pool
  imports Task_Queue "HOL-Library.Multiset"
begin

text \<open>
  The thread pool of the server, \<open>server/src/thread_pool.hpp\<close>. Its workers take tasks from one queue;
  the destructor sets a flag and joins them. The workers and the threads that submit tasks run
  interleaved: the pool is a step relation, with the tasks that return at all as a parameter.
\<close>

section \<open>The pool\<close>

datatype 'k poolWorker =
    Waiting        \<comment> \<open>at the condition variable, or about to look at it\<close>
  | Busy 'k        \<comment> \<open>inside \<open>task()\<close>\<close>
  | Gone           \<comment> \<open>has returned from \<open>workerLoop\<close>\<close>

record 'k pool =
  pw_workers :: "'k poolWorker list"
  pw_tasks :: "'k list"
  pw_stopping :: bool
  pw_submitted :: "'k list"        \<comment> \<open>every task ever submitted, in order\<close>
  pw_begun :: "'k list"            \<comment> \<open>every task a worker has taken, in order\<close>
  pw_finished :: "'k list"         \<comment> \<open>every task that has returned\<close>

definition newThreadPool :: "nat \<Rightarrow> 'k pool" where
  "newThreadPool workerCount =
     \<lparr>pw_workers = replicate (if workerCount = 0 then 1 else workerCount) Waiting, pw_tasks = [], pw_stopping = False,
      pw_submitted = [], pw_begun = [], pw_finished = []\<rparr>"

definition submitTask :: "'k \<Rightarrow> 'k pool \<Rightarrow> 'k pool" where
  "submitTask k p = p\<lparr>pw_tasks := pw_tasks p @ [k], pw_submitted := pw_submitted p @ [k]\<rparr>"

definition stopPool :: "'k pool \<Rightarrow> 'k pool" where
  \<comment> \<open>the destructor, before it joins the workers\<close>
  "stopPool p = p\<lparr>pw_stopping := True\<rparr>"

definition joined :: "'k pool \<Rightarrow> bool" where
  \<comment> \<open>the destructor has come back from its joins\<close>
  "joined p \<longleftrightarrow> pw_stopping p \<and> (\<forall>w\<in>set (pw_workers p). w = Gone)"

definition wakes :: "'k pool \<Rightarrow> bool" where
  "wakes p \<longleftrightarrow> pw_stopping p \<or> pw_tasks p \<noteq> []"

definition workerTurn :: "nat \<Rightarrow> 'k pool \<Rightarrow> 'k pool" where
  \<comment> \<open>a worker that holds the lock and whose condition is true\<close>
  "workerTurn i p =
     (case pw_tasks p of
        [] \<Rightarrow> p\<lparr>pw_workers := (pw_workers p)[i := Gone]\<rparr>
      | k # ks \<Rightarrow> p\<lparr>pw_workers := (pw_workers p)[i := Busy k], pw_tasks := ks, pw_begun := pw_begun p @ [k]\<rparr>)"

definition taskReturns :: "nat \<Rightarrow> 'k \<Rightarrow> 'k pool \<Rightarrow> 'k pool" where
  \<comment> \<open>an exception of the task is kept in its future\<close>
  "taskReturns i k p = p\<lparr>pw_workers := (pw_workers p)[i := Waiting], pw_finished := pw_finished p @ [k]\<rparr>"

inductive worker_step :: "('k \<Rightarrow> bool) \<Rightarrow> 'k pool \<Rightarrow> 'k pool \<Rightarrow> bool" for returns where
  turn: "i < length (pw_workers p) \<Longrightarrow> pw_workers p ! i = Waiting \<Longrightarrow> wakes p \<Longrightarrow> worker_step returns p (workerTurn i p)"
| finish: "i < length (pw_workers p) \<Longrightarrow> pw_workers p ! i = Busy k \<Longrightarrow> returns k \<Longrightarrow> worker_step returns p (taskReturns i k p)"

inductive pool_step :: "('k \<Rightarrow> bool) \<Rightarrow> 'k pool \<Rightarrow> 'k pool \<Rightarrow> bool" for returns where
  submit: "\<not> pw_stopping p \<Longrightarrow> pool_step returns p (submitTask k p)"
| stop: "pool_step returns p (stopPool p)"
| work: "worker_step returns p p' \<Longrightarrow> pool_step returns p p'"

inductive_cases worker_stepE: "worker_step returns p p'"
inductive_cases pool_stepE: "pool_step returns p p'"

section \<open>Order\<close>

lemma turn_queue:
  "pw_tasks p = [] \<Longrightarrow> pw_submitted (workerTurn i p) = pw_submitted p \<and> pw_begun (workerTurn i p) = pw_begun p \<and> pw_tasks (workerTurn i p) = []"
  "pw_tasks p = k # ks \<Longrightarrow> pw_submitted (workerTurn i p) = pw_submitted p \<and> pw_begun (workerTurn i p) = pw_begun p @ [k] \<and> pw_tasks (workerTurn i p) = ks"
  by (simp_all add: workerTurn_def)

interpretation pool_queue: task_queue pw_tasks pw_begun pw_submitted "pool_step returns"
proof unfold_locales
  fix p p' :: "'a pool"
  assume "pool_step returns p p'"
  then show "pw_submitted p' = pw_submitted p \<and> pw_begun p' = pw_begun p \<and> pw_tasks p' = pw_tasks p \<or>
      (\<exists>k. pw_submitted p' = pw_submitted p @ [k] \<and> pw_begun p' = pw_begun p \<and> pw_tasks p' = pw_tasks p @ [k]) \<or>
      (\<exists>k. pw_submitted p' = pw_submitted p \<and> pw_begun p' = pw_begun p @ [k] \<and> pw_tasks p = k # pw_tasks p')"
  proof cases
    case work
    then show ?thesis
    proof cases
      case (turn i)
      then show ?thesis
        using turn_queue [of p] by (cases "pw_tasks p") auto
    qed (auto simp: taskReturns_def)
  qed (auto simp: submitTask_def stopPool_def)
qed

section \<open>Every task is run\<close>

primrec taskOf :: "'k poolWorker \<Rightarrow> 'k multiset" where
  "taskOf Waiting = {#}"
| "taskOf (Busy k) = {#k#}"
| "taskOf Gone = {#}"

primrec workLeft :: "'k poolWorker \<Rightarrow> nat" where
  \<comment> \<open>the steps a worker takes before it is gone, when it finds no more tasks\<close>
  "workLeft Waiting = 1"
| "workLeft (Busy k) = 2"
| "workLeft Gone = 0"

definition inProgress :: "'k pool \<Rightarrow> 'k multiset" where
  "inProgress p = sum_list (map taskOf (pw_workers p))"

definition remaining :: "'k pool \<Rightarrow> nat" where
  "remaining p = 2 * length (pw_tasks p) + sum_list (map workLeft (pw_workers p))"

definition pool_inv :: "'k pool \<Rightarrow> bool" where
  "pool_inv p \<longleftrightarrow> pw_submitted p = pw_begun p @ pw_tasks p \<and> mset (pw_begun p) = mset (pw_finished p) + inProgress p \<and>
     (Gone \<in> set (pw_workers p) \<longrightarrow> pw_stopping p \<and> pw_tasks p = []) \<and> pw_workers p \<noteq> []"

lemma sum_update: "i < length ws \<Longrightarrow> sum_list (map f (ws[i := w])) + f (ws ! i) = sum_list (map f ws) + f w"
  for f :: "'a \<Rightarrow> 'b :: comm_monoid_add"
proof (induction ws arbitrary: i)
  case (Cons v ws)
  then show ?case
    by (cases i) (simp_all add: add.assoc add.commute add.left_commute)
qed simp

lemma pool_inv_new: "pool_inv (newThreadPool n)"
proof -
  have "sum_list (replicate m ({#} :: 'a multiset)) = {#}" for m
    by (induction m) simp_all
  then show ?thesis
    by (simp add: pool_inv_def newThreadPool_def inProgress_def)
qed

lemma remaining_step: "worker_step returns p p' \<Longrightarrow> Suc (remaining p') = remaining p"
proof (induction rule: worker_step.induct)
  case (turn i p)
  then show ?case
    using sum_update [of i "pw_workers p" workLeft Gone] sum_update [of i "pw_workers p" workLeft "Busy (hd (pw_tasks p))"]
    by (cases "pw_tasks p") (simp_all add: remaining_def workerTurn_def)
next
  case (finish i p k)
  then show ?case
    using sum_update [of i "pw_workers p" workLeft Waiting] by (simp add: remaining_def taskReturns_def)
qed

lemma pool_inv_worker: "worker_step returns p p' \<Longrightarrow> pool_inv p \<Longrightarrow> pool_inv p'"
proof (induction rule: worker_step.induct)
  case (turn i p)
  show ?case
  proof (cases "pw_tasks p")
    case Nil
    have "inProgress (workerTurn i p) = inProgress p"
      using sum_update [of i "pw_workers p" taskOf Gone] turn Nil by (simp add: inProgress_def workerTurn_def)
    with turn Nil show ?thesis
      by (auto simp: pool_inv_def workerTurn_def wakes_def)
  next
    case (Cons k ks)
    have "inProgress (workerTurn i p) = inProgress p + {#k#}"
      using sum_update [of i "pw_workers p" taskOf "Busy k"] turn Cons by (simp add: inProgress_def workerTurn_def)
    moreover have "Gone \<notin> set (pw_workers (workerTurn i p))"
      using turn(4) Cons set_update_subset_insert [of "pw_workers p" i "Busy k"] by (auto simp: pool_inv_def workerTurn_def)
    ultimately show ?thesis
      using turn Cons by (simp add: pool_inv_def workerTurn_def)
  qed
next
  case (finish i p k)
  have "inProgress (taskReturns i k p) + {#k#} = inProgress p"
    using sum_update [of i "pw_workers p" taskOf Waiting] finish by (simp add: inProgress_def taskReturns_def)
  moreover have "Gone \<in> set (pw_workers p)" if "Gone \<in> set (pw_workers (taskReturns i k p))"
    using that set_update_subset_insert [of "pw_workers p" i Waiting] by (auto simp: taskReturns_def)
  ultimately show ?case
    using finish by (auto simp: pool_inv_def taskReturns_def)
qed

lemma pool_inv_step: "pool_step returns p p' \<Longrightarrow> pool_inv p \<Longrightarrow> pool_inv p'"
proof (induction rule: pool_step.induct)
  case (work p p')
  then show ?case
    by (rule pool_inv_worker)
qed (auto simp: pool_inv_def submitTask_def stopPool_def inProgress_def)

lemma pool_inv_steps: "(pool_step returns)\<^sup>*\<^sup>* (newThreadPool n) p \<Longrightarrow> pool_inv p"
  by (induction rule: rtranclp_induct) (auto intro: pool_inv_step pool_inv_new)

lemma workers_kept: "pool_step returns p p' \<Longrightarrow> length (pw_workers p') = length (pw_workers p)"
  by (auto simp: submitTask_def stopPool_def workerTurn_def taskReturns_def split: list.splits elim!: pool_stepE worker_stepE)

text \<open>
  The pool begins tasks in the order they were submitted and loses none: at every moment the tasks
  submitted are those begun followed by those in the queue, and of those begun each has either
  returned, or is being run by one of the workers, of which there is at least one and as many as were
  asked for.
\<close>

theorem pool_in_order:
  assumes "(pool_step returns)\<^sup>*\<^sup>* (newThreadPool n) p"
  shows "pw_submitted p = pw_begun p @ pw_tasks p \<and> mset (pw_begun p) = mset (pw_finished p) + inProgress p \<and>
    length (pw_workers p) = max 1 n"
proof -
  have "length (pw_workers p) = max 1 n"
    using assms by (induction rule: rtranclp_induct) (auto simp: newThreadPool_def workers_kept)
  then show ?thesis
    using pool_inv_steps [OF assms] pool_queue.in_order [OF assms] by (simp add: pool_inv_def newThreadPool_def)
qed

lemma stopping_stays: "worker_step returns p p' \<Longrightarrow> pw_stopping p' = pw_stopping p \<and> pw_submitted p' = pw_submitted p"
  by (auto simp: workerTurn_def taskReturns_def split: list.splits elim!: worker_stepE)

lemma worker_can_step:
  assumes "pw_stopping p" and "w \<in> set (pw_workers p)" and "w \<noteq> Gone"
  shows "\<exists>p'. worker_step (\<lambda>_. True) p p'"
proof -
  obtain i where i: "i < length (pw_workers p)" "pw_workers p ! i = w"
    using assms(2) by (auto simp: in_set_conv_nth)
  show ?thesis
  proof (cases w)
    case Waiting
    moreover have "wakes p"
      using assms(1) by (simp add: wakes_def)
    ultimately show ?thesis
      using worker_step.turn i by blast
  next
    case (Busy k)
    with worker_step.finish [OF i(1), of k "\<lambda>_. True"] i(2) show ?thesis
      by blast
  qed (use assms(3) in simp)
qed


text \<open>
  Tasks that never return starve the pool. When every worker is inside a task that does not return, no
  other task ever begins, whatever is submitted, and the destructor never comes back. The server runs
  its handshakes in the pool, and they wait for data nodes without a limit.
\<close>

theorem pool_starves:
  assumes "(pool_step returns)\<^sup>*\<^sup>* p p'" and "\<forall>w\<in>set (pw_workers p). \<exists>k. w = Busy k \<and> \<not> returns k" and "pw_workers p \<noteq> []"
  shows "pw_begun p' = pw_begun p \<and> \<not> joined p'"
proof -
  have stuck: "\<exists>k. pw_workers p ! i = Busy k \<and> \<not> returns k" if "i < length (pw_workers p)" for i
    using assms(2) that by auto
  from assms(1) have "pw_workers p' = pw_workers p \<and> pw_begun p' = pw_begun p"
  proof (induction rule: rtranclp_induct)
    case (step p1 p2)
    from step.hyps(2) have "pw_workers p2 = pw_workers p1 \<and> pw_begun p2 = pw_begun p1"
    proof cases
      case work
      then show ?thesis
        using stuck step.IH by cases fastforce+
    qed (simp_all add: submitTask_def stopPool_def)
    with step.IH show ?case
      by simp
  qed simp
  moreover obtain w where "w \<in> set (pw_workers p)" "w \<noteq> Gone"
    using assms(2,3) by (cases "pw_workers p") fastforce+
  ultimately show ?thesis
    by (auto simp: joined_def)
qed

section \<open>A pool at work\<close>

abbreviation demoPool :: "nat pool" where
  "demoPool \<equiv> workerTurn 0 (submitTask 2 (submitTask 1 (newThreadPool 1)))"

lemma demoPool_steps: "(pool_step returns)\<^sup>*\<^sup>* (newThreadPool 1) demoPool"
proof -
  let ?p = "submitTask (1 :: nat) (newThreadPool 1)"
  have "pool_step returns (newThreadPool 1) ?p" "pool_step returns ?p (submitTask 2 ?p)"
    by (rule pool_step.submit, simp add: newThreadPool_def submitTask_def)+
  moreover have "pool_step returns (submitTask 2 ?p) demoPool"
    by (intro pool_step.work worker_step.turn) (simp_all add: newThreadPool_def submitTask_def wakes_def)
  ultimately show ?thesis
    by (meson rtranclp.rtrancl_into_rtrancl rtranclp.rtrancl_refl)
qed

lemma demoPool_simps: "pw_submitted demoPool = [1, 2]" "pw_begun demoPool = [1]" "pw_workers demoPool = [Busy 1]" "pw_tasks demoPool = [2]"
  by (simp_all add: workerTurn_def submitTask_def newThreadPool_def)

theorem pool_in_order_witness: "pw_submitted demoPool = pw_begun demoPool @ [2] \<and> mset (pw_begun demoPool) = mset (pw_finished demoPool) + inProgress demoPool"
  using pool_in_order [OF demoPool_steps] demoPool_simps by simp


theorem pool_starves_witness: "pw_begun (submitTask 3 demoPool) = [1] \<and> \<not> joined (submitTask 3 demoPool)"
proof -
  have "(pool_step (\<lambda>_. False))\<^sup>*\<^sup>* demoPool (submitTask 3 demoPool)"
    by (intro r_into_rtranclp pool_step.submit) (simp add: workerTurn_def submitTask_def newThreadPool_def)
  from pool_starves [OF this] demoPool_simps show ?thesis
    by simp
qed

end
