(* ===== verification/Request_Gate.thy ===== *)
theory Request_Gate
  imports Thread_Pool Connection_Session
begin

text \<open>
  How the requests of clients get from the workers of their sessions to the threads of the pool. The
  first section is one round of \<open>run\<close> in \<open>common/src/networking/ConnectionSession.hpp\<close>, with the poll of the
  socket and the flag that suspends reading; the second is the handler the server installs for its
  clients in \<open>handleAccept\<close> of \<open>server/src/server.cpp\<close>, which suspends reading, submits the request to the
  pool of \<open>server/src/thread_pool.hpp\<close> and lets the pool resume reading. The theorems state that the
  requests of one client are carried out one at a time and in order, whatever the pool is used for
  beside them, and what an exception of a request does.
\<close>

section \<open>A round of the worker\<close>

function drainQueue :: "'r worker \<Rightarrow> 'r worker" where
  \<comment> \<open>tasks that are submitted meanwhile are left to the next round\<close>
  "drainQueue s = (if tasks s = [] then s else drainQueue (runTask s))"
  by pat_completeness auto

termination
  by (relation "measure (\<lambda>s. length (tasks s))") (auto simp: runTask_def neq_Nil_conv split: prod.splits)

declare drainQueue.simps [simp del]

datatype polled = PollFailed | PollTimeout | PollReady

definition leaveLoop :: "'r worker \<Rightarrow> 'r worker" where
  "leaveLoop s = s\<lparr>running := False, sess_alive := False\<rparr>"

definition runRound :: "bool \<Rightarrow> bool \<Rightarrow> polled \<Rightarrow> (Message \<Rightarrow> 'r worker \<Rightarrow> 'r worker) \<Rightarrow> 'r worker \<Rightarrow> 'r worker" where
  \<comment> \<open>whether the session reads, whether reading is suspended, what \<open>select\<close> says, and the request handler\<close>
  "runRound readLoop suspended poll handler s =
     (if \<not> isAlive s then leaveLoop s
      else let s1 = drainQueue s
           in if \<not> readLoop then s1
              else if \<not> sock_open (chan (endpoint s1)) then leaveLoop s1
              else if poll \<noteq> PollReady \<or> suspended then s1
              else let (mex, p1) = receiveAndParse (endpoint s1); s2 = s1\<lparr>endpoint := p1\<rparr>
                   in if \<not> alive p1 then leaveLoop s2 else handler mex s2)"

lemma drain_queue:
  "tasks (drainQueue s) = [] \<and> executed (drainQueue s) = executed s @ map fst (tasks s) \<and> running (drainQueue s) = running s \<and>
   sess_alive (drainQueue s) = sess_alive s \<and> submitted (drainQueue s) = submitted s"
proof (induction s rule: drainQueue.induct)
  case (1 s)
  show ?case
  proof (cases "tasks s")
    case Nil
    then show ?thesis
      by (subst (1 2 3 4 5) drainQueue.simps) simp
  next
    case (Cons t ts)
    then have "drainQueue s = drainQueue (runTask s)"
      by (subst drainQueue.simps) simp
    moreover have "running (runTask s) = running s" "sess_alive (runTask s) = sess_alive s"
      by (auto simp: runTask_def split: list.split prod.split)
    ultimately show ?thesis
      using 1 Cons runTask_queue(2) [OF Cons] by simp
  qed
qed

lemma rtranclp_steps: "session_step\<^sup>*\<^sup>* s s' \<Longrightarrow> session_steps s s'"
  by (induction rule: rtranclp_induct) (auto intro: session_steps.intros)

lemma drain_flag: "drainQueue (s\<lparr>draining := b\<rparr>) = (drainQueue s)\<lparr>draining := b\<rparr>"
proof (induction s rule: drainQueue.induct)
  case (1 s)
  have "runTask (s\<lparr>draining := b\<rparr>) = (runTask s)\<lparr>draining := b\<rparr>" if "tasks s \<noteq> []"
    using that by (auto simp: runTask_def split: list.split prod.split)
  with 1 show ?case
    by (subst (1 2) drainQueue.simps) simp
qed

lemma drain_steps:
  assumes "running s" and "draining s"
  shows "session_steps s ((drainQueue s)\<lparr>draining := False\<rparr>)"
  using assms
proof (induction s rule: drainQueue.induct)
  case (1 s)
  have first: "session_steps s (runTask s)"
    using session_step.drain [OF 1(2,3)] session_steps.none session_steps.more by blast
  show ?case
  proof (cases "tasks s")
    case Nil
    then have "(drainQueue s)\<lparr>draining := False\<rparr> = runTask s"
      by (subst drainQueue.simps) (simp add: runTask_def)
    with first show ?thesis
      by simp
  next
    case (Cons t ts)
    have "running (runTask s)" "draining (runTask s)"
      using Cons 1(2,3) by (auto simp: runTask_def split: prod.split)
    with 1(1) Cons have "session_steps (runTask s) ((drainQueue (runTask s))\<lparr>draining := False\<rparr>)"
      by simp
    with first have "session_steps s ((drainQueue (runTask s))\<lparr>draining := False\<rparr>)"
      by (meson rtranclp_trans steps_rtranclp rtranclp_steps)
    with Cons show ?thesis
      by (subst drainQueue.simps) simp
  qed
qed

text \<open>
  The loop of a session that does not read, as the server has them for data nodes and standbys, is a run
  of the worker's step relation, in which every task that was in the queue has been run.
\<close>

theorem round_is_run:
  assumes "running s" and "\<not> draining s"
  shows "session_steps s (runRound False suspended poll handler s) \<and> (isAlive s \<longrightarrow> tasks (runRound False suspended poll handler s) = [])"
proof (cases "isAlive s")
  case True
  have "s\<lparr>draining := False\<rparr> = s"
    using assms(2) by (cases s) simp
  then have "drainQueue s = (drainQueue (s\<lparr>draining := True\<rparr>))\<lparr>draining := False\<rparr>"
    using drain_flag [where s = s and b = False] by (simp add: drain_flag)
  moreover have "session_steps (s\<lparr>draining := True\<rparr>) ((drainQueue (s\<lparr>draining := True\<rparr>))\<lparr>draining := False\<rparr>)"
    using assms(1) by (intro drain_steps) simp_all
  ultimately have "session_steps s (drainQueue s)"
    using session_step.enter [OF assms True] by (metis converse_rtranclp_into_rtranclp rtranclp_steps steps_rtranclp)
  with True show ?thesis
    by (simp add: runRound_def drain_queue)
next
  case False
  with session_step.leave [OF assms] show ?thesis
    by (auto simp: runRound_def leaveLoop_def intro: session_steps.intros)
qed

section \<open>Requests of clients\<close>

datatype 'm poolTask = ClientRequest nat 'm | OtherTask nat   \<comment> \<open>handshakes, rollbacks and the end of a session\<close>

record 'm gate =
  gt_pool :: "'m poolTask pool"
  gt_suspended :: "nat \<Rightarrow> bool"          \<comment> \<open>\<open>readSuspended_\<close> of the session of each client\<close>
  gt_read :: "nat \<Rightarrow> 'm list"            \<comment> \<open>the requests its worker has read\<close>

definition newGate :: "nat \<Rightarrow> 'm gate" where
  "newGate workerCount = \<lparr>gt_pool = newThreadPool workerCount, gt_suspended = (\<lambda>_. False), gt_read = (\<lambda>_. [])\<rparr>"

definition readRequest :: "nat \<Rightarrow> 'm \<Rightarrow> 'm gate \<Rightarrow> 'm gate" where
  \<comment> \<open>the request handler of a client's session\<close>
  "readRequest i m g =
     g\<lparr>gt_suspended := (gt_suspended g)(i := True), gt_pool := submitTask (ClientRequest i m) (gt_pool g),
       gt_read := (gt_read g)(i := gt_read g i @ [m])\<rparr>"

definition requestReturns :: "nat \<Rightarrow> nat \<Rightarrow> 'm \<Rightarrow> 'm gate \<Rightarrow> 'm gate" where
  "requestReturns w i m g =
     g\<lparr>gt_pool := taskReturns w (ClientRequest i m) (gt_pool g), gt_suspended := (gt_suspended g)(i := False)\<rparr>"

definition requestThrows :: "nat \<Rightarrow> nat \<Rightarrow> 'm \<Rightarrow> 'm gate \<Rightarrow> 'm gate" where
  \<comment> \<open>the future keeps the exception, and reading is not resumed\<close>
  "requestThrows w i m g = g\<lparr>gt_pool := taskReturns w (ClientRequest i m) (gt_pool g)\<rparr>"

inductive gate_step :: "'m gate \<Rightarrow> 'm gate \<Rightarrow> bool" where
  read: "\<not> gt_suspended g i \<Longrightarrow> gate_step g (readRequest i m g)"
| other: "gate_step g (g\<lparr>gt_pool := submitTask (OtherTask k) (gt_pool g)\<rparr>)"
| turn: "w < length (pw_workers (gt_pool g)) \<Longrightarrow> pw_workers (gt_pool g) ! w = Waiting \<Longrightarrow> wakes (gt_pool g) \<Longrightarrow>
    gate_step g (g\<lparr>gt_pool := workerTurn w (gt_pool g)\<rparr>)"
| return: "w < length (pw_workers (gt_pool g)) \<Longrightarrow> pw_workers (gt_pool g) ! w = Busy (ClientRequest i m) \<Longrightarrow> gate_step g (requestReturns w i m g)"
| throw: "w < length (pw_workers (gt_pool g)) \<Longrightarrow> pw_workers (gt_pool g) ! w = Busy (ClientRequest i m) \<Longrightarrow> gate_step g (requestThrows w i m g)"
| finish: "w < length (pw_workers (gt_pool g)) \<Longrightarrow> pw_workers (gt_pool g) ! w = Busy (OtherTask k) \<Longrightarrow>
    gate_step g (g\<lparr>gt_pool := taskReturns w (OtherTask k) (gt_pool g)\<rparr>)"

inductive_cases gate_stepE: "gate_step g g'"

section \<open>One request of a client at a time\<close>

primrec requestOf :: "nat \<Rightarrow> 'm poolTask \<Rightarrow> 'm list" where
  "requestOf i (ClientRequest j m) = (if i = j then [m] else [])"
| "requestOf i (OtherTask k) = []"

definition handled :: "nat \<Rightarrow> 'm gate \<Rightarrow> 'm list" where
  \<comment> \<open>the requests of a client that have been carried out, in the order in which they ended\<close>
  "handled i g = concat (map (requestOf i) (pw_finished (gt_pool g)))"

definition pendingOf :: "nat \<Rightarrow> 'm gate \<Rightarrow> 'm multiset" where
  \<comment> \<open>the requests of a client that are in the queue of the pool or being carried out\<close>
  "pendingOf i g = (\<Sum>t\<in>#inProgress (gt_pool g) + mset (pw_tasks (gt_pool g)). mset (requestOf i t))"

definition gate_inv :: "'m gate \<Rightarrow> bool" where
  "gate_inv g \<longleftrightarrow> (\<forall>i. \<exists>ms. gt_read g i = handled i g @ ms \<and> mset ms = pendingOf i g \<and> length ms \<le> (if gt_suspended g i then 1 else 0))"

lemma inProgress_set: "w < length (pw_workers p) \<Longrightarrow> sum_list (map taskOf ((pw_workers p)[w := x])) + taskOf (pw_workers p ! w) = inProgress p + taskOf x"
  unfolding inProgress_def by (rule sum_update)

lemma pool_moves:
  assumes "w < length (pw_workers p)"
  shows "pw_workers p ! w = Waiting \<Longrightarrow> inProgress (workerTurn w p) + mset (pw_tasks (workerTurn w p)) = inProgress p + mset (pw_tasks p)"
    and "pw_workers p ! w = Busy k \<Longrightarrow> inProgress p = add_mset k (inProgress (taskReturns w k p))"
  using inProgress_set [OF assms, of "Busy (hd (pw_tasks p))"] inProgress_set [OF assms, of Gone] inProgress_set [OF assms, of Waiting]
  by (auto simp: workerTurn_def taskReturns_def inProgress_def [of "_\<lparr>pw_workers := _\<rparr>"] inProgress_def [of "_\<lparr>pw_workers := _, pw_finished := _\<rparr>"]
      inProgress_def [of "_\<lparr>pw_workers := _, pw_tasks := _, pw_begun := _\<rparr>"] split: list.split)

lemma single_pending:
  assumes "mset ms = add_mset m M" and "length ms \<le> (if b then 1 else 0 :: nat)"
  shows "ms = [m] \<and> M = {#} \<and> b"
  using assms by (cases ms) (auto split: if_splits)

lemma request_ends:
  assumes "gate_inv g" and "w < length (pw_workers (gt_pool g))" and "pw_workers (gt_pool g) ! w = Busy (ClientRequest i m)"
    and "gt_pool g' = taskReturns w (ClientRequest i m) (gt_pool g)" and "gt_read g' = gt_read g" and "\<forall>j. j \<noteq> i \<longrightarrow> gt_suspended g' j = gt_suspended g j"
  shows "gate_inv g' \<and> pendingOf i g' = {#} \<and> gt_suspended g i \<and> handled i g' = gt_read g i"
proof -
  have pending: "pendingOf j g = pendingOf j g' + mset (requestOf j (ClientRequest i m))" for j
    using pool_moves(2) [OF assms(2,3)] by (simp add: pendingOf_def assms(4) taskReturns_def)
  have ended: "handled j g' = handled j g @ requestOf j (ClientRequest i m)" for j
    by (simp add: handled_def assms(4) taskReturns_def)
  obtain ms where "gt_read g i = handled i g @ ms" "mset ms = pendingOf i g" "length ms \<le> (if gt_suspended g i then 1 else 0)"
    using assms(1) unfolding gate_inv_def by blast
  with pending [of i] ended [of i] single_pending [of ms m "pendingOf i g'" "gt_suspended g i"]
  have i: "gt_read g i = handled i g'" "pendingOf i g' = {#}" "gt_suspended g i"
    by auto
  have "\<exists>ms. gt_read g' j = handled j g' @ ms \<and> mset ms = pendingOf j g' \<and> length ms \<le> (if gt_suspended g' j then 1 else 0)" for j
  proof (cases "j = i")
    case True
    with i assms(5) show ?thesis
      by simp
  next
    case False
    moreover have "\<exists>ms. gt_read g j = handled j g @ ms \<and> mset ms = pendingOf j g \<and> length ms \<le> (if gt_suspended g j then 1 else 0)"
      using assms(1) unfolding gate_inv_def by blast
    ultimately show ?thesis
      using assms(5,6) pending [of j] ended [of j] by simp
  qed
  with i show ?thesis
    by (simp add: gate_inv_def)
qed

lemma gate_inv_step: "gate_step g g' \<Longrightarrow> gate_inv g \<Longrightarrow> gate_inv g'"
proof (induction rule: gate_step.induct)
  case (read g i m)
  show ?case
    unfolding gate_inv_def
  proof
    fix j
    obtain ms where ms: "gt_read g j = handled j g @ ms" "mset ms = pendingOf j g" "length ms \<le> (if gt_suspended g j then 1 else 0)"
      using read(2) unfolding gate_inv_def by blast
    show "\<exists>ms. gt_read (readRequest i m g) j = handled j (readRequest i m g) @ ms \<and> mset ms = pendingOf j (readRequest i m g) \<and>
        length ms \<le> (if gt_suspended (readRequest i m g) j then 1 else 0)"
      using ms read(1)
      by (intro exI [of _ "ms @ requestOf j (ClientRequest i m)"])
        (auto simp: readRequest_def handled_def pendingOf_def submitTask_def inProgress_def)
  qed
next
  case (other g k)
  then show ?case
    by (simp add: gate_inv_def handled_def pendingOf_def submitTask_def inProgress_def)
next
  case (turn w g)
  have "pw_finished (workerTurn w (gt_pool g)) = pw_finished (gt_pool g)"
    by (simp add: workerTurn_def split: list.split)
  with turn show ?case
    using pool_moves(1) [OF turn(1,2)] by (simp add: gate_inv_def handled_def pendingOf_def)
next
  case (finish w g k)
  have "pendingOf i (g\<lparr>gt_pool := taskReturns w (OtherTask k) (gt_pool g)\<rparr>) = pendingOf i g" for i
    using pool_moves(2) [OF finish(1,2)] by (simp add: pendingOf_def taskReturns_def)
  with finish show ?case
    by (simp add: gate_inv_def handled_def taskReturns_def)
next
  case (return w g i m)
  then show ?case
    using request_ends [of g w i m "requestReturns w i m g"] by (simp add: requestReturns_def)
next
  case (throw w g i m)
  then show ?case
    using request_ends [of g w i m "requestThrows w i m g"] by (simp add: requestThrows_def)
qed

lemma gate_inv_steps: "gate_step\<^sup>*\<^sup>* (newGate n) g \<Longrightarrow> gate_inv g"
proof (induction rule: rtranclp_induct)
  case base
  let ?p = "newThreadPool n :: 'a poolTask pool"
  have none: "pw_begun ?p = []" "pw_finished ?p = []" "pw_tasks ?p = []"
    by (simp_all add: newThreadPool_def)
  moreover have "mset (pw_begun ?p) = mset (pw_finished ?p) + inProgress ?p"
    using pool_inv_new unfolding pool_inv_def by blast
  ultimately have "inProgress ?p = {#}"
    by simp
  with none show ?case
    by (simp add: gate_inv_def handled_def pendingOf_def newGate_def)
qed (rule gate_inv_step)

text \<open>
  C12: the server carries out the requests of a client one at a time and in the order in which they were
  read, however many threads the pool has and whatever else they do: the requests read are those that
  have been carried out, in this order, followed by at most one that is in the queue or in progress,
  and by none when the session may read. While a request waits for the content of an upload, nobody
  reads that content as a request.
\<close>

theorem requests_one_by_one:
  assumes "gate_step\<^sup>*\<^sup>* (newGate n) g"
  shows "\<exists>ms. gt_read g i = handled i g @ ms \<and> mset ms = pendingOf i g \<and> length ms \<le> (if gt_suspended g i then 1 else 0)"
  using gate_inv_steps [OF assms] by (simp add: gate_inv_def)

lemma deserted_stays:
  assumes "gate_step\<^sup>*\<^sup>* g g'" and "gt_suspended g i" and "pendingOf i g = {#}" and "gate_inv g"
  shows "gt_suspended g' i \<and> pendingOf i g' = {#} \<and> gate_inv g' \<and> gt_read g' i = gt_read g i"
  using assms(1)
proof (induction rule: rtranclp_induct)
  case base
  then show ?case
    using assms(2-4) by simp
next
  case (step g1 g2)
  have "gt_suspended g2 i \<and> pendingOf i g2 = {#} \<and> gt_read g2 i = gt_read g1 i"
    using step(2)
  proof cases
    case (read j m)
    with step(3) show ?thesis
      by (auto simp: readRequest_def pendingOf_def submitTask_def inProgress_def)
  next
    case (other k)
    with step(3) show ?thesis
      by (simp add: pendingOf_def submitTask_def inProgress_def)
  next
    case (turn w)
    with step(3) show ?thesis
      using pool_moves(1) [OF turn(2,3)] by (simp add: pendingOf_def)
  next
    case (return w j m)
    with step(3) show ?thesis
      using pool_moves(2) [OF return(2,3)] by (auto simp: pendingOf_def requestReturns_def taskReturns_def split: if_splits)
  next
    case (throw w j m)
    with step(3) show ?thesis
      using pool_moves(2) [OF throw(2,3)] by (auto simp: pendingOf_def requestThrows_def taskReturns_def split: if_splits)
  next
    case (finish w k)
    with step(3) show ?thesis
      using pool_moves(2) [OF finish(2,3)] by (simp add: pendingOf_def taskReturns_def)
  qed
  with step(3) gate_inv_step [OF step(2)] show ?case
    by simp
qed

text \<open>
  C13: a request that ends with an exception is the last one of its client. The exception disappears in
  the pool and reading stays suspended, so that no later request is ever read, although the session
  is alive and the client waits for answers.
\<close>

theorem thrown_request_is_last:
  assumes "gate_step\<^sup>*\<^sup>* (newGate n) g" and "w < length (pw_workers (gt_pool g))" and "pw_workers (gt_pool g) ! w = Busy (ClientRequest i m)"
    and "gate_step\<^sup>*\<^sup>* (requestThrows w i m g) g'"
  shows "gt_suspended g' i \<and> gt_read g' i = gt_read g i \<and> handled i g' = gt_read g i"
proof -
  let ?g = "requestThrows w i m g"
  have "gate_inv ?g \<and> pendingOf i ?g = {#} \<and> gt_suspended g i"
    using request_ends [OF gate_inv_steps [OF assms(1)] assms(2,3), of ?g] by (simp add: requestThrows_def)
  then have g': "gt_suspended g' i" "pendingOf i g' = {#}" "gate_inv g'" "gt_read g' i = gt_read g i"
    using deserted_stays [OF assms(4), of i] by (simp_all add: requestThrows_def)
  then obtain ms where "gt_read g' i = handled i g' @ ms" "mset ms = {#}"
    unfolding gate_inv_def by metis
  with g' show ?thesis
    by simp
qed

abbreviation demoGate :: "nat gate" where
  "demoGate \<equiv> (readRequest 3 7 (newGate 1))\<lparr>gt_pool := workerTurn 0 (gt_pool (readRequest 3 7 (newGate 1)))\<rparr>"

lemma demoGate_steps: "gate_step\<^sup>*\<^sup>* (newGate 1) demoGate"
proof -
  have "gate_step (newGate 1) (readRequest 3 7 (newGate 1))"
    by (rule gate_step.read) (simp add: newGate_def)
  moreover have "gate_step (readRequest 3 7 (newGate 1)) demoGate"
    by (rule gate_step.turn) (simp_all add: readRequest_def newGate_def newThreadPool_def submitTask_def wakes_def)
  ultimately show ?thesis
    by (meson r_into_rtranclp rtranclp.rtrancl_into_rtrancl)
qed

lemma demoGate_busy: "pw_workers (gt_pool demoGate) = [Busy (ClientRequest 3 7)]" "gt_read demoGate 3 = [7]"
  by (simp_all add: readRequest_def newGate_def newThreadPool_def submitTask_def workerTurn_def)

theorem requests_one_by_one_witness: "handled 3 demoGate = [] \<and> gt_read demoGate 3 = [7] \<and> pendingOf 3 demoGate = {#7#}"
proof -
  have "handled 3 demoGate = []"
    by (simp add: handled_def readRequest_def newGate_def newThreadPool_def submitTask_def workerTurn_def)
  with requests_one_by_one [OF demoGate_steps, of 3] demoGate_busy(2) show ?thesis
    by auto
qed

theorem thrown_request_is_last_witness:
  "gt_suspended (readRequest 5 9 (requestThrows 0 3 7 demoGate)) 3 \<and> gt_read (readRequest 5 9 (requestThrows 0 3 7 demoGate)) 3 = [7] \<and>
   handled 3 (readRequest 5 9 (requestThrows 0 3 7 demoGate)) = [7]"
proof -
  have "gate_step (requestThrows 0 3 7 demoGate) (readRequest 5 9 (requestThrows 0 3 7 demoGate))"
    by (rule gate_step.read) (simp add: requestThrows_def readRequest_def newGate_def)
  from thrown_request_is_last [OF demoGate_steps _ _ r_into_rtranclp [of gate_step, OF this]] demoGate_busy show ?thesis
    by simp
qed

end
