(* ===== verification/Session_Lifetime.thy ===== *)
theory Session_Lifetime
  imports Main
begin

text \<open>
  How long a session lives: \<open>start\<close>, \<open>stop\<close> and the destructor of
  \<open>common/src/networking/ConnectionSession.hpp\<close>, with the thread wrapper \<open>common/src/utils/scoped_thread.hpp\<close>.
  A session is held by shared pointers: those of the maps and of callers, which are counted, and the
  one its own worker thread has captured. Whoever releases the last one destroys the session, which
  joins the worker.
\<close>

section \<open>A thread that is joined when it is destroyed\<close>

datatype caller = WorkerThread | OtherThread

record scopedThread =
  th_assigned :: bool        \<comment> \<open>a thread has been moved in and not been joined\<close>
  th_finished :: bool        \<comment> \<open>that thread has ended\<close>

datatype 's ended = Done 's | Waits 's | Throws 's

definition threadJoinable :: "scopedThread \<Rightarrow> bool" where
  "threadJoinable t = th_assigned t"

definition joinThread :: "caller \<Rightarrow> scopedThread \<Rightarrow> scopedThread ended" where
  \<comment> \<open>\<open>std::thread::join\<close>: a thread that joins itself gets an exception\<close>
  "joinThread who t =
     (if \<not> th_assigned t \<or> who = WorkerThread then Throws t
      else if th_finished t then Done (t\<lparr>th_assigned := False\<rparr>) else Waits t)"

definition destroyThread :: "caller \<Rightarrow> scopedThread \<Rightarrow> scopedThread ended" where
  "destroyThread who t = (if threadJoinable t then joinThread who t else Done t)"

definition assignThread :: "caller \<Rightarrow> scopedThread \<Rightarrow> scopedThread ended" where
  \<comment> \<open>a thread that is running is moved in, after the previous one has been joined\<close>
  "assignThread who t =
     (case (if threadJoinable t then joinThread who t else Done t) of
        Done t1 \<Rightarrow> Done \<lparr>th_assigned = True, th_finished = False\<rparr> | Waits t1 \<Rightarrow> Waits t1 | Throws t1 \<Rightarrow> Throws t1)"

section \<open>The session\<close>

datatype fate = Exists | Destroyed | Terminated

record lifetime =
  lt_refs :: nat              \<comment> \<open>shared pointers outside the worker\<close>
  lt_self :: bool             \<comment> \<open>the one the worker has captured\<close>
  lt_worker :: scopedThread
  lt_alive :: bool
  lt_open :: bool             \<comment> \<open>the channel\<close>
  lt_fate :: fate

definition newSession :: lifetime where
  \<comment> \<open>\<open>make_shared\<close>\<close>
  "newSession =
     \<lparr>lt_refs = 1, lt_self = False, lt_worker = \<lparr>th_assigned = False, th_finished = False\<rparr>, lt_alive = False, lt_open = True, lt_fate = Exists\<rparr>"

definition startWorker :: "lifetime \<Rightarrow> lifetime ended" where
  "startWorker s =
     (case assignThread OtherThread (lt_worker s) of
        Done t \<Rightarrow> Done (s\<lparr>lt_alive := True, lt_worker := t, lt_self := True\<rparr>)
      | Waits t \<Rightarrow> Waits (s\<lparr>lt_alive := True\<rparr>) | Throws t \<Rightarrow> Throws (s\<lparr>lt_alive := True\<rparr>))"

definition stopSession :: "caller \<Rightarrow> lifetime \<Rightarrow> lifetime ended" where
  "stopSession who s =
     (let s1 = s\<lparr>lt_alive := False, lt_open := False\<rparr>
      in if \<not> threadJoinable (lt_worker s1) then Done s1
         else case joinThread who (lt_worker s1) of
                Done t \<Rightarrow> Done (s1\<lparr>lt_worker := t\<rparr>) | Waits t \<Rightarrow> Waits s1 | Throws t \<Rightarrow> Throws s1)"

definition destroySession :: "caller \<Rightarrow> lifetime \<Rightarrow> lifetime" where
  \<comment> \<open>an exception that leaves a destructor ends the program; a join that waits is left pending\<close>
  "destroySession who s =
     (case stopSession who s of
        Done s1 \<Rightarrow> (case destroyThread who (lt_worker s1) of
                      Done t \<Rightarrow> s1\<lparr>lt_worker := t, lt_fate := Destroyed\<rparr> | Waits t \<Rightarrow> s1 | Throws t \<Rightarrow> s1\<lparr>lt_fate := Terminated\<rparr>)
      | Waits s1 \<Rightarrow> s1
      | Throws s1 \<Rightarrow> s1\<lparr>lt_fate := Terminated\<rparr>)"

definition dropRef :: "lifetime \<Rightarrow> lifetime" where
  "dropRef s =
     (let s1 = s\<lparr>lt_refs := lt_refs s - 1\<rparr>
      in if lt_refs s1 = 0 \<and> \<not> lt_self s1 then destroySession OtherThread s1 else s1)"

definition leaveRun :: "lifetime \<Rightarrow> lifetime" where
  \<comment> \<open>the worker returns from \<open>run\<close> and releases the pointer it has captured before its thread ends\<close>
  "leaveRun s =
     (let s1 = s\<lparr>lt_alive := False, lt_self := False\<rparr>;
          s2 = (if lt_refs s1 = 0 then destroySession WorkerThread s1 else s1)
      in if lt_fate s2 = Exists then s2\<lparr>lt_worker := (lt_worker s2)\<lparr>th_finished := True\<rparr>\<rparr> else s2)"

inductive life_step :: "lifetime \<Rightarrow> lifetime \<Rightarrow> bool" where
  copy: "lt_fate s = Exists \<Longrightarrow> 0 < lt_refs s \<Longrightarrow> life_step s (s\<lparr>lt_refs := Suc (lt_refs s)\<rparr>)"
| release: "lt_fate s = Exists \<Longrightarrow> 0 < lt_refs s \<Longrightarrow> life_step s (dropRef s)"
| start: "lt_fate s = Exists \<Longrightarrow> 0 < lt_refs s \<Longrightarrow> \<not> th_assigned (lt_worker s) \<Longrightarrow> startWorker s = Done s' \<Longrightarrow> life_step s s'"
| fail: "lt_fate s = Exists \<Longrightarrow> life_step s (s\<lparr>lt_alive := False\<rparr>)"
| leave: "lt_fate s = Exists \<Longrightarrow> lt_self s \<Longrightarrow> life_step s (leaveRun s)"

inductive_cases life_stepE: "life_step s s'"

definition life_ok :: "lifetime \<Rightarrow> bool" where
  \<comment> \<open>while the session exists somebody holds it, and the worker holds it exactly until it has ended\<close>
  "life_ok s \<longleftrightarrow> (lt_fate s = Exists \<longrightarrow>
     (lt_self s \<longleftrightarrow> th_assigned (lt_worker s) \<and> \<not> th_finished (lt_worker s)) \<and> (lt_self s \<or> 0 < lt_refs s))"

lemma destroy_other:
  assumes "th_assigned (lt_worker s) \<longrightarrow> th_finished (lt_worker s)"
  shows "lt_fate (destroySession OtherThread s) = Destroyed"
  using assms by (simp add: destroySession_def stopSession_def joinThread_def destroyThread_def threadJoinable_def Let_def)

lemma destroy_worker: "th_assigned (lt_worker s) \<Longrightarrow> lt_fate (destroySession WorkerThread s) = Terminated"
  by (simp add: destroySession_def stopSession_def joinThread_def threadJoinable_def Let_def)

lemma life_ok_step: "life_step s s' \<Longrightarrow> life_ok s \<Longrightarrow> life_ok s'"
proof (induction rule: life_step.induct)
  case (release s)
  then show ?case
    using destroy_other [of "s\<lparr>lt_refs := lt_refs s - 1\<rparr>"] by (auto simp: life_ok_def dropRef_def Let_def)
next
  case (leave s)
  then show ?case
    using destroy_worker [of "s\<lparr>lt_alive := False, lt_self := False\<rparr>"] by (auto simp: life_ok_def leaveRun_def Let_def)
next
  case (start s s')
  then show ?case
    by (auto simp: life_ok_def startWorker_def assignThread_def threadJoinable_def)
qed (auto simp: life_ok_def)

lemma life_ok_steps: "life_step\<^sup>*\<^sup>* newSession s \<Longrightarrow> life_ok s"
proof (induction rule: rtranclp_induct)
  case base
  then show ?case
    by (simp add: life_ok_def newSession_def)
next
  case (step s1 s2)
  then show ?case
    using life_ok_step by blast
qed



end
