(* ===== verification/Tcp_Sockets.thy ===== *)
theory Tcp_Sockets
  imports Net_Channel "HOL-Library.Multiset"
begin

text \<open>
  The sockets below the channels: \<open>common/src/networking\<close> with \<open>TCPListenerChannel\<close>, \<open>TCPConnectorChannel\<close> and
  \<open>TCPSquidChannel\<close>. The state is what the operating system knows of the process: its open descriptors,
  the ports they are bound to, their modes, and \<open>errno\<close>. What each system call answers is an argument.
  The theorems state that every open descriptor belongs to exactly one channel object, and what a
  constructor that returns has set up.
\<close>

section \<open>System calls\<close>

record os =
  os_fds :: "int list"                     \<comment> \<open>the open descriptors\<close>
  os_ports :: "(int \<times> 16 word) list"       \<comment> \<open>descriptors that are bound\<close>
  os_peers :: "(int \<times> 16 word) list"       \<comment> \<open>the ports descriptors are connected to\<close>
  os_listening :: "int list"
  os_nonblock :: "int list"
  os_timeouts :: "(int \<times> int) list"        \<comment> \<open>receive and send timeouts in seconds\<close>
  os_errno :: int

definition EINPROGRESS :: int where
  "EINPROGRESS = 115"

definition FD_SETSIZE :: int where
  "FD_SETSIZE = 1024"

definition sys_open :: "int \<Rightarrow> os \<Rightarrow> os" where
  \<comment> \<open>\<open>socket\<close> and \<open>accept\<close>, with their result\<close>
  "sys_open r s = (if r < 0 then s else s\<lparr>os_fds := r # os_fds s\<rparr>)"

definition sys_close :: "int \<Rightarrow> os \<Rightarrow> os" where
  "sys_close fd s =
     s\<lparr>os_fds := removeAll fd (os_fds s), os_ports := filter (\<lambda>e. fst e \<noteq> fd) (os_ports s),
       os_peers := filter (\<lambda>e. fst e \<noteq> fd) (os_peers s), os_listening := removeAll fd (os_listening s), os_nonblock := removeAll fd (os_nonblock s),
       os_timeouts := filter (\<lambda>e. fst e \<noteq> fd) (os_timeouts s)\<rparr>"

datatype 'a checked = Fine 'a | Undefined   \<comment> \<open>\<open>FD_SET\<close> of a descriptor outside the set is undefined\<close>

definition closeFd :: "int \<Rightarrow> os \<Rightarrow> int \<times> os" where
  \<comment> \<open>\<open>close()\<close> of the three classes: the new value of the member, and the system\<close>
  "closeFd fd s = (if fd \<ge> 0 then (-1, sys_close fd s) else (fd, s))"

section \<open>Listening\<close>

record listenCalls =
  lc_socket :: int
  lc_setsockopt :: int
  lc_bind :: int
  lc_listen :: int

definition newListener :: "listenCalls \<Rightarrow> int \<Rightarrow> os \<Rightarrow> (string + int) \<times> os" where
  "newListener r port s =
     (if lc_socket r < 0 then (Inl ''socket creation failed'', s)
      else let fd = lc_socket r; s1 = sys_open fd s
           in if lc_setsockopt r < 0 then (Inl ''setsockopt(SO_REUSEADDR) failed'', snd (closeFd fd s1))
              else if lc_bind r < 0 then (Inl ''bind failed'', snd (closeFd fd s1))
              else let s2 = s1\<lparr>os_ports := (fd, of_int port) # os_ports s1\<rparr>
                   in if lc_listen r < 0 then (Inl ''listen failed'', snd (closeFd fd s2))
                      else (Inr fd, s2\<lparr>os_listening := fd # os_listening s2\<rparr>))"

record acceptCall =
  ac_fd :: int
  ac_ip :: "string option"       \<comment> \<open>of \<open>inet_ntop\<close>\<close>
  ac_port :: "16 word"

record acceptedConnection =
  acc_channel :: "int option"    \<comment> \<open>the descriptor of the new channel\<close>
  acc_ip :: string
  acc_port :: "16 word"

definition acceptConnection :: "acceptCall \<Rightarrow> int \<Rightarrow> os \<Rightarrow> acceptedConnection \<times> os" where
  "acceptConnection r listenFd s =
     (let none = \<lparr>acc_channel = None, acc_ip = [], acc_port = 0\<rparr>
      in if listenFd < 0 then (none, s)
         else if ac_fd r < 0 then (none, s)
         else (\<lparr>acc_channel = Some (ac_fd r), acc_ip = (case ac_ip r of None \<Rightarrow> [] | Some ip \<Rightarrow> ip), acc_port = ac_port r\<rparr>,
               sys_open (ac_fd r) s))"

definition waitForConnection :: "int \<Rightarrow> bool \<Rightarrow> acceptCall \<Rightarrow> int \<Rightarrow> os \<Rightarrow> (acceptedConnection option \<times> os) checked" where
  \<comment> \<open>the result of \<open>select\<close>, whether the descriptor is in the set then, and the result of \<open>accept\<close>\<close>
  "waitForConnection ready isset r listenFd s =
     (if listenFd < 0 then Fine (None, s)
      else if listenFd \<ge> FD_SETSIZE then Undefined
      else if ready < 0 \<or> ready = 0 \<or> \<not> isset then Fine (None, s)
      else let (a, s1) = acceptConnection r listenFd s
           in Fine (if acc_channel a = None then None else Some a, s1))"

section \<open>Connecting\<close>

record connectCalls =
  cc_pton :: int
  cc_socket :: int
  cc_connect :: int
  cc_errno :: int          \<comment> \<open>set by a \<open>connect\<close> that fails\<close>
  cc_ready :: int          \<comment> \<open>of \<open>select\<close>\<close>
  cc_error :: int          \<comment> \<open>the pending error of the socket\<close>

definition connectStarted :: "connectCalls \<Rightarrow> int \<Rightarrow> int \<Rightarrow> os \<Rightarrow> os" where
  \<comment> \<open>the socket is made non-blocking and \<open>connect\<close> is called\<close>
  "connectStarted r port fd s =
     (let s1 = s\<lparr>os_nonblock := fd # os_nonblock s, os_peers := (fd, of_int port) # os_peers s\<rparr> in if cc_connect r \<noteq> 0 then s1\<lparr>os_errno := cc_errno r\<rparr> else s1)"

definition connectDone :: "int \<Rightarrow> int \<Rightarrow> os \<Rightarrow> os" where
  \<comment> \<open>blocking mode is restored and the timeouts are set\<close>
  "connectDone fd timeoutSeconds s =
     s\<lparr>os_nonblock := removeAll fd (os_nonblock s), os_timeouts := (fd, timeoutSeconds) # os_timeouts s\<rparr>"

definition newConnector :: "connectCalls \<Rightarrow> int \<Rightarrow> int \<Rightarrow> os \<Rightarrow> ((string + int) \<times> os) checked" where
  "newConnector r port timeoutSeconds s =
     (if cc_pton r \<le> 0 then Fine (Inl ''invalid address'', s)
      else if cc_socket r < 0 then Fine (Inl ''socket() failed'', s)
      else let fd = cc_socket r; s1 = connectStarted r port fd (sys_open fd s)
           in if cc_connect r \<noteq> 0 \<and> os_errno s1 \<noteq> EINPROGRESS then Fine (Inl ''connect failed'', sys_close fd s1)
              else if os_errno s1 = EINPROGRESS
                   then if fd \<ge> FD_SETSIZE then Undefined
                        else if cc_ready r \<le> 0 then Fine (Inl ''connect timed out'', sys_close fd s1)
                        else if cc_error r \<noteq> 0 then Fine (Inl ''connect error'', sys_close fd s1)
                        else Fine (Inr fd, connectDone fd timeoutSeconds s1)
                   else Fine (Inr fd, connectDone fd timeoutSeconds s1))"

section \<open>What the constructors leave behind\<close>

definition os_ok :: "os \<Rightarrow> bool" where
  \<comment> \<open>descriptors are not negative, and only open ones have attributes\<close>
  "os_ok s \<longleftrightarrow> distinct (os_fds s) \<and> (\<forall>fd\<in>set (os_fds s). 0 \<le> fd) \<and>
     (\<forall>e\<in>set (os_ports s) \<union> set (os_peers s). fst e \<in> set (os_fds s)) \<and> (\<forall>e\<in>set (os_timeouts s). fst e \<in> set (os_fds s)) \<and>
     (\<forall>fd\<in>set (os_listening s) \<union> set (os_nonblock s). fd \<in> set (os_fds s))"

definition freshFd :: "int \<Rightarrow> os \<Rightarrow> bool" where
  \<comment> \<open>a failure, or a descriptor that is not in use\<close>
  "freshFd fd s \<longleftrightarrow> fd < 0 \<or> fd \<notin> set (os_fds s)"

lemma unused_filters:
  assumes "os_ok s" and "fd \<notin> set (os_fds s)"
  shows "removeAll fd (os_fds s) = os_fds s" "removeAll fd (os_listening s) = os_listening s" "removeAll fd (os_nonblock s) = os_nonblock s"
    "filter (\<lambda>e. fst e \<noteq> fd) (os_ports s) = os_ports s" "filter (\<lambda>e. fst e \<noteq> fd) (os_peers s) = os_peers s"
    "filter (\<lambda>e. fst e \<noteq> fd) (os_timeouts s) = os_timeouts s"
  using assms by (auto simp: os_ok_def intro!: removeAll_id filter_True)

lemma sys_close_fds: "os_fds (sys_close fd s) = removeAll fd (os_fds s)"
  by (simp add: sys_close_def)

lemma os_ok_close: "os_ok s \<Longrightarrow> os_ok (sys_close fd s)"
  by (auto simp: os_ok_def sys_close_def distinct_removeAll)

lemma os_ok_open: "os_ok s \<Longrightarrow> freshFd fd s \<Longrightarrow> os_ok (sys_open fd s)"
  by (auto simp: os_ok_def sys_open_def freshFd_def)

lemma listener_restores:
  assumes "os_ok s" and "freshFd fd s" and "0 \<le> fd"
  shows "sys_close fd (sys_open fd s) = s" "sys_close fd ((sys_open fd s)\<lparr>os_ports := (fd, p) # os_ports s\<rparr>) = s"
  using assms(2,3) unused_filters [OF assms(1), of fd] by (simp_all add: sys_open_def sys_close_def freshFd_def)

lemma connector_restores:
  assumes "os_ok s" and "freshFd fd s" and "0 \<le> fd"
  shows "\<exists>e. sys_close fd (connectStarted r port fd (sys_open fd s)) = s\<lparr>os_errno := e\<rparr>"
  using assms(2,3) unused_filters [OF assms(1), of fd]
  by (intro exI [of _ "os_errno (connectStarted r port fd (sys_open fd s))"]) (simp add: sys_open_def sys_close_def freshFd_def connectStarted_def Let_def)

lemma listener_throws:
  assumes "newListener r port s = (Inl e, s')" and "os_ok s" and "freshFd (lc_socket r) s"
  shows "s' = s"
  using assms(1) listener_restores [OF assms(2,3)] by (auto simp: newListener_def Let_def closeFd_def not_less sys_open_def split: if_splits)

lemma connector_throws:
  assumes "newConnector r port timeout s = Fine (Inl e, s')" and "os_ok s" and "freshFd (cc_socket r) s"
  shows "\<exists>n. s' = s\<lparr>os_errno := n\<rparr>"
proof -
  have "s' = s \<or> 0 \<le> cc_socket r \<and> s' = sys_close (cc_socket r) (connectStarted r port (cc_socket r) (sys_open (cc_socket r) s))"
    using assms(1) by (auto simp: newConnector_def Let_def split: if_splits)
  then show ?thesis
  proof
    assume "s' = s"
    then have "s' = s\<lparr>os_errno := os_errno s\<rparr>"
      by simp
    then show ?thesis ..
  qed (use connector_restores [OF assms(2,3)] in blast)
qed

lemma port_of_int: "uint (of_int port :: 16 word) = port mod 65536"
  by (simp add: take_bit_eq_mod unsigned_of_int)


text \<open>
  A connector that is constructed is connected, in blocking mode and with its timeouts set. When the
  constructor throws, its descriptor has been closed again.
\<close>

theorem connector_ready:
  assumes "newConnector r port timeout s = Fine (res, s')" and "os_ok s" and "freshFd (cc_socket r) s"
  shows "case res of
      Inr fd \<Rightarrow> fd \<in> set (os_fds s') \<and> fd \<notin> set (os_nonblock s') \<and> (fd, timeout) \<in> set (os_timeouts s') \<and>
        (fd, of_int port) \<in> set (os_peers s') \<and> (cc_connect r = 0 \<or> 0 < cc_ready r \<and> cc_error r = 0)
    | Inl e \<Rightarrow> s' = s\<lparr>os_errno := os_errno s'\<rparr>"
proof (cases res)
  case (Inl e)
  with connector_throws assms show ?thesis
    by fastforce
next
  case (Inr fd)
  with assms(1) show ?thesis
    by (auto simp: newConnector_def Let_def sys_open_def connectStarted_def connectDone_def split: if_splits)
qed

section \<open>The descriptors of a process\<close>

text \<open>
  A process makes listeners, connectors and, by accepting, channels; it closes them, any number of times,
  and destroys them. The objects are represented by their descriptor member, -1 when closed.
\<close>

inductive sock_step :: "os \<times> int list \<Rightarrow> os \<times> int list \<Rightarrow> bool" where
  listen: "freshFd (lc_socket r) s \<Longrightarrow> newListener r port s = (res, s') \<Longrightarrow>
    sock_step (s, objs) (s', (case res of Inl e \<Rightarrow> objs | Inr fd \<Rightarrow> fd # objs))"
| connect: "freshFd (cc_socket r) s \<Longrightarrow> newConnector r port timeout s = Fine (res, s') \<Longrightarrow>
    sock_step (s, objs) (s', (case res of Inl e \<Rightarrow> objs | Inr fd \<Rightarrow> fd # objs))"
| accept: "freshFd (ac_fd r) s \<Longrightarrow> fd \<in> set objs \<Longrightarrow> waitForConnection ready isset r fd s = Fine (res, s') \<Longrightarrow>
    sock_step (s, objs) (s', (case res of None \<Rightarrow> objs | Some a \<Rightarrow> the (acc_channel a) # objs))"
| close: "i < length objs \<Longrightarrow> closeFd (objs ! i) s = (fd, s') \<Longrightarrow> sock_step (s, objs) (s', objs[i := fd])"
| destroy: "i < length objs \<Longrightarrow> closeFd (objs ! i) s = (fd, s') \<Longrightarrow> sock_step (s, objs) (s', take i objs @ drop (Suc i) objs)"

definition owned :: "os \<times> int list \<Rightarrow> bool" where
  "owned st = (case st of (s, objs) \<Rightarrow> os_ok s \<and> mset (filter (\<lambda>fd. 0 \<le> fd) objs) = mset (os_fds s))"

lemma owned_new:
  assumes "owned (s, objs)" and "freshFd fd s" and "0 \<le> fd" and "os_ok s'" and "os_fds s' = fd # os_fds s"
  shows "owned (s', fd # objs)"
  using assms by (simp add: owned_def)

lemma removeAll_mset: "distinct xs \<Longrightarrow> x \<in> set xs \<Longrightarrow> mset xs = add_mset x (mset (removeAll x xs))"
  by (induction xs) (auto simp: removeAll_id)

lemma owned_close:
  assumes "owned (s, pre @ fd # post)" and "closeFd fd s = (fd', s')"
  shows "owned (s', pre @ fd' # post) \<and> owned (s', pre @ post)"
proof (cases "0 \<le> fd")
  case True
  have ok: "os_ok s" and all: "mset (os_fds s) = add_mset fd (mset (filter (\<lambda>fd. 0 \<le> fd) (pre @ post)))"
    using assms(1) True by (simp_all add: owned_def)
  have "fd \<in> set (os_fds s)"
    by (metis all set_mset_mset union_single_eq_member add_mset_add_single)
  then have "mset (removeAll fd (os_fds s)) = mset (filter (\<lambda>fd. 0 \<le> fd) (pre @ post))"
    using removeAll_mset [of "os_fds s" fd] ok all by (simp add: os_ok_def)
  with os_ok_close [OF ok] assms(2) True show ?thesis
    by (auto simp: closeFd_def owned_def sys_close_fds)
next
  case False
  with assms show ?thesis
    by (auto simp: closeFd_def owned_def)
qed

lemma os_ok_attributes:
  assumes "os_ok s" and "fd \<in> set (os_fds s)"
  shows "os_ok (s\<lparr>os_ports := (fd, p) # os_ports s, os_listening := fd # os_listening s\<rparr>)"
    "os_ok (s\<lparr>os_peers := (fd, p) # os_peers s, os_nonblock := removeAll fd (os_nonblock s), os_timeouts := (fd, t) # os_timeouts s, os_errno := e\<rparr>)"
  using assms by (simp_all add: os_ok_def ball_Un)

lemma newListener_fds:
  assumes "newListener r port s = (Inr fd, s')" and "os_ok s" and "freshFd (lc_socket r) s"
  shows "os_ok s' \<and> os_fds s' = fd # os_fds s \<and> 0 \<le> fd \<and> freshFd fd s"
proof -
  have fd: "fd = lc_socket r" "0 \<le> fd"
    and s': "s' = (sys_open fd s)\<lparr>os_ports := (fd, of_int port) # os_ports (sys_open fd s), os_listening := fd # os_listening (sys_open fd s)\<rparr>"
    using assms(1) by (auto simp: newListener_def Let_def split: if_splits)
  have "os_fds (sys_open fd s) = fd # os_fds s" "os_ok (sys_open fd s)"
    using fd os_ok_open [OF assms(2,3)] by (simp_all add: sys_open_def)
  with os_ok_attributes(1) [where s = "sys_open fd s" and fd = fd and p = "of_int port"] s' fd assms(3) show ?thesis
    by simp
qed

lemma newConnector_fds:
  assumes "newConnector r port timeout s = Fine (Inr fd, s')" and "os_ok s" and "freshFd (cc_socket r) s"
  shows "os_ok s' \<and> os_fds s' = fd # os_fds s \<and> 0 \<le> fd \<and> freshFd fd s"
proof -
  let ?s = "sys_open fd s"
  have fd: "fd = cc_socket r" "0 \<le> fd" and s': "s' = connectDone fd timeout (connectStarted r port fd ?s)"
    using assms(1) by (auto simp: newConnector_def Let_def split: if_splits)
  obtain e where "s' = ?s\<lparr>os_peers := (fd, of_int port) # os_peers ?s, os_nonblock := removeAll fd (os_nonblock ?s), os_timeouts := (fd, timeout) # os_timeouts ?s, os_errno := e\<rparr>"
    by (rule that [of "os_errno (connectStarted r port fd ?s)"]) (simp add: s' connectDone_def connectStarted_def Let_def)
  moreover have "os_fds ?s = fd # os_fds s" "os_ok ?s"
    using fd os_ok_open [OF assms(2,3)] by (simp_all add: sys_open_def)
  ultimately show ?thesis
    using os_ok_attributes(2) [where s = ?s and fd = fd and p = "of_int port" and t = timeout and e = e] fd assms(3) by simp
qed

lemma waitForConnection_fds:
  assumes "waitForConnection ready isset r fd s = Fine (res, s')" and "os_ok s" and "freshFd (ac_fd r) s"
  shows "case res of None \<Rightarrow> s' = s | Some a \<Rightarrow> os_ok s' \<and> os_fds s' = the (acc_channel a) # os_fds s \<and> 0 \<le> the (acc_channel a) \<and> freshFd (the (acc_channel a)) s"
  using assms os_ok_open [OF assms(2,3)]
  by (auto simp: waitForConnection_def acceptConnection_def Let_def sys_open_def split: if_splits)

lemma owned_step: "sock_step st st' \<Longrightarrow> owned st \<Longrightarrow> owned st'"
proof (induction rule: sock_step.induct)
  case (listen r s port res s' objs)
  then have ok: "os_ok s"
    by (simp add: owned_def)
  with listener_throws [of r port s _ s'] newListener_fds [of r port s _ s'] listen owned_new show ?case
    by (cases res) auto
next
  case (connect r s port timeout res s' objs)
  then have ok: "os_ok s"
    by (simp add: owned_def)
  show ?case
  proof (cases res)
    case (Inl e)
    then obtain n where "s' = s\<lparr>os_errno := n\<rparr>"
      using connector_throws connect ok by blast
    with Inl connect show ?thesis
      by (simp add: owned_def os_ok_def)
  next
    case (Inr fd)
    with newConnector_fds [of r port timeout s fd s'] connect ok owned_new show ?thesis
      by auto
  qed
next
  case (accept r s fd objs ready isset res s')
  then have "os_ok s"
    by (simp add: owned_def)
  with waitForConnection_fds [of ready isset r fd s res s'] accept owned_new show ?case
    by (cases res) auto
next
  case (close i objs s fd s')
  then show ?case
    using owned_close [of s "take i objs" "objs ! i" "drop (Suc i) objs" fd s'] by (simp add: id_take_nth_drop [symmetric] upd_conv_take_nth_drop)
next
  case (destroy i objs s fd s')
  then show ?case
    using owned_close [of s "take i objs" "objs ! i" "drop (Suc i) objs" fd s'] by (simp add: id_take_nth_drop [symmetric])
qed

definition noSockets :: os where
  "noSockets = \<lparr>os_fds = [], os_ports = [], os_peers = [], os_listening = [], os_nonblock = [], os_timeouts = [], os_errno = 0\<rparr>"

text \<open>
  C27: no descriptor is leaked and none is closed twice. After any sequence of constructions, successful or
  not, accepted connections, closes and destructions, the open descriptors of the process are exactly
  the ones its channel objects hold, each held by one object.
\<close>

theorem descriptors_owned:
  assumes "sock_step\<^sup>*\<^sup>* (noSockets, []) (s, objs)"
  shows "mset (filter (\<lambda>fd. 0 \<le> fd) objs) = mset (os_fds s) \<and> distinct (os_fds s)"
proof -
  have "owned st" if "sock_step\<^sup>*\<^sup>* (noSockets, []) st" for st
    using that
  proof (induction rule: rtranclp_induct)
    case base
    then show ?case
      by (simp add: owned_def noSockets_def os_ok_def)
  qed (rule owned_step)
  from this [OF assms] show ?thesis
    by (simp add: owned_def os_ok_def)
qed

section \<open>Channel objects\<close>

text \<open>
  A connector has a descriptor and, behind it, the stream the operating system keeps. Seen from outside it
  is the channel the protocol works with: open as long as the descriptor is not negative.
\<close>

record connector =
  cn_fd :: int
  cn_stream :: channel

definition connector_isOpen :: "connector \<Rightarrow> bool" where
  "connector_isOpen c \<longleftrightarrow> cn_fd c \<ge> 0"

definition sys_recv :: "nat \<Rightarrow> channel \<Rightarrow> int \<times> bytes \<times> channel" where
  "sys_recv len st =
     (case rx st of
        [] \<Rightarrow> (0, [], st)
      | RecvError # es \<Rightarrow> (-1, [], st\<lparr>rx := es\<rparr>)
      | RecvBytes bs # es \<Rightarrow>
          if bs = [] then (0, [], st)
          else (int (min len (length bs)), take len bs, st\<lparr>rx := (if length bs \<le> len then es else RecvBytes (drop len bs) # es)\<rparr>))"

definition sys_send :: "bytes \<Rightarrow> channel \<Rightarrow> int \<times> channel" where
  "sys_send buf st =
     (case tx_script st of
        [] \<Rightarrow> (int (length buf), st\<lparr>tx := tx st @ buf\<rparr>)
      | SendError # es \<Rightarrow> (-1, st\<lparr>tx_script := es\<rparr>)
      | SendUpTo n # es \<Rightarrow> (int (min n (length buf)), st\<lparr>tx := tx st @ take n buf, tx_script := es\<rparr>))"

definition connector_readBytes :: "connector \<Rightarrow> nat \<Rightarrow> int \<times> bytes \<times> connector" where
  "connector_readBytes c len =
     (if \<not> connector_isOpen c then (-1, [], c)
      else let (n, bs, st) = sys_recv len (cn_stream c) in (n, bs, c\<lparr>cn_stream := st\<rparr>))"

definition connector_writeBytes :: "connector \<Rightarrow> bytes \<Rightarrow> int \<times> connector" where
  "connector_writeBytes c buf =
     (if \<not> connector_isOpen c then (-1, c)
      else let (n, st) = sys_send buf (cn_stream c) in (n, c\<lparr>cn_stream := st\<rparr>))"

definition connector_close :: "connector \<Rightarrow> os \<Rightarrow> connector \<times> os" where
  "connector_close c s = (let (fd, s1) = closeFd (cn_fd c) s in (c\<lparr>cn_fd := fd\<rparr>, s1))"

definition asChannel :: "connector \<Rightarrow> channel" where
  "asChannel c = (cn_stream c)\<lparr>sock_open := connector_isOpen c\<rparr>"

text \<open>
  A connector is a channel. Reading, writing and closing it are the operations of the channel the
  protocol is built on, on every path, and closing also releases the descriptor, once.
\<close>

theorem connector_refines:
  "readBytes (asChannel c) len = (let (n, bs, c') = connector_readBytes c len in (n, bs, asChannel c')) \<and>
   writeBytes (asChannel c) buf = (let (n, c') = connector_writeBytes c buf in (n, asChannel c')) \<and>
   closeChannel (asChannel c) = asChannel (fst (connector_close c s)) \<and>
   snd (connector_close (fst (connector_close c s)) (snd (connector_close c s))) = snd (connector_close c s)"
proof (intro conjI)
  show "readBytes (asChannel c) len = (let (n, bs, c') = connector_readBytes c len in (n, bs, asChannel c'))"
    by (auto simp: readBytes_def connector_readBytes_def sys_recv_def asChannel_def connector_isOpen_def Let_def split: list.splits recv_event.splits)
  show "writeBytes (asChannel c) buf = (let (n, c') = connector_writeBytes c buf in (n, asChannel c'))"
    by (auto simp: writeBytes_def connector_writeBytes_def sys_send_def asChannel_def connector_isOpen_def Let_def split: list.splits send_event.splits)
qed (simp_all add: closeChannel_def asChannel_def connector_close_def connector_isOpen_def closeFd_def)

section \<open>Descriptors out of reach of select\<close>

text \<open>
  Nothing keeps descriptors below the size of the sets \<open>select\<close> works on: a listener whose descriptor is
  1024 or more, which the constructor accepts, makes the first wait undefined.
\<close>

lemma large_descriptor_undefined:
  assumes "newListener r port s = (Inr fd, s')" and "FD_SETSIZE \<le> lc_socket r"
  shows "waitForConnection ready isset a fd s' = Undefined"
  using assms by (auto simp: newListener_def waitForConnection_def FD_SETSIZE_def Let_def split: if_splits)

section \<open>A process with a listener and a connection\<close>

abbreviation demoListen :: listenCalls where
  "demoListen \<equiv> \<lparr>lc_socket = 3, lc_setsockopt = 0, lc_bind = 0, lc_listen = 0\<rparr>"

abbreviation demoConnect :: connectCalls where
  "demoConnect \<equiv> \<lparr>cc_pton = 1, cc_socket = 4, cc_connect = -1, cc_errno = EINPROGRESS, cc_ready = 1, cc_error = 0\<rparr>"

lemma noSockets_ok: "os_ok noSockets" "freshFd fd noSockets"
  by (simp_all add: os_ok_def freshFd_def noSockets_def)


theorem connector_ready_witness:
  "\<exists>s'. newConnector demoConnect 9000 5 noSockets = Fine (Inr 4, s') \<and> 4 \<in> set (os_fds s') \<and> 4 \<notin> set (os_nonblock s')"
proof -
  obtain s' where s': "newConnector demoConnect 9000 5 noSockets = Fine (Inr 4, s')"
    by (simp add: newConnector_def sys_open_def connectStarted_def FD_SETSIZE_def)
  from connector_ready [OF this noSockets_ok(1)] noSockets_ok(2) s' show ?thesis
    by auto
qed

theorem descriptors_owned_witness:
  "\<exists>s. sock_step\<^sup>*\<^sup>* (noSockets, []) (s, [-1]) \<and> os_fds s = []"
proof -
  obtain s' where s': "newListener demoListen 9000 noSockets = (Inr 3, s')"
    by (simp add: newListener_def sys_open_def)
  have "sock_step (noSockets, []) (s', [3])"
    using sock_step.listen [OF noSockets_ok(2) s', of "[]"] by simp
  moreover have "sock_step (s', [3]) (sys_close 3 s', [-1])"
    using sock_step.close [of 0 "[3]" s' "-1" "sys_close 3 s'"] by (simp add: closeFd_def)
  ultimately have run: "sock_step\<^sup>*\<^sup>* (noSockets, []) (sys_close 3 s', [-1])"
    by (meson rtranclp.rtrancl_into_rtrancl rtranclp.rtrancl_refl)
  from descriptors_owned [OF this] run show ?thesis
    by auto
qed

end
