(* ===== verification/Fuse_Mount.thy ===== *)
theory Fuse_Mount
  imports Main
begin

text \<open>
  The life of the file system object of \<open>client/src/squidfs.cpp\<close>: the constructor, \<open>run\<close>, \<open>invalidatePath\<close> and
  the destructor, as far as the handle of the FUSE library is concerned. Between two calls of the
  library the worker of the client's session may handle a push and invalidate a path, so \<open>run\<close> is cut
  into its stages. The calls of the library are recorded in order, and what they answer is an argument.
\<close>

section \<open>The object and the library\<close>

datatype fuseCall =
    FuseNew nat
  | FuseMount nat bool             \<comment> \<open>whether it succeeded\<close>
  | FuseLoop nat
  | FuseUnmount nat
  | FuseDestroy nat
  | FuseInvalidate nat string

datatype runStage =
    Outside                        \<comment> \<open>not in \<open>run\<close>\<close>
  | HasHandle nat                  \<comment> \<open>\<open>fuse_new\<close> has returned a handle\<close>
  | MountFailed nat
  | Looping nat                    \<comment> \<open>in \<open>fuse_loop\<close>\<close>
  | Clearing nat                   \<comment> \<open>the handle has been unmounted or destroyed, and \<open>fuse_\<close> is about to be set to null\<close>

record squidFS =
  sf_fuse :: "nat option"          \<comment> \<open>\<open>fuse_\<close>\<close>
  sf_stage :: runStage
  sf_healthStop :: bool
  sf_monitor :: bool               \<comment> \<open>\<open>monitorThread_\<close> has a thread\<close>

record mounting =
  mo_instance :: "squidFS option"  \<comment> \<open>the object \<open>instance_\<close> points to\<close>
  mo_pushHandler :: bool           \<comment> \<open>the client has the handler of the object\<close>
  mo_calls :: "fuseCall list"
  mo_terminated :: bool            \<comment> \<open>\<open>std::terminate\<close>\<close>

definition noMounting :: mounting where
  "noMounting = \<lparr>mo_instance = None, mo_pushHandler = False, mo_calls = [], mo_terminated = False\<rparr>"

definition goes :: "squidFS \<Rightarrow> fuseCall list \<Rightarrow> mounting \<Rightarrow> mounting" where
  "goes ob cs m = m\<lparr>mo_instance := Some ob, mo_calls := mo_calls m @ cs\<rparr>"

definition newSquidFS :: "mounting \<Rightarrow> string + mounting" where
  "newSquidFS m =
     (if mo_instance m \<noteq> None then Inl ''SquidFS: only one instance allowed''
      else Inr (m\<lparr>mo_instance := Some \<lparr>sf_fuse = None, sf_stage = Outside, sf_healthStop = False, sf_monitor = False\<rparr>, mo_pushHandler := True\<rparr>))"

definition enterRun :: "nat option \<Rightarrow> squidFS \<Rightarrow> mounting \<Rightarrow> mounting" where
  \<comment> \<open>with the result of \<open>fuse_new\<close>; without a handle \<open>run\<close> returns -1\<close>
  "enterRun handle ob m =
     (case handle of
        None \<Rightarrow> goes (ob\<lparr>sf_fuse := None\<rparr>) [] m
      | Some h \<Rightarrow> goes (ob\<lparr>sf_fuse := Some h, sf_stage := HasHandle h\<rparr>) [FuseNew h] m)"

definition mountRun :: "bool \<Rightarrow> nat \<Rightarrow> squidFS \<Rightarrow> mounting \<Rightarrow> mounting" where
  \<comment> \<open>the monitor is started before the loop; moving a thread over one that has not been joined ends the program\<close>
  "mountRun ok h ob m =
     (if \<not> ok then goes (ob\<lparr>sf_stage := MountFailed h\<rparr>) [FuseMount h False] m
      else if sf_monitor ob then (goes (ob\<lparr>sf_healthStop := False\<rparr>) [FuseMount h True] m)\<lparr>mo_terminated := True\<rparr>
      else goes (ob\<lparr>sf_stage := Looping h, sf_healthStop := False, sf_monitor := True\<rparr>) [FuseMount h True, FuseLoop h] m)"

definition failRun :: "nat \<Rightarrow> squidFS \<Rightarrow> mounting \<Rightarrow> mounting" where
  "failRun h ob = goes (ob\<lparr>sf_stage := Clearing h\<rparr>) [FuseDestroy h]"

definition leaveLoopFs :: "nat \<Rightarrow> squidFS \<Rightarrow> mounting \<Rightarrow> mounting" where
  "leaveLoopFs h ob = goes (ob\<lparr>sf_stage := Clearing h, sf_healthStop := True\<rparr>) [FuseUnmount h]"

definition returnRun :: "squidFS \<Rightarrow> mounting \<Rightarrow> mounting" where
  "returnRun ob = goes (ob\<lparr>sf_fuse := None, sf_stage := Outside\<rparr>) []"

definition invalidatePath :: "string \<Rightarrow> squidFS \<Rightarrow> mounting \<Rightarrow> mounting" where
  "invalidatePath path ob m = (case sf_fuse ob of None \<Rightarrow> m | Some h \<Rightarrow> goes ob [FuseInvalidate h (''/'' @ path)] m)"

definition destroySquidFS :: "squidFS \<Rightarrow> mounting \<Rightarrow> mounting" where
  \<comment> \<open>the handler is taken from the client and the handle, if there is one, released; the monitor is joined after that\<close>
  "destroySquidFS ob m =
     (let m1 = m\<lparr>mo_pushHandler := False\<rparr>;
          m2 = (case sf_fuse ob of None \<Rightarrow> m1 | Some h \<Rightarrow> goes ob [FuseUnmount h, FuseDestroy h] m1)
      in m2\<lparr>mo_instance := None\<rparr>)"

primrec handleOf :: "fuseCall \<Rightarrow> nat" where
  "handleOf (FuseNew h) = h"
| "handleOf (FuseMount h ok) = h"
| "handleOf (FuseLoop h) = h"
| "handleOf (FuseUnmount h) = h"
| "handleOf (FuseDestroy h) = h"
| "handleOf (FuseInvalidate h path) = h"

inductive mount_step :: "mounting \<Rightarrow> mounting \<Rightarrow> bool" where
  construct: "newSquidFS m = Inr m' \<Longrightarrow> mount_step m m'"
| enter: "mo_instance m = Some ob \<Longrightarrow> sf_stage ob = Outside \<Longrightarrow> (\<forall>h. handle = Some h \<longrightarrow> h \<notin> handleOf ` set (mo_calls m)) \<Longrightarrow>
    mount_step m (enterRun handle ob m)"
| mount: "mo_instance m = Some ob \<Longrightarrow> sf_stage ob = HasHandle h \<Longrightarrow> \<not> mo_terminated m \<Longrightarrow> mount_step m (mountRun ok h ob m)"
| fail: "mo_instance m = Some ob \<Longrightarrow> sf_stage ob = MountFailed h \<Longrightarrow> mount_step m (failRun h ob m)"
| leave: "mo_instance m = Some ob \<Longrightarrow> sf_stage ob = Looping h \<Longrightarrow> mount_step m (leaveLoopFs h ob m)"
| return: "mo_instance m = Some ob \<Longrightarrow> sf_stage ob = Clearing h \<Longrightarrow> mount_step m (returnRun ob m)"
| push: "mo_instance m = Some ob \<Longrightarrow> mo_pushHandler m \<Longrightarrow> \<not> mo_terminated m \<Longrightarrow> path \<noteq> [] \<Longrightarrow> mount_step m (invalidatePath path ob m)"
| destroy: "mo_instance m = Some ob \<Longrightarrow> sf_stage ob = Outside \<Longrightarrow> mount_step m (destroySquidFS ob m)"

section \<open>Use of handles\<close>

primrec isInvalidate :: "fuseCall \<Rightarrow> bool" where
  "isInvalidate (FuseNew h) = False"
| "isInvalidate (FuseMount h ok) = False"
| "isInvalidate (FuseLoop h) = False"
| "isInvalidate (FuseUnmount h) = False"
| "isInvalidate (FuseDestroy h) = False"
| "isInvalidate (FuseInvalidate h path) = True"

definition lifeCalls :: "nat \<Rightarrow> mounting \<Rightarrow> fuseCall list" where
  \<comment> \<open>the calls on a handle, without the invalidations\<close>
  "lifeCalls h m = filter (\<lambda>c. handleOf c = h \<and> \<not> isInvalidate c) (mo_calls m)"

definition stageOf :: "mounting \<Rightarrow> runStage" where
  "stageOf m = (case mo_instance m of None \<Rightarrow> Outside | Some ob \<Rightarrow> sf_stage ob)"

abbreviation failedMount :: "nat \<Rightarrow> fuseCall list" where
  "failedMount h \<equiv> [FuseNew h, FuseMount h False, FuseDestroy h]"

abbreviation fullRun :: "nat \<Rightarrow> fuseCall list" where
  "fullRun h \<equiv> [FuseNew h, FuseMount h True, FuseLoop h, FuseUnmount h]"

primrec currentCalls :: "bool \<Rightarrow> runStage \<Rightarrow> (nat \<times> fuseCall list set) option" where
  \<comment> \<open>the handle a run is about and the calls it has made on it\<close>
  "currentCalls t Outside = None"
| "currentCalls t (HasHandle h) = Some (h, {if t then [FuseNew h, FuseMount h True] else [FuseNew h]})"
| "currentCalls t (MountFailed h) = Some (h, {[FuseNew h, FuseMount h False]})"
| "currentCalls t (Looping h) = Some (h, {[FuseNew h, FuseMount h True, FuseLoop h]})"
| "currentCalls t (Clearing h) = Some (h, {failedMount h, fullRun h})"

definition lifeAt :: "nat \<Rightarrow> mounting \<Rightarrow> fuseCall list set" where
  "lifeAt h m =
     (case currentCalls (mo_terminated m) (stageOf m) of
        Some (h', cs) \<Rightarrow> if h = h' then cs else {[], failedMount h, fullRun h}
      | None \<Rightarrow> {[], failedMount h, fullRun h})"

definition mount_inv :: "mounting \<Rightarrow> bool" where
  "mount_inv m \<longleftrightarrow> (\<forall>h. lifeCalls h m \<in> lifeAt h m) \<and> (\<forall>h p. FuseInvalidate h p \<in> set (mo_calls m) \<longrightarrow> FuseNew h \<in> set (mo_calls m)) \<and>
     (\<forall>ob. mo_instance m = Some ob \<longrightarrow> sf_fuse ob = map_option fst (currentCalls (mo_terminated m) (sf_stage ob))) \<and>
     (mo_terminated m \<longrightarrow> (\<exists>h. stageOf m = HasHandle h))"

lemma lifeCalls_goes: "lifeCalls h (goes ob cs m) = lifeCalls h m @ filter (\<lambda>c. handleOf c = h \<and> \<not> isInvalidate c) cs"
  by (simp add: lifeCalls_def goes_def)

lemma lifeCalls_fresh: "h \<notin> handleOf ` set (mo_calls m) \<Longrightarrow> lifeCalls h m = []"
  by (auto simp: lifeCalls_def filter_empty_conv)

lemma goes_simps [simp]:
  "mo_instance (goes ob cs m) = Some ob" "mo_calls (goes ob cs m) = mo_calls m @ cs" "mo_terminated (goes ob cs m) = mo_terminated m"
  "stageOf (goes ob cs m) = sf_stage ob"
  by (simp_all add: goes_def stageOf_def)

lemma mount_invI:
  assumes "mount_inv m" and "\<And>h. lifeCalls h m \<in> lifeAt h m \<Longrightarrow> lifeCalls h m' \<in> lifeAt h m'"
    and "\<And>h p. FuseInvalidate h p \<in> set (mo_calls m') \<Longrightarrow> FuseInvalidate h p \<in> set (mo_calls m) \<or> FuseNew h \<in> set (mo_calls m)"
    and "set (mo_calls m) \<subseteq> set (mo_calls m')"
    and "\<And>ob. mo_instance m' = Some ob \<Longrightarrow> sf_fuse ob = map_option fst (currentCalls (mo_terminated m') (sf_stage ob))"
    and "mo_terminated m' \<Longrightarrow> \<exists>h. stageOf m' = HasHandle h"
  shows "mount_inv m'"
  using assms unfolding mount_inv_def by (meson subset_iff)

lemma mount_invD:
  assumes "mount_inv m" and "mo_instance m = Some ob"
  shows "sf_fuse ob = map_option fst (currentCalls (mo_terminated m) (sf_stage ob))" "stageOf m = sf_stage ob"
    "mo_terminated m \<Longrightarrow> \<exists>h. sf_stage ob = HasHandle h"
  using assms by (auto simp: mount_inv_def stageOf_def)

lemma created:
  assumes "mount_inv m" and "mo_instance m = Some ob" and "sf_fuse ob = Some h"
  shows "FuseNew h \<in> set (mo_calls m)"
proof -
  have "lifeCalls h m \<in> lifeAt h m"
    using assms(1) by (simp add: mount_inv_def)
  then have "FuseNew h \<in> set (lifeCalls h m)"
    using assms(3) mount_invD [OF assms(1,2)] by (cases "sf_stage ob") (auto simp: lifeAt_def)
  then show ?thesis
    by (simp add: lifeCalls_def)
qed

lemma mount_inv_step: "mount_step m m' \<Longrightarrow> mount_inv m \<Longrightarrow> mount_inv m'"
proof (induction rule: mount_step.induct)
  case (construct m m')
  then show ?case
    by (intro mount_invI [OF construct(2)])
      (auto simp: newSquidFS_def lifeAt_def lifeCalls_def stageOf_def mount_inv_def split: if_splits)
next
  case (enter m ob handle)
  note inv = mount_invD [OF enter(4,1)]
  show ?case
  proof (cases handle)
    case None
    with enter inv show ?thesis
      by (intro mount_invI [OF enter(4)]) (auto simp: enterRun_def lifeCalls_goes lifeAt_def)
  next
    case (Some h)
    with enter inv lifeCalls_fresh [of h m] show ?thesis
      by (intro mount_invI [OF enter(4)]) (auto simp: enterRun_def lifeCalls_goes lifeAt_def)
  qed
next
  case (mount m ob h ok)
  with mount_invD [OF mount(4,1)] show ?case
    by (intro mount_invI [OF mount(4)]) (auto simp: mountRun_def lifeCalls_goes lifeAt_def lifeCalls_def [of _ "_\<lparr>mo_terminated := _\<rparr>"]
        stageOf_def [of "_\<lparr>mo_terminated := _\<rparr>"] lifeCalls_def goes_def [of _ "[FuseMount h True]"] split: if_splits)
next
  case (fail m ob h)
  with mount_invD [OF fail(3,1)] show ?case
    by (intro mount_invI [OF fail(3)]) (auto simp: failRun_def lifeCalls_goes lifeAt_def)
next
  case (leave m ob h)
  with mount_invD [OF leave(3,1)] show ?case
    by (intro mount_invI [OF leave(3)]) (auto simp: leaveLoopFs_def lifeCalls_goes lifeAt_def)
next
  case (return m ob h)
  with mount_invD [OF return(3,1)] show ?case
    by (intro mount_invI [OF return(3)]) (auto simp: returnRun_def lifeCalls_goes lifeAt_def split: if_splits)
next
  case (push m ob path)
  with mount_invD [OF push(5,1)] created [OF push(5,1)] show ?case
    by (intro mount_invI [OF push(5)]) (auto simp: invalidatePath_def lifeCalls_goes lifeAt_def split: option.splits)
next
  case (destroy m ob)
  with mount_invD [OF destroy(3,1)] show ?case
    by (intro mount_invI [OF destroy(3)]) (auto simp: destroySquidFS_def lifeCalls_def lifeAt_def stageOf_def split: option.splits)
qed

lemma mount_inv_steps: "mount_step\<^sup>*\<^sup>* noMounting m \<Longrightarrow> mount_inv m"
proof (induction rule: rtranclp_induct)
  case base
  then show ?case
    by (simp add: mount_inv_def noMounting_def lifeCalls_def lifeAt_def stageOf_def)
qed (rule mount_inv_step)

text \<open>
  C19: how the handles of the FUSE library are used, whatever pushes come in between. A handle is created
  before it is used for anything else; it is then either mounted, run and unmounted, each once and in
  this order, or destroyed after its mount has failed. Outside \<open>run\<close> every handle is at the end of one of
  the two ways. So a handle that has been mounted is never destroyed, neither by \<open>run\<close> nor by the
  destructor, which finds no handle.
\<close>

theorem mount_lifecycle:
  assumes "mount_step\<^sup>*\<^sup>* noMounting m"
  shows "lifeCalls h m \<in> lifeAt h m \<and> (FuseInvalidate h path \<in> set (mo_calls m) \<longrightarrow> FuseNew h \<in> set (mo_calls m)) \<and>
    (FuseMount h True \<in> set (mo_calls m) \<longrightarrow> FuseDestroy h \<notin> set (mo_calls m))"
proof -
  have inv: "lifeCalls h m \<in> lifeAt h m" "FuseInvalidate h path \<in> set (mo_calls m) \<longrightarrow> FuseNew h \<in> set (mo_calls m)"
    using mount_inv_steps [OF assms] by (auto simp: mount_inv_def)
  have "c \<in> set (lifeCalls h m)" if "c \<in> set (mo_calls m)" "handleOf c = h" "\<not> isInvalidate c" for c
    using that by (simp add: lifeCalls_def)
  moreover have "FuseMount h True \<in> set (lifeCalls h m) \<longrightarrow> FuseDestroy h \<notin> set (lifeCalls h m)"
    using inv(1) by (cases "stageOf m") (auto simp: lifeAt_def split: if_splits)
  ultimately show ?thesis
    using inv by auto
qed

section \<open>Running twice\<close>

definition freshFS :: squidFS where
  "freshFS = \<lparr>sf_fuse = None, sf_stage = Outside, sf_healthStop = False, sf_monitor = False\<rparr>"

definition runOnce :: "nat \<Rightarrow> squidFS \<Rightarrow> mounting \<Rightarrow> mounting" where
  \<comment> \<open>all stages of a run without pushes, with a mount that succeeds\<close>
  "runOnce h ob m =
     (let m1 = enterRun (Some h) ob m; m2 = mountRun True h (the (mo_instance m1)) m1
      in if mo_terminated m2 then m2
         else let m3 = leaveLoopFs h (the (mo_instance m2)) m2 in returnRun (the (mo_instance m3)) m3)"

lemma runOnce_steps:
  assumes "mo_instance m = Some ob" and "sf_stage ob = Outside" and "h \<notin> handleOf ` set (mo_calls m)" and "\<not> mo_terminated m"
  shows "mount_step\<^sup>*\<^sup>* m (runOnce h ob m)"
proof -
  define m1 where "m1 = enterRun (Some h) ob m"
  have "mount_step m m1"
    unfolding m1_def using assms by (intro mount_step.enter) simp_all
  moreover obtain ob1 where ob1: "mo_instance m1 = Some ob1" "sf_stage ob1 = HasHandle h" "\<not> mo_terminated m1"
    using assms(4) by (simp add: m1_def enterRun_def)
  define m2 where "m2 = mountRun True h ob1 m1"
  have "mount_step m1 m2"
    unfolding m2_def using ob1 by (intro mount_step.mount)
  ultimately have m2: "mount_step\<^sup>*\<^sup>* m m2"
    by (meson r_into_rtranclp rtranclp.rtrancl_into_rtrancl)
  show ?thesis
  proof (cases "mo_terminated m2")
    case True
    with m2 ob1 show ?thesis
      by (simp add: runOnce_def Let_def flip: m1_def) (simp add: m2_def)
  next
    case False
    then obtain ob2 where ob2: "mo_instance m2 = Some ob2" "sf_stage ob2 = Looping h"
      by (auto simp: m2_def mountRun_def split: if_splits)
    define m3 where "m3 = leaveLoopFs h ob2 m2"
    have m3: "mount_step m2 m3"
      unfolding m3_def using ob2 by (intro mount_step.leave)
    moreover obtain ob3 where ob3: "mo_instance m3 = Some ob3" "sf_stage ob3 = Clearing h"
      by (simp add: m3_def leaveLoopFs_def)
    moreover have "mount_step m3 (returnRun ob3 m3)"
      using ob3 by (intro mount_step.return)
    ultimately have "mount_step\<^sup>*\<^sup>* m (returnRun ob3 m3)"
      using m2 by (meson rtranclp.rtrancl_into_rtrancl)
    moreover have "runOnce h ob m = returnRun ob3 m3"
      using False ob1 ob2 ob3 by (simp add: runOnce_def Let_def flip: m1_def) (simp add: m3_def flip: m2_def)
    ultimately show ?thesis
      by simp
  qed
qed

definition constructed :: mounting where
  "constructed = \<lparr>mo_instance = Some freshFS, mo_pushHandler = True, mo_calls = [], mo_terminated = False\<rparr>"

lemma constructed_step: "mount_step noMounting constructed"
  by (rule mount_step.construct) (simp add: newSquidFS_def noMounting_def constructed_def freshFS_def)

lemmas run_defs = runOnce_def enterRun_def mountRun_def leaveLoopFs_def returnRun_def constructed_def freshFS_def goes_def Let_def

lemma ran_reachable: "mount_step\<^sup>*\<^sup>* noMounting (runOnce h freshFS constructed)"
proof -
  have "mount_step\<^sup>*\<^sup>* constructed (runOnce h freshFS constructed)"
    by (rule runOnce_steps) (simp_all add: constructed_def freshFS_def)
  with constructed_step show ?thesis
    by (meson converse_rtranclp_into_rtranclp)
qed

text \<open>
  A second \<open>run\<close> of the same object ends the program: the thread of the first monitor has not been joined
  when that of the second is moved over it.
\<close>

lemma second_run_terminates:
  assumes "h \<noteq> h'" and "m = runOnce h freshFS constructed"
  shows "mount_step\<^sup>*\<^sup>* noMounting (runOnce h' (the (mo_instance m)) m) \<and> mo_terminated (runOnce h' (the (mo_instance m)) m)"
proof -
  have "mount_step\<^sup>*\<^sup>* noMounting m"
    unfolding assms(2) by (rule ran_reachable)
  moreover have "mount_step\<^sup>*\<^sup>* m (runOnce h' (the (mo_instance m)) m)"
    using assms by (intro runOnce_steps) (simp_all add: run_defs)
  ultimately show ?thesis
    using assms(2) by (simp add: run_defs)
qed

theorem mount_lifecycle_witness:
  "lifeCalls 1 (runOnce 1 freshFS constructed) = fullRun 1 \<and> FuseDestroy 1 \<notin> set (mo_calls (runOnce 1 freshFS constructed))"
proof -
  from mount_lifecycle [OF ran_reachable, of 1 1] have "lifeCalls 1 (runOnce 1 freshFS constructed) \<in> lifeAt 1 (runOnce 1 freshFS constructed) \<and>
      FuseDestroy 1 \<notin> set (mo_calls (runOnce 1 freshFS constructed))"
    by (simp add: run_defs)
  then show ?thesis
    by (simp add: run_defs lifeCalls_def)
qed

end
