(* ===== verification/File_Locks.thy ===== *)
theory File_Locks
  imports Lock_Manager
begin

text \<open>
  The rest of \<open>common/src/filesystem/filemanager.cpp\<close>: where the storage is, the listing of directory
  entries with their times, and the map of locks a file manager keeps for its own files. The
  environment and the times of last modification are arguments.
\<close>

section \<open>The storage root\<close>

definition storageRoot :: "string option \<Rightarrow> string option \<Rightarrow> string \<Rightarrow> string" where
  \<comment> \<open>the values of \<open>SQUID_STORAGE_ROOT\<close> and \<open>HOME\<close>, and the working directory; an empty value counts as none\<close>
  "storageRoot overrideRoot home cwd =
     (case overrideRoot of
        Some (c # cs) \<Rightarrow> lexically_normal (c # cs)
      | _ \<Rightarrow> (case home of
                Some (c # cs) \<Rightarrow> lexically_normal (path_append (c # cs) ''SquidStorage'')
              | _ \<Rightarrow> lexically_normal cwd))"

section \<open>Listings\<close>

definition getFileEntries :: "disk \<Rightarrow> string list" where
  \<comment> \<open>the paths of the regular files in the storage root\<close>
  "getFileEntries d = filter (\<lambda>p. case childName (root d) p of None \<Rightarrow> False | Some name \<Rightarrow> isRuntimeFile name) (map fst (files d))"

definition getFilesLastWrite :: "(string \<Rightarrow> int) \<Rightarrow> disk \<Rightarrow> (string, int) omap" where
  "getFilesLastWrite mtime d = fold (\<lambda>p. om_put (the (childName (root d) p)) (mtime p)) (getFileEntries d) []"

section \<open>The lock map of a file manager\<close>

record fileManager =
  fm_disk :: disk
  fm_map :: "(string, FileLock) omap"
  fm_lock :: FileLock

definition startFileManager :: "int \<Rightarrow> FileLock \<Rightarrow> disk \<Rightarrow> fileManager" where
  \<comment> \<open>the constructor; the members of the single lock are not initialised\<close>
  "startFileManager now unset d =
     \<lparr>fm_disk = createFileVersionFile d, fm_map = fold (\<lambda>entry. om_put entry (newFileLock now entry)) (getFiles d) [], fm_lock = unset\<rparr>"

definition setFileMap :: "(string, FileLock) omap \<Rightarrow> fileManager \<Rightarrow> fileManager" where
  "setFileMap m fm = fm\<lparr>fm_map := m\<rparr>"

definition getFileMap :: "fileManager \<Rightarrow> (string, FileLock) omap" where
  "getFileMap fm = fm_map fm"

definition setFileLock :: "FileLock \<Rightarrow> fileManager \<Rightarrow> fileManager" where
  "setFileLock l fm = fm\<lparr>fm_lock := l\<rparr>"

definition getFileLock :: "fileManager \<Rightarrow> FileLock" where
  "getFileLock fm = fm_lock fm"

definition updateFileMap :: "int \<Rightarrow> fileManager \<Rightarrow> fileManager" where
  "updateFileMap now fm =
     fm\<lparr>fm_map := fold (\<lambda>entry m. if om_find m entry = None then om_put entry (newFileLock now entry) m else m) (getFiles (fm_disk fm)) (fm_map fm)\<rparr>"

section \<open>What the listings and the lock map hold\<close>

lemma getFileEntries_names: "map (\<lambda>p. the (childName (root d) p)) (getFileEntries d) = getFiles d"
proof -
  have "map (\<lambda>p. the (childName r p)) (filter (\<lambda>p. case childName r p of None \<Rightarrow> False | Some name \<Rightarrow> isRuntimeFile name) (map fst es)) =
      filter isRuntimeFile (List.map_filter (\<lambda>(p, _). childName r p) es)" for r and es :: "(string \<times> bytes) list"
    by (induction es) (auto simp: List.map_filter_def split: option.splits)
  then show ?thesis
    by (simp add: getFileEntries_def getFiles_def)
qed

lemma find_fold_put: "om_find (fold (\<lambda>x. om_put (f x) (g x)) xs m) k = None \<longleftrightarrow> om_find m k = None \<and> k \<notin> f ` set xs"
  by (induction xs arbitrary: m) (auto split: if_splits)

lemma find_fold_missing:
  "om_find (fold (\<lambda>x m. if om_find m x = None then om_put x (g x) m else m) xs m) k =
     (case om_find m k of Some v \<Rightarrow> Some v | None \<Rightarrow> if k \<in> set xs then Some (g k) else None)"
  by (induction xs arbitrary: m) (auto split: option.split if_splits)

text \<open>
  The listing with times has exactly the files of the listing, and updating the lock map adds an
  unlocked lock for every file that has none, and keeps the locks there are: also those of files that
  have been deleted, which the map never forgets.
\<close>

theorem lock_map_update:
  "set (om_keys (getFilesLastWrite mtime d)) = set (getFiles d) \<and>
   om_find (getFileMap (updateFileMap now fm)) path =
     (case om_find (getFileMap fm) path of
        Some l \<Rightarrow> Some l | None \<Rightarrow> if path \<in> set (getFiles (fm_disk fm)) then Some (newFileLock now path) else None)"
proof -
  have "k \<in> set (om_keys (getFilesLastWrite mtime d)) \<longleftrightarrow> k \<in> set (getFiles d)" for k
    using getFileEntries_names [of d, symmetric] by (auto simp: om_keys_find getFilesLastWrite_def find_fold_put)
  then show ?thesis
    by (auto simp: getFileMap_def updateFileMap_def find_fold_missing)
qed

end
