(* ===== verification/Spec2Isabelle.thy ===== *)
theory Spec2Isabelle
  imports Sync_Planner Squid_FS Program_Start Request_Gate Session_Lifetime Tcp_Sockets Fuse_Mount File_Locks
begin

text \<open>
  A verification development of SquidStorage, a replicated file store in C++. Paths below are relative to
  \<open>src/\<close>.

  \<^bold>\<open>The system.\<close> A primary server keeps no file contents. It knows which data nodes hold which file, in
  which version, and who holds the lock of a file. Clients send it requests; it forwards contents to and
  from the data nodes, commits a write when a quorum of them has acknowledged it, and pushes changes to
  the other clients. Standby servers mirror the versions and holders of the primary and take over when it
  falls silent. A client can be mounted as a file system through the FUSE library. All parts speak one
  binary protocol over TCP.

  \<^bold>\<open>Foundations.\<close> \<open>Squid_Prelude\<close> has machine integers, bytes and the error results; \<open>Ordered_Map\<close> models
  \<open>std::map\<close> and \<open>std::set\<close> as sorted lists, with the locale \<open>dictionary\<close>; \<open>Text_IO\<close> models the formatted
  input and output the sources use.

  \<^bold>\<open>Storage.\<close>
  \<^item> \<open>File_Manager\<close> and \<open>File_Locks\<close>: \<open>common/src/filesystem/filemanager\<close>. Paths, contents, the version file,
    listings. Storing a file changes that file and its version only (locale \<open>version_store\<close>).
  \<^item> \<open>State_Manager\<close>: \<open>server/src/state_manager.hpp\<close> and \<open>common/src/filesystem/epoch_store.hpp\<close>. The maps
    loaded are the maps saved, also after a crash in the middle of a save.
  \<^item> \<open>Sync_Planner\<close>: \<open>common/src/filesystem/syncplanner.hpp\<close>, equal to a pointwise reference.
  \<^item> \<open>Cluster_Config\<close>: \<open>common/src/config/ClusterConfig.hpp\<close>, the parser and the priorities of servers.

  \<^bold>\<open>Communication.\<close>
  \<^item> \<open>Tcp_Sockets\<close> and \<open>Net_Channel\<close>: \<open>common/src/networking/TCP*\<close>. Descriptors and their owners; the stream
    of a connected socket, cut into arbitrary fragments (locales \<open>exact_reader\<close>, \<open>complete_writer\<close>).
  \<^item> \<open>Wire_Format\<close>: \<open>common/src/squidprotocol/squidProtocolFormatter\<close>. Frames parse back to what was built.
  \<^item> \<open>File_Transfer\<close>: \<open>common/src/filesystem/filetransfer\<close>. Sized transfers of contents.
  \<^item> \<open>Squid_Protocol\<close> and \<open>Protocol_Delivery\<close>: \<open>common/src/squidprotocol/squidprotocol\<close>. Requests, answers, pushes
    and the two dispatchers; delivery in sequence order.
  \<^item> \<open>Task_Queue\<close>, \<open>Connection_Session\<close>, \<open>Session_Lifetime\<close>: \<open>common/src/networking/ConnectionSession.hpp\<close> with
    \<open>common/src/utils/scoped_thread.hpp\<close>. The worker of a session and its queue (locale \<open>task_queue\<close>), and who
    destroys a session.
  \<^item> \<open>Datanode_Session\<close> and \<open>Node_Session\<close>: \<open>datanode/src/datanode.cpp\<close> joined with the caller's end through a
    connection that is cut after any number of bytes.
  \<^item> \<open>Peer_Connection\<close>: \<open>common/src/peer/peer.cpp\<close> and the run loop of the data node. Handshake, failover.

  \<^bold>\<open>Server.\<close>
  \<^item> \<open>Server_State\<close>, \<open>Lock_Manager\<close>, \<open>Replication_Manager\<close>, \<open>Heartbeat_Manager\<close>, \<open>Replica_Recovery\<close>: the managers in
    \<open>server/src\<close>. Writes on quorums, reads of current content, exclusive locks, rebalancing. The locale
    \<open>replica_call\<close> has the fan-out over the holders, interpreted for creating, updating and deleting.
  \<^item> \<open>Squid_Server\<close> and \<open>Server_Invariant\<close>: \<open>server/src/server.cpp\<close> and \<open>standby_replica_manager.cpp\<close>. The handlers
    and, as \<open>server_step\<close>, the loops of \<open>Server::run\<close>; an invariant of all reachable states.
  \<^item> \<open>Thread_Pool\<close> and \<open>Request_Gate\<close>: \<open>server/src/thread_pool.hpp\<close> and the way of a request through it.
  \<^item> \<open>Replica_Watcher\<close>: \<open>server/src/replica_watcher\<close>. Epochs, promotion, split brain.

  \<^bold>\<open>Client.\<close> \<open>Squid_Client\<close>: \<open>client/src/client.cpp\<close>. \<open>Squid_FS\<close> and \<open>Fuse_Mount\<close>: \<open>client/src/squidfs.cpp\<close>, the cache
  and its operations (locale \<open>push_effect\<close>), and the mount.

  \<^bold>\<open>Composition.\<close> \<open>Client_Server\<close> feeds each end with what the other sends, from the client through the server
  to the disks of the data nodes. \<open>Standby_Mirror\<close> does so for primary and standby. \<open>Failover\<close> has
  \<open>server/src/main.cpp\<close> and follows a committed update over the loss of the primary. \<open>Program_Start\<close> has the
  three other programs.

  \<^bold>\<open>Conventions.\<close> An \<open>int\<close> of C++ is an integer with \<open>int_range\<close> where its width matters, an unsigned type a
  word. Exceptions are values of sum types; \<open>outcome\<close> adds a call that never returns. What lies outside
  the program is an argument: the answers of system calls, clocks, the bytes that arrive, the cuts of
  connections, the results of probes and the calls of the FUSE library.

  \<^bold>\<open>Bounds.\<close> Loops over a stream end because each round consumes input, which a termination proof shows;
  there is no fuel in them. Loops that run for ever (the data node, the watcher, the server) are given by
  one round, a number of rounds or a step relation, and hold for every number of rounds.

  \<^bold>\<open>Concurrency.\<close> The handlers and managers of the server run as one step each, in any order; interleavings
  inside a handler are not covered. The queue of a session, the thread pool, the request gate, the
  lifetime of a session, the mount and the cache of the file system are modelled with the interleavings of
  their threads.

  \<^bold>\<open>Not modelled.\<close> The logger, which is pure output and included nowhere. The callbacks of the FUSE library,
  which only forward. Printing functions, the readiness file and the destructor of the server, which joins
  threads that end only when the program does. The RPC timeout of a session, which is zero in every
  program. The overloads of \<open>response\<close> for ports, texts and times on a session and the accessors of the
  watcher, which nothing calls. Memory order of atomics and the internals of mutexes.
\<close>

end
